theory Spec2Isabelle
  imports Complex_Main
begin

section \<open>Numbers, positions and virtual vertices\<close>

text \<open>
  The C++ \<^verbatim>\<open>double\<close> values of the engine are idealised: a finite double is a real
  number and the only special value kept is positive infinity, which the search uses
  as the distance of a node that has not been reached. Rounding, NaN and negative
  infinity are outside the model.
\<close>

datatype double = Fin real | PInf

fun d_add :: "double \<Rightarrow> double \<Rightarrow> double" where
  "d_add (Fin a) (Fin b) = Fin (a + b)"
| "d_add _ _ = PInf"

fun d_less :: "double \<Rightarrow> double \<Rightarrow> bool" where
  "d_less (Fin a) (Fin b) = (a < b)"
| "d_less (Fin a) PInf = True"
| "d_less PInf _ = False"

fun isinf :: "double \<Rightarrow> bool" where
  "isinf PInf = True"
| "isinf (Fin a) = False"

text \<open>\<^verbatim>\<open>std::numeric_limits<double>::max()\<close>.\<close>

definition DBL_MAX :: real where
  "DBL_MAX = (2 - 1 / 2 ^ 52) * 2 ^ 1023"

type_synonym pos3 = "real \<times> real \<times> real"

text \<open>
  \<^verbatim>\<open>VirtualVertex\<close> is a \<^verbatim>\<open>std::variant<pm::vertex_handle, pm::edge_handle>\<close>
  over the target mesh: a real vertex, or an edge standing for its midpoint. Handles
  are the indices of the mesh elements.
\<close>

datatype VirtualVertex = Vertex nat | Edge nat

fun is_real_vertex :: "VirtualVertex \<Rightarrow> bool" where
  "is_real_vertex (Vertex v) = True"
| "is_real_vertex (Edge e) = False"

fun is_real_edge :: "VirtualVertex \<Rightarrow> bool" where
  "is_real_edge (Edge e) = True"
| "is_real_edge (Vertex v) = False"

type_synonym VirtualPath = "VirtualVertex list"

section \<open>The priority ordering of \<^verbatim>\<open>find_shortest_path\<close>\<close>

text \<open>
  \<^verbatim>\<open>struct Distance\<close> of \<^verbatim>\<open>Embedding::find_shortest_path\<close>, with its default member
  initialisers, and \<^verbatim>\<open>Distance::operator<\<close>.
\<close>

record Distance =
  edges_crossed :: int
  geodesic :: double
  remaining_distance_heuristic :: double

definition INT_MAX :: int where
  "INT_MAX = 2 ^ 31 - 1"

definition Distance_default :: Distance where
  "Distance_default =
     \<lparr>edges_crossed = INT_MAX, geodesic = PInf, remaining_distance_heuristic = Fin 0\<rparr>"

definition Distance_less :: "Distance \<Rightarrow> Distance \<Rightarrow> bool" where
  "Distance_less lhs rhs =
     d_less (d_add (geodesic lhs) (remaining_distance_heuristic lhs))
            (d_add (geodesic rhs) (remaining_distance_heuristic rhs))"

text \<open>\<^verbatim>\<open>struct Candidate\<close> and \<^verbatim>\<open>Candidate::operator>\<close> (\<^verbatim>\<open>rhs.dist < dist\<close>).\<close>

record Candidate =
  cand_vv :: VirtualVertex
  cand_p :: pos3
  cand_dist :: Distance

definition Candidate_greater :: "Candidate \<Rightarrow> Candidate \<Rightarrow> bool" where
  "Candidate_greater lhs rhs = Distance_less (cand_dist rhs) (cand_dist lhs)"

section \<open>Halfedge meshes\<close>

text \<open>
  Modelled from the spec: the polymesh library (\<^verbatim>\<open>pm::Mesh\<close>, its handles, its
  attributes and \<^verbatim>\<open>split_and_triangulate\<close>) is not part of the sources. Following the
  design notes of the specification, a mesh is a structure of arrays with stable
  integer handles, and an edge split is an append-only operation that preserves every
  existing handle. Edge \<open>e\<close> has the two halfedges \<open>2 * e\<close> (\<^verbatim>\<open>halfedgeA\<close>, pointing to
  \<^verbatim>\<open>vertexA\<close>) and \<open>2 * e + 1\<close> (\<^verbatim>\<open>halfedgeB\<close>, pointing to \<^verbatim>\<open>vertexB\<close>). Faces are
  kept as vertex triples (the target mesh is triangulated); the layout mesh uses the
  same record and only its vertices and edges are read. The halfedges leaving a vertex
  are listed by increasing index; the rotational order of the library is not modelled.
\<close>

record Mesh =
  n_vertices :: nat
  edge_list :: "(nat \<times> nat) list"
  face_list :: "(nat \<times> nat \<times> nat) list"

definition n_edges :: "Mesh \<Rightarrow> nat" where
  "n_edges m = length (edge_list m)"

definition n_halfedges :: "Mesh \<Rightarrow> nat" where
  "n_halfedges m = 2 * length (edge_list m)"

definition opposite :: "nat \<Rightarrow> nat" where
  "opposite h = (if even h then h + 1 else h - 1)"

definition halfedgeA :: "nat \<Rightarrow> nat" where
  "halfedgeA e = 2 * e"

definition halfedgeB :: "nat \<Rightarrow> nat" where
  "halfedgeB e = 2 * e + 1"

definition vertexA :: "Mesh \<Rightarrow> nat \<Rightarrow> nat" where
  "vertexA m e = fst (edge_list m ! e)"

definition vertexB :: "Mesh \<Rightarrow> nat \<Rightarrow> nat" where
  "vertexB m e = snd (edge_list m ! e)"

definition vertex_to :: "Mesh \<Rightarrow> nat \<Rightarrow> nat" where
  "vertex_to m h = (if even h then vertexA m (h div 2) else vertexB m (h div 2))"

definition vertex_from :: "Mesh \<Rightarrow> nat \<Rightarrow> nat" where
  "vertex_from m h = vertex_to m (opposite h)"

definition outgoing_halfedges :: "Mesh \<Rightarrow> nat \<Rightarrow> nat list" where
  "outgoing_halfedges m v = filter (\<lambda>h. vertex_from m h = v) [0..<n_halfedges m]"

text \<open>\<^verbatim>\<open>pm::halfedge_from_to\<close>; \<open>None\<close> is the invalid handle.\<close>

definition halfedge_from_to :: "Mesh \<Rightarrow> nat \<Rightarrow> nat \<Rightarrow> nat option" where
  "halfedge_from_to m v0 v1 = find (\<lambda>h. vertex_to m h = v1) (outgoing_halfedges m v0)"

text \<open>The vertex of a triangle that faces the edge between \<open>a\<close> and \<open>b\<close>.\<close>

fun third_vertex :: "nat \<Rightarrow> nat \<Rightarrow> nat \<times> nat \<times> nat \<Rightarrow> nat option" where
  "third_vertex a b (x, y, z) =
     (if (x = a \<and> y = b) \<or> (x = b \<and> y = a) then Some z
      else if (y = a \<and> z = b) \<or> (y = b \<and> z = a) then Some x
      else if (z = a \<and> x = b) \<or> (z = b \<and> x = a) then Some y
      else None)"

fun subst_vertex :: "nat \<Rightarrow> nat \<Rightarrow> nat \<times> nat \<times> nat \<Rightarrow> nat \<times> nat \<times> nat" where
  "subst_vertex old new (x, y, z) =
     (if x = old then new else x, if y = old then new else y, if z = old then new else z)"

text \<open>
  \<^verbatim>\<open>edges().split_and_triangulate(e)\<close>: a new vertex \<open>w\<close> (the next free index) is
  put on the edge between \<open>a\<close> and \<open>b\<close>; edge \<open>e\<close> keeps its handle and now joins \<open>a\<close> and
  \<open>w\<close>, the edge between \<open>w\<close> and \<open>b\<close> and one edge from \<open>w\<close> to the facing vertex of
  every incident triangle are appended, and every incident triangle is cut in two.
\<close>

definition split_and_triangulate :: "Mesh \<Rightarrow> nat \<Rightarrow> Mesh \<times> nat" where
  "split_and_triangulate m e =
     (let a = vertexA m e; b = vertexB m e; w = n_vertices m;
          facing = List.map_filter (third_vertex a b) (face_list m)
      in (m\<lparr>n_vertices := Suc w,
            edge_list := (edge_list m)[e := (a, w)] @ [(w, b)] @ map (\<lambda>c. (w, c)) facing,
            face_list := concat (map (\<lambda>f. case third_vertex a b f of
                                             None \<Rightarrow> [f]
                                           | Some c \<Rightarrow> [subst_vertex b w f, subst_vertex a w f])
                                      (face_list m))\<rparr>,
          w))"

text \<open>
  A mesh attribute is a function of the element index. When the mesh grows, the
  entries of the new elements hold the default value of the attribute.
\<close>

definition attribute_resize :: "nat \<Rightarrow> 'a \<Rightarrow> (nat \<Rightarrow> 'a) \<Rightarrow> nat \<Rightarrow> 'a" where
  "attribute_resize n d f = (\<lambda>i. if i < n then f i else d)"

section \<open>The embedding state\<close>

text \<open>
  The outcomes of a call that does not return normally: a failed \<^verbatim>\<open>LE_ASSERT\<close>, and
  a step whose behaviour the source leaves undefined (the use of a handle that is not
  an element of the mesh, an index outside a vector, a division of zero by zero).
\<close>

datatype error = AssertionFailed | UndefinedBehaviour

text \<open>\<^verbatim>\<open>tg::mix\<close>, linear interpolation of two points.\<close>

fun tg_mix :: "pos3 \<Rightarrow> pos3 \<Rightarrow> real \<Rightarrow> pos3" where
  "tg_mix (x0, y0, z0) (x1, y1, z1) t =
     ((1 - t) * x0 + t * x1, (1 - t) * y0 + t * y1, (1 - t) * z0 + t * z1)"

text \<open>
  The members of \<^verbatim>\<open>class Embedding\<close>. \<open>l_m\<close> is the layout mesh of the input, \<open>t_m\<close> the
  working copy of the target mesh; \<open>None\<close> is the invalid handle.
\<close>

record Embedding =
  l_m :: Mesh
  t_m :: Mesh
  t_pos :: "nat \<Rightarrow> pos3"
  l_matching_vertex :: "nat \<Rightarrow> nat option"
  t_matching_vertex :: "nat \<Rightarrow> nat option"
  t_matching_halfedge :: "nat \<Rightarrow> nat option"

text \<open>
  \<^verbatim>\<open>Embedding::Embedding(EmbeddingInput&)\<close>: the meshes and positions are copied,
  every layout vertex is pinned to the target vertex the input names, and no target
  halfedge carries a label.
\<close>

record EmbeddingInput =
  input_l_m :: Mesh
  input_t_m :: Mesh
  input_t_pos :: "nat \<Rightarrow> pos3"
  input_l_matching_vertex :: "nat \<Rightarrow> nat"

fun pin_vertices ::
  "(nat \<Rightarrow> nat) \<Rightarrow> nat list \<Rightarrow> (nat \<Rightarrow> nat option) \<times> (nat \<Rightarrow> nat option)
     \<Rightarrow> (nat \<Rightarrow> nat option) \<times> (nat \<Rightarrow> nat option)" where
  "pin_vertices f [] (lmv, tmv) = (lmv, tmv)"
| "pin_vertices f (l_v # l_vs) (lmv, tmv) =
     pin_vertices f l_vs (lmv(l_v := Some (f l_v)), tmv(f l_v := Some l_v))"

definition Embedding_init :: "EmbeddingInput \<Rightarrow> Embedding" where
  "Embedding_init inp =
     (let (lmv, tmv) = pin_vertices (input_l_matching_vertex inp)
                          [0..<n_vertices (input_l_m inp)] (\<lambda>_. None, \<lambda>_. None)
      in \<lparr>l_m = input_l_m inp, t_m = input_t_m inp, t_pos = input_t_pos inp,
          l_matching_vertex = lmv, t_matching_vertex = tmv,
          t_matching_halfedge = (\<lambda>_. None)\<rparr>)"

text \<open>
  \<^verbatim>\<open>Embedding::get_embedded_target_halfedge\<close>. The assertion that the handle belongs
  to the layout mesh is the range check of its index.
\<close>

definition get_embedded_target_halfedge :: "Embedding \<Rightarrow> nat \<Rightarrow> error + nat option" where
  "get_embedded_target_halfedge em l_he =
     (if \<not> l_he < n_halfedges (l_m em) then Inl AssertionFailed
      else case l_matching_vertex em (vertex_from (l_m em) l_he) of
             None \<Rightarrow> Inl AssertionFailed
           | Some t_v \<Rightarrow>
               Inr (find (\<lambda>t_h. t_matching_halfedge em t_h = Some l_he)
                         (outgoing_halfedges (t_m em) t_v)))"

definition is_embedded :: "Embedding \<Rightarrow> nat \<Rightarrow> error + bool" where
  "is_embedded em l_he =
     (case get_embedded_target_halfedge em l_he of
        Inl err \<Rightarrow> Inl err
      | Inr t_he \<Rightarrow> Inr (t_he \<noteq> None))"

definition is_embedded_edge :: "Embedding \<Rightarrow> nat \<Rightarrow> error + bool" where
  "is_embedded_edge em l_e = is_embedded em (halfedgeA l_e)"

text \<open>\<^verbatim>\<open>Embedding::is_complete\<close>: the loop over the layout edges.\<close>

fun is_complete_loop :: "Embedding \<Rightarrow> nat list \<Rightarrow> error + bool" where
  "is_complete_loop em [] = Inr True"
| "is_complete_loop em (l_e # l_es) =
     (case is_embedded_edge em l_e of
        Inl err \<Rightarrow> Inl err
      | Inr b \<Rightarrow> if \<not> b then Inr False else is_complete_loop em l_es)"

definition is_complete :: "Embedding \<Rightarrow> error + bool" where
  "is_complete em = is_complete_loop em [0..<n_edges (l_m em)]"

text \<open>
  \<^verbatim>\<open>Embedding::embed_path\<close>, first loop: every edge of the path is split at its
  midpoint and replaced by the new vertex.
\<close>

definition split_edge :: "Embedding \<Rightarrow> nat \<Rightarrow> Embedding \<times> nat" where
  "split_edge em t_e =
     (let p0 = t_pos em (vertexA (t_m em) t_e);
          p1 = t_pos em (vertexB (t_m em) t_e);
          p = tg_mix p0 p1 (1 / 2);
          (m', t_v_new) = split_and_triangulate (t_m em) t_e
      in (em\<lparr>t_m := m',
             t_pos := (attribute_resize (n_vertices (t_m em)) (0, 0, 0) (t_pos em))(t_v_new := p),
             t_matching_vertex :=
               attribute_resize (n_vertices (t_m em)) None (t_matching_vertex em),
             t_matching_halfedge :=
               attribute_resize (n_halfedges (t_m em)) None (t_matching_halfedge em)\<rparr>,
          t_v_new))"

fun split_path :: "Embedding \<Rightarrow> VirtualPath \<Rightarrow> error + Embedding \<times> nat list" where
  "split_path em [] = Inr (em, [])"
| "split_path em (Edge t_e # vvs) =
     (if \<not> t_e < n_edges (t_m em) then Inl UndefinedBehaviour
      else case split_edge em t_e of
             (em', t_v_new) \<Rightarrow>
               (case split_path em' vvs of
                  Inl err \<Rightarrow> Inl err
                | Inr (em'', vertex_path) \<Rightarrow> Inr (em'', t_v_new # vertex_path)))"
| "split_path em (Vertex t_v # vvs) =
     (case split_path em vvs of
        Inl err \<Rightarrow> Inl err
      | Inr (em', vertex_path) \<Rightarrow> Inr (em', t_v # vertex_path))"

text \<open>Second loop: the halfedges along the vertex path are marked.\<close>

fun mark_path :: "Embedding \<Rightarrow> nat \<Rightarrow> nat list \<Rightarrow> error + Embedding" where
  "mark_path em l_he (v_i # v_j # vs) =
     (case halfedge_from_to (t_m em) v_i v_j of
        None \<Rightarrow> Inl AssertionFailed
      | Some t_he \<Rightarrow>
          mark_path
            (em\<lparr>t_matching_halfedge :=
                  (t_matching_halfedge em)
                    (t_he := Some l_he, opposite t_he := Some (opposite l_he))\<rparr>)
            l_he (v_j # vs))"
| "mark_path em l_he vs = Inr em"

definition embed_path :: "Embedding \<Rightarrow> nat \<Rightarrow> VirtualPath \<Rightarrow> error + Embedding" where
  "embed_path em l_he path =
     (case get_embedded_target_halfedge em l_he of
        Inl err \<Rightarrow> Inl err
      | Inr (Some t_he) \<Rightarrow> Inl AssertionFailed
      | Inr None \<Rightarrow>
          if \<not> 2 \<le> length path then Inl AssertionFailed
          else case split_path em path of
                 Inl err \<Rightarrow> Inl err
               | Inr (em', vertex_path) \<Rightarrow> mark_path em' l_he vertex_path)"

text \<open>
  \<^verbatim>\<open>Embedding::get_embedded_path\<close>. The \<^verbatim>\<open>while\<close> loop follows the labels from vertex
  to vertex; where no halfedge leaving the current vertex carries the label, the vertex
  stays the same and the loop never ends: the value is then \<open>None\<close>.
\<close>

partial_function (option) get_embedded_path_loop ::
  "Embedding \<Rightarrow> nat \<Rightarrow> nat option \<Rightarrow> nat \<Rightarrow> nat list \<Rightarrow> nat list option" where
  "get_embedded_path_loop em l_he t_v_end t_v result =
     (if Some t_v \<noteq> t_v_end then
        get_embedded_path_loop em l_he t_v_end
          (case find (\<lambda>t_he. t_matching_halfedge em t_he = Some l_he)
                     (outgoing_halfedges (t_m em) t_v) of
             None \<Rightarrow> t_v
           | Some t_he \<Rightarrow> vertex_to (t_m em) t_he)
          (result @ [t_v])
      else Some (result @ [t_v]))"

declare get_embedded_path_loop.simps [code]

definition get_embedded_path :: "Embedding \<Rightarrow> nat \<Rightarrow> (error + nat list) option" where
  "get_embedded_path em l_he =
     (case get_embedded_target_halfedge em l_he of
        Inl err \<Rightarrow> Some (Inl err)
      | Inr None \<Rightarrow> Some (Inl AssertionFailed)
      | Inr (Some t_he) \<Rightarrow>
          map_option Inr
            (get_embedded_path_loop em l_he
               (l_matching_vertex em (vertex_to (l_m em) l_he))
               (vertex_from (t_m em) t_he) []))"

text \<open>\<^verbatim>\<open>Embedding::unembed_path\<close>: the labels along the embedded path are removed.\<close>

fun unmark_path :: "Embedding \<Rightarrow> nat \<Rightarrow> nat list \<Rightarrow> error + Embedding" where
  "unmark_path em l_he (t_v_i # t_v_j # vs) =
     (case halfedge_from_to (t_m em) t_v_i t_v_j of
        None \<Rightarrow> Inl AssertionFailed
      | Some t_he \<Rightarrow>
          if t_matching_halfedge em t_he \<noteq> Some l_he then Inl AssertionFailed
          else if t_matching_halfedge em (opposite t_he) \<noteq> Some (opposite l_he)
          then Inl AssertionFailed
          else unmark_path
                 (em\<lparr>t_matching_halfedge :=
                       (t_matching_halfedge em)(t_he := None, opposite t_he := None)\<rparr>)
                 l_he (t_v_j # vs))"
| "unmark_path em l_he vs = Inr em"

definition unembed_path :: "Embedding \<Rightarrow> nat \<Rightarrow> (error + Embedding) option" where
  "unembed_path em l_he =
     (case get_embedded_path em l_he of
        None \<Rightarrow> None
      | Some (Inl err) \<Rightarrow> Some (Inl err)
      | Some (Inr path) \<Rightarrow> Some (unmark_path em l_he path))"

section \<open>Invariants of the embedding state\<close>

text \<open>
  The labels are opposite-symmetric when a target halfedge carries a layout halfedge
  exactly if its opposite carries the opposite layout halfedge.
\<close>

definition labels_symmetric :: "Embedding \<Rightarrow> bool" where
  "labels_symmetric em \<longleftrightarrow>
     (\<forall>t l_he. t_matching_halfedge em t = Some l_he
              \<longleftrightarrow> t_matching_halfedge em (opposite t) = Some (opposite l_he))"

text \<open>The target halfedges between the consecutive vertices of a vertex chain.\<close>

fun chain_halfedges :: "Mesh \<Rightarrow> nat list \<Rightarrow> nat option list" where
  "chain_halfedges m (v_i # v_j # vs) = halfedge_from_to m v_i v_j # chain_halfedges m (v_j # vs)"
| "chain_halfedges m vs = []"

text \<open>
  The invariant of the data model for an embedded layout halfedge \<open>l_he\<close>: the target
  halfedges that carry \<open>l_he\<close> are exactly the halfedges of one simple chain \<open>vs\<close> of
  target vertices that runs from the vertex matched to the source of \<open>l_he\<close> to the
  vertex matched to its destination, and their opposites carry the opposite of \<open>l_he\<close>.
\<close>

definition labelled_chain :: "Embedding \<Rightarrow> nat \<Rightarrow> nat list \<Rightarrow> bool" where
  "labelled_chain em l_he vs \<longleftrightarrow>
     2 \<le> length vs \<and> distinct vs \<and> l_he < n_halfedges (l_m em) \<and>
     l_matching_vertex em (vertex_from (l_m em) l_he) = Some (hd vs) \<and>
     l_matching_vertex em (vertex_to (l_m em) l_he) = Some (last vs) \<and>
     list_all (\<lambda>x. case x of
                     None \<Rightarrow> False
                   | Some t \<Rightarrow> t_matching_halfedge em t = Some l_he \<and>
                              t_matching_halfedge em (opposite t) = Some (opposite l_he))
              (chain_halfedges (t_m em) vs) \<and>
     list_all (\<lambda>t. t_matching_halfedge em t = Some l_he
                     \<longrightarrow> Some t \<in> set (chain_halfedges (t_m em) vs))
              [0..<n_halfedges (t_m em)]"

text \<open>
  The states that a sequence of \<^verbatim>\<open>embed_path\<close> and \<^verbatim>\<open>unembed_path\<close> calls reaches
  from the freshly constructed state, every call returning normally.
\<close>

inductive reachable :: "EmbeddingInput \<Rightarrow> Embedding \<Rightarrow> bool" for inp where
  init: "reachable inp (Embedding_init inp)"
| embed: "reachable inp em \<Longrightarrow> embed_path em l_he path = Inr em' \<Longrightarrow> reachable inp em'"
| unembed: "reachable inp em \<Longrightarrow> unembed_path em l_he = Some (Inr em') \<Longrightarrow> reachable inp em'"

text \<open>
  The label attribute after the halfedges \<open>C\<close> of a chain were marked with \<open>h\<close>, and
  after they were cleared.
\<close>

definition marked_labels ::
  "(nat \<Rightarrow> nat option) \<Rightarrow> nat \<Rightarrow> nat option list \<Rightarrow> nat \<Rightarrow> nat option" where
  "marked_labels f h C = (\<lambda>t. if Some t \<in> set C then Some h
                               else if Some (opposite t) \<in> set C then Some (opposite h)
                               else f t)"

definition unmarked_labels ::
  "(nat \<Rightarrow> nat option) \<Rightarrow> nat option list \<Rightarrow> nat \<Rightarrow> nat option" where
  "unmarked_labels f C = (\<lambda>t. if Some t \<in> set C \<or> Some (opposite t) \<in> set C then None else f t)"

text \<open>One round of the loop of \<^verbatim>\<open>get_embedded_path\<close>: the next vertex.\<close>

definition label_step :: "Embedding \<Rightarrow> nat \<Rightarrow> nat \<Rightarrow> nat" where
  "label_step em l_he t_v =
     (case find (\<lambda>t_he. t_matching_halfedge em t_he = Some l_he)
                (outgoing_halfedges (t_m em) t_v) of
        None \<Rightarrow> t_v
      | Some t_he \<Rightarrow> vertex_to (t_m em) t_he)"


text \<open>
  The embeddings that the solvers build. The ends of every target edge and the corners
  of every triangle are vertices of the mesh. A call of \<^verbatim>\<open>embed_path\<close> is proper when
  the layout edge carries no label yet, the path runs from the landmark of the layout
  halfedge to the opposite landmark, every edge it crosses is unblocked when it is
  split, and the vertex chain that results is simple and runs over target halfedges
  that carry no label in either direction: what the search guarantees for the paths
  it returns.
\<close>

definition mesh_ok :: "Mesh \<Rightarrow> bool" where
  "mesh_ok m \<longleftrightarrow>
     list_all (\<lambda>(a, b). a < n_vertices m \<and> b < n_vertices m) (edge_list m) \<and>
     list_all (\<lambda>(x, y, z). x < n_vertices m \<and> y < n_vertices m \<and> z < n_vertices m) (face_list m)"

definition edge_unlabelled :: "Embedding \<Rightarrow> nat \<Rightarrow> bool" where
  "edge_unlabelled em l_e \<longleftrightarrow>
     list_all (\<lambda>t. t_matching_halfedge em t \<noteq> Some (halfedgeA l_e) \<and>
                    t_matching_halfedge em t \<noteq> Some (halfedgeB l_e))
              [0..<n_halfedges (t_m em)]"

fun path_unblocked :: "Embedding \<Rightarrow> VirtualPath \<Rightarrow> bool" where
  "path_unblocked em [] = True"
| "path_unblocked em (Vertex t_v # vvs) = path_unblocked em vvs"
| "path_unblocked em (Edge t_e # vvs) =
     (t_matching_halfedge em (halfedgeA t_e) = None \<and>
      t_matching_halfedge em (halfedgeB t_e) = None \<and>
      path_unblocked (fst (split_edge em t_e)) vvs)"

definition proper_call :: "Embedding \<Rightarrow> nat \<Rightarrow> VirtualPath \<Rightarrow> bool" where
  "proper_call em l_he path \<longleftrightarrow>
     l_he < n_halfedges (l_m em) \<and> edge_unlabelled em (l_he div 2) \<and> 2 \<le> length path \<and>
     (case hd path of
        Vertex t_v \<Rightarrow> l_matching_vertex em (vertex_from (l_m em) l_he) = Some t_v
      | Edge t_e \<Rightarrow> False) \<and>
     (case last path of
        Vertex t_v \<Rightarrow> l_matching_vertex em (vertex_to (l_m em) l_he) = Some t_v
      | Edge t_e \<Rightarrow> False) \<and>
     path_unblocked em path \<and>
     (case split_path em path of
        Inl err \<Rightarrow> False
      | Inr (em1, vertex_path) \<Rightarrow>
          distinct vertex_path \<and>
          list_all (\<lambda>x. case x of
                          None \<Rightarrow> False
                        | Some t \<Rightarrow> t_matching_halfedge em1 t = None \<and>
                                   t_matching_halfedge em1 (opposite t) = None)
                   (chain_halfedges (t_m em1) vertex_path))"

inductive built :: "EmbeddingInput \<Rightarrow> Embedding \<Rightarrow> bool" for inp where
  fresh: "built inp (Embedding_init inp)"
| embedded: "built inp em \<Longrightarrow> proper_call em l_he path \<Longrightarrow> embed_path em l_he path = Inr em'
             \<Longrightarrow> built inp em'"

text \<open>
  What holds in every such embedding: each layout edge either carries no label, or the
  target halfedges that carry one of its two halfedges form the chain of that halfedge.
\<close>

definition chains_inv :: "Embedding \<Rightarrow> bool" where
  "chains_inv em \<longleftrightarrow>
     mesh_ok (t_m em) \<and> labels_symmetric em \<and>
     (\<forall>l_e < n_edges (l_m em).
        edge_unlabelled em l_e \<or> (\<exists>vs. labelled_chain em (halfedgeA l_e) vs) \<or>
        (\<exists>vs. labelled_chain em (halfedgeB l_e) vs))"
section \<open>A small instance\<close>

text \<open>
  Two triangles \<open>(0, 1, 2)\<close> and \<open>(1, 0, 3)\<close> that share edge \<open>0\<close>, between the vertices
  \<open>0\<close> and \<open>1\<close>. The layout is a single edge whose halfedge \<open>0\<close> runs from layout
  vertex \<open>0\<close> to layout vertex \<open>1\<close>; these are pinned to the target vertices \<open>2\<close> and
  \<open>3\<close>, which face each other across the shared edge. The four target vertices are the
  corners of the unit square in the plane \<open>z = 0\<close>, and the shared edge its diagonal.
\<close>

definition ex_target :: Mesh where
  "ex_target = \<lparr>n_vertices = 4, edge_list = [(0, 1), (1, 2), (2, 0), (0, 3), (3, 1)],
                 face_list = [(0, 1, 2), (1, 0, 3)]\<rparr>"

definition ex_layout :: Mesh where
  "ex_layout = \<lparr>n_vertices = 2, edge_list = [(1, 0)], face_list = []\<rparr>"

definition ex_input :: EmbeddingInput where
  "ex_input = \<lparr>input_l_m = ex_layout, input_t_m = ex_target,
                input_t_pos = (\<lambda>v. [(0, 0, 0), (1, 1, 0), (0, 1, 0), (1, 0, 0)] ! v),
                input_l_matching_vertex = (\<lambda>l_v. l_v + 2)\<rparr>"

definition ex_em :: Embedding where
  "ex_em = Embedding_init ex_input"

text \<open>The path from vertex \<open>2\<close> across the midpoint of edge \<open>0\<close> to vertex \<open>3\<close>.\<close>

definition ex_path :: VirtualPath where
  "ex_path = [Vertex 2, Edge 0, Vertex 3]"

definition ex_em_embedded :: Embedding where
  "ex_em_embedded = (case embed_path ex_em 0 ex_path of Inr em \<Rightarrow> em | Inl err \<Rightarrow> ex_em)"


text \<open>
  The instance after the opposite layout halfedge \<open>1\<close> was embedded along the path
  \<open>3, 0, 2, 1, 2\<close>, which returns to its end landmark, and after it was unembedded.
\<close>

definition ex_em_detour :: Embedding where
  "ex_em_detour =
     (case embed_path ex_em 1 [Vertex 3, Vertex 0, Vertex 2, Vertex 1, Vertex 2] of
        Inr em \<Rightarrow> em
      | Inl err \<Rightarrow> ex_em)"

definition ex_em_stray :: Embedding where
  "ex_em_stray = (case unembed_path ex_em_detour 1 of Some (Inr em) \<Rightarrow> em | _ \<Rightarrow> ex_em)"
section \<open>Path lengths\<close>

text \<open>
  \<^verbatim>\<open>tg::distance\<close> and \<^verbatim>\<open>tg::centroid\<close> of two points, and \<^verbatim>\<open>std::pow\<close> on a
  non-negative base.
\<close>

fun tg_distance :: "pos3 \<Rightarrow> pos3 \<Rightarrow> real" where
  "tg_distance (x0, y0, z0) (x1, y1, z1) = sqrt ((x0 - x1)\<^sup>2 + (y0 - y1)\<^sup>2 + (z0 - z1)\<^sup>2)"

fun tg_centroid :: "pos3 \<Rightarrow> pos3 \<Rightarrow> pos3" where
  "tg_centroid (x0, y0, z0) (x1, y1, z1) = ((x0 + x1) / 2, (y0 + y1) / 2, (z0 + z1) / 2)"

definition std_pow :: "real \<Rightarrow> real \<Rightarrow> real" where
  "std_pow x y = (if y = 0 then 1 else x powr y)"

text \<open>
  Square roots and powers of reals are not computed when a term is evaluated. The
  equations below replace the defining ones there: they give the distance of two points
  that differ in one coordinate only, and the power with exponent 0 or 1 of a
  non-negative base; everything else stays symbolic.
\<close>

definition symbolic_distance :: "pos3 \<Rightarrow> pos3 \<Rightarrow> real" where
  "symbolic_distance a b = tg_distance a b"

definition symbolic_pow :: "real \<Rightarrow> real \<Rightarrow> real" where
  "symbolic_pow x y = std_pow x y"

declare tg_distance.simps [code del]

declare std_pow_def [code del]

declare symbolic_distance_def [code del]

declare symbolic_pow_def [code del]

lemma tg_distance_axis [code]:
  "tg_distance (x0, y0, z0) (x1, y1, z1) =
     (if y0 = y1 \<and> z0 = z1 then \<bar>x0 - x1\<bar>
      else if x0 = x1 \<and> z0 = z1 then \<bar>y0 - y1\<bar>
      else if x0 = x1 \<and> y0 = y1 then \<bar>z0 - z1\<bar>
      else symbolic_distance (x0, y0, z0) (x1, y1, z1))"
  by (simp add: symbolic_distance_def)

lemma std_pow_simple [code]:
  "std_pow x y =
     (if y = 0 then 1 else if y = 1 \<and> 0 \<le> x then x else symbolic_pow x y)"
  by (simp add: symbolic_pow_def std_pow_def)

text \<open>
  \<^verbatim>\<open>Embedding::element_pos\<close>. The assertion that the handle belongs to the target mesh
  is the range check of its index.
\<close>

fun element_pos :: "Embedding \<Rightarrow> VirtualVertex \<Rightarrow> error + pos3" where
  "element_pos em (Vertex t_v) =
     (if \<not> t_v < n_vertices (t_m em) then Inl AssertionFailed else Inr (t_pos em t_v))"
| "element_pos em (Edge t_e) =
     (if \<not> t_e < n_edges (t_m em) then Inl AssertionFailed
      else Inr (tg_centroid (t_pos em (vertexA (t_m em) t_e)) (t_pos em (vertexB (t_m em) t_e))))"

text \<open>
  \<^verbatim>\<open>Embedding::path_length\<close>. The exponent \<^verbatim>\<open>path_length_norm\<close> is declared outside the
  sources and is a parameter.
\<close>

fun path_length_loop :: "Embedding \<Rightarrow> VirtualPath \<Rightarrow> real \<Rightarrow> error + real" where
  "path_length_loop em (vv_i # vv_j # vvs) len =
     (case element_pos em vv_i of
        Inl err \<Rightarrow> Inl err
      | Inr p_i \<Rightarrow>
          (case element_pos em vv_j of
             Inl err \<Rightarrow> Inl err
           | Inr p_j \<Rightarrow> path_length_loop em (vv_j # vvs) (len + tg_distance p_i p_j)))"
| "path_length_loop em vvs len = Inr len"

definition path_length :: "real \<Rightarrow> Embedding \<Rightarrow> VirtualPath \<Rightarrow> error + real" where
  "path_length path_length_norm em path =
     (if \<not> 2 \<le> length path then Inl AssertionFailed
      else case path_length_loop em path 0 of
             Inl err \<Rightarrow> Inl err
           | Inr len \<Rightarrow> Inr (std_pow len path_length_norm))"

text \<open>\<^verbatim>\<open>Embedding::embedded_path_length\<close> and \<^verbatim>\<open>Embedding::total_embedded_path_length\<close>.\<close>

fun vertex_path_length :: "Embedding \<Rightarrow> nat list \<Rightarrow> real \<Rightarrow> real" where
  "vertex_path_length em (v_i # v_j # vs) len =
     vertex_path_length em (v_j # vs) (len + tg_distance (t_pos em v_i) (t_pos em v_j))"
| "vertex_path_length em vs len = len"

definition embedded_path_length :: "real \<Rightarrow> Embedding \<Rightarrow> nat \<Rightarrow> (error + real) option" where
  "embedded_path_length path_length_norm em l_he =
     (case is_embedded em l_he of
        Inl err \<Rightarrow> Some (Inl err)
      | Inr b \<Rightarrow>
          if \<not> b then Some (Inl AssertionFailed)
          else case get_embedded_path em l_he of
                 None \<Rightarrow> None
               | Some (Inl err) \<Rightarrow> Some (Inl err)
               | Some (Inr path) \<Rightarrow>
                   if \<not> 2 \<le> length path then Some (Inl AssertionFailed)
                   else Some (Inr (std_pow (vertex_path_length em path 0) path_length_norm)))"

fun total_embedded_path_length_loop ::
  "real \<Rightarrow> Embedding \<Rightarrow> nat list \<Rightarrow> real \<Rightarrow> (error + real) option" where
  "total_embedded_path_length_loop path_length_norm em [] total_length = Some (Inr total_length)"
| "total_embedded_path_length_loop path_length_norm em (l_e # l_es) total_length =
     (case is_embedded_edge em l_e of
        Inl err \<Rightarrow> Some (Inl err)
      | Inr b \<Rightarrow>
          if b then
            (case embedded_path_length path_length_norm em (halfedgeA l_e) of
               None \<Rightarrow> None
             | Some (Inl err) \<Rightarrow> Some (Inl err)
             | Some (Inr len) \<Rightarrow>
                 total_embedded_path_length_loop path_length_norm em l_es (total_length + len))
          else total_embedded_path_length_loop path_length_norm em l_es total_length)"

definition total_embedded_path_length :: "real \<Rightarrow> Embedding \<Rightarrow> (error + real) option" where
  "total_embedded_path_length path_length_norm em =
     total_embedded_path_length_loop path_length_norm em [0..<n_edges (l_m em)] 0"

section \<open>The greedy solver\<close>

text \<open>
  The settings and the result of the solver are declared outside the sources; the
  records hold the members that \<^verbatim>\<open>embed_greedy\<close> reads and writes.
\<close>

datatype InsertionOrder = BestFirst | Arbitrary

record GreedySettings =
  insertion_order :: InsertionOrder
  use_swirl_detection :: bool
  swirl_penalty_factor :: real
  use_vertex_repulsive_tracing :: bool
  prefer_extremal_vertices :: bool
  extremal_vertex_ratio :: real

record GreedyResult =
  insertion_sequence :: "nat option list"

datatype ShortestPathMetric = Geodesic | VertexRepulsive

text \<open>
  Modelled from the spec: \<^verbatim>\<open>UnionFind\<close> is not part of the sources. It is the
  union-find structure over the layout vertices: every vertex has a representative,
  two vertices are equivalent when their representatives are equal, and merging two
  vertices joins their classes.
\<close>

type_synonym UnionFind = "nat \<Rightarrow> nat"

definition UnionFind_init :: "nat \<Rightarrow> UnionFind" where
  "UnionFind_init n = (\<lambda>x. x)"

definition equivalent :: "UnionFind \<Rightarrow> nat \<Rightarrow> nat \<Rightarrow> bool" where
  "equivalent uf a b = (uf a = uf b)"

definition merge :: "UnionFind \<Rightarrow> nat \<Rightarrow> nat \<Rightarrow> UnionFind" where
  "merge uf a b = (\<lambda>x. if uf x = uf a then uf b else uf x)"

text \<open>
  The searches that \<^verbatim>\<open>embed_greedy\<close> calls take a metric, an overload that the search
  of the sources does not define, and \<^verbatim>\<open>swirl_detection_bidirectional\<close> reads the
  rotation system of the target mesh through \<^verbatim>\<open>VirtualPort\<close>, which is not part of
  the sources. Both are parameters of the solver: \<open>fsp em l_he metric\<close> is the path
  that the search returns, or the failure it stops with, and \<open>swirl em l_he path\<close> the
  verdict of the swirl test.
\<close>

type_synonym search = "Embedding \<Rightarrow> nat \<Rightarrow> ShortestPathMetric \<Rightarrow> error + VirtualPath"

type_synonym swirl_test = "Embedding \<Rightarrow> nat \<Rightarrow> VirtualPath \<Rightarrow> bool"

text \<open>
  The average distance of a layout vertex to its neighbours: the loop over its outgoing
  halfedges, and the division, which is undefined for a vertex without halfedges.
\<close>

fun neighbor_distance_loop ::
  "search \<Rightarrow> real \<Rightarrow> Embedding \<Rightarrow> nat list \<Rightarrow> real \<times> int \<Rightarrow> error + real \<times> int" where
  "neighbor_distance_loop fsp pnorm em [] (total_distance, valence) = Inr (total_distance, valence)"
| "neighbor_distance_loop fsp pnorm em (l_he # l_hes) (total_distance, valence) =
     (case fsp em l_he Geodesic of
        Inl err \<Rightarrow> Inl err
      | Inr path \<Rightarrow>
          (case path_length pnorm em path of
             Inl err \<Rightarrow> Inl err
           | Inr len \<Rightarrow>
               neighbor_distance_loop fsp pnorm em l_hes (total_distance + len, valence + 1)))"

fun avg_neighbor_distance_loop ::
  "search \<Rightarrow> real \<Rightarrow> Embedding \<Rightarrow> nat list \<Rightarrow> (nat \<Rightarrow> real) \<Rightarrow> error + (nat \<Rightarrow> real)" where
  "avg_neighbor_distance_loop fsp pnorm em [] l_avg = Inr l_avg"
| "avg_neighbor_distance_loop fsp pnorm em (l_v # l_vs) l_avg =
     (case neighbor_distance_loop fsp pnorm em (outgoing_halfedges (l_m em) l_v) (0, 0) of
        Inl err \<Rightarrow> Inl err
      | Inr (total_distance, valence) \<Rightarrow>
          if valence = 0 then Inl UndefinedBehaviour
          else avg_neighbor_distance_loop fsp pnorm em l_vs
                 (l_avg(l_v := total_distance / real_of_int valence)))"

text \<open>
  The block of \<^verbatim>\<open>embed_greedy\<close> that marks the extremal vertices. The vertices are
  sorted by decreasing average distance; the cutoff is the average of the vertex at
  position \<^verbatim>\<open>size * extremal_vertex_ratio\<close>, which has to lie inside the vector.
\<close>

definition extremal_vertices :: "search \<Rightarrow> real \<Rightarrow> Embedding \<Rightarrow> GreedySettings \<Rightarrow> error + (nat \<Rightarrow> bool)" where
  "extremal_vertices fsp pnorm em settings =
     (if \<not> prefer_extremal_vertices settings then Inr (\<lambda>l_v. False)
      else case avg_neighbor_distance_loop fsp pnorm em [0..<n_vertices (l_m em)] (\<lambda>l_v. 0) of
             Inl err \<Rightarrow> Inl err
           | Inr l_avg \<Rightarrow>
               (let sorted_vertices = sort_key (\<lambda>l_v. - l_avg l_v) [0..<n_vertices (l_m em)];
                    position = real (length sorted_vertices) * extremal_vertex_ratio settings
                in if position < 0 \<or> \<not> nat \<lfloor>position\<rfloor> < length sorted_vertices
                   then Inl UndefinedBehaviour
                   else let cutoff = l_avg (sorted_vertices ! nat \<lfloor>position\<rfloor>)
                        in Inr (\<lambda>l_v. l_v < n_vertices (l_m em) \<and> cutoff < l_avg l_v)))"

definition incident_to_extremal_vertex :: "Embedding \<Rightarrow> (nat \<Rightarrow> bool) \<Rightarrow> nat option \<Rightarrow> bool" where
  "incident_to_extremal_vertex em l_extremal_vertex l_e =
     (case l_e of
        None \<Rightarrow> False
      | Some e \<Rightarrow> l_extremal_vertex (vertexA (l_m em) e) \<and> l_extremal_vertex (vertexB (l_m em) e))"

text \<open>
  The variables of \<^verbatim>\<open>embed_greedy\<close> that live across the rounds of its \<^verbatim>\<open>while\<close> loop,
  and the three that one round of the loop selects.
\<close>

record greedy_state =
  g_em :: Embedding
  g_result :: GreedyResult
  l_is_embedded :: "nat \<Rightarrow> bool"
  l_num_embedded_edges :: int
  l_v_components :: UnionFind

record best_choice =
  best_path :: VirtualPath
  best_path_cost :: double
  best_l_e :: "nat option"

definition best_choice_init :: best_choice where
  "best_choice_init = \<lparr>best_path = [], best_path_cost = PInf, best_l_e = None\<rparr>"

text \<open>\<^verbatim>\<open>std::tie(a1, a2) < std::tie(b1, b2)\<close> on an integer and a double.\<close>

definition tie_less :: "int \<times> double \<Rightarrow> int \<times> double \<Rightarrow> bool" where
  "tie_less a b = (fst a < fst b \<or> (\<not> fst b < fst a \<and> d_less (snd a) (snd b)))"

text \<open>
  The \<^verbatim>\<open>for\<close> loop over the layout edges in one round: an edge is passed over when it
  is embedded, when the best edge so far joins extremal vertices and it does not, and,
  before the spanning tree is complete, when its endpoints are in one component.
\<close>

fun greedy_scan ::
  "search \<Rightarrow> swirl_test \<Rightarrow> real \<Rightarrow> GreedySettings \<Rightarrow> (nat \<Rightarrow> bool) \<Rightarrow> bool \<Rightarrow> greedy_state
     \<Rightarrow> nat list \<Rightarrow> best_choice \<Rightarrow> error + best_choice" where
  "greedy_scan fsp swirl pnorm settings l_extremal_vertex is_spanning_tree st [] best = Inr best"
| "greedy_scan fsp swirl pnorm settings l_extremal_vertex is_spanning_tree st (l_e # l_es) best =
     (if l_is_embedded st l_e
      then greedy_scan fsp swirl pnorm settings l_extremal_vertex is_spanning_tree st l_es best
      else if incident_to_extremal_vertex (g_em st) l_extremal_vertex (best_l_e best) \<and>
              \<not> incident_to_extremal_vertex (g_em st) l_extremal_vertex (Some l_e)
      then greedy_scan fsp swirl pnorm settings l_extremal_vertex is_spanning_tree st l_es best
      else if \<not> is_spanning_tree \<and>
              equivalent (l_v_components st) (vertexA (l_m (g_em st)) l_e) (vertexB (l_m (g_em st)) l_e)
      then greedy_scan fsp swirl pnorm settings l_extremal_vertex is_spanning_tree st l_es best
      else
        (case fsp (g_em st) (halfedgeA l_e)
                (if use_vertex_repulsive_tracing settings then VertexRepulsive else Geodesic) of
           Inl err \<Rightarrow> Inl err
         | Inr path \<Rightarrow>
             (case path_length pnorm (g_em st) path of
                Inl err \<Rightarrow> Inl err
              | Inr path_cost \<Rightarrow>
                  if insertion_order settings = Arbitrary
                  then Inr \<lparr>best_path = path, best_path_cost = Fin path_cost, best_l_e = Some l_e\<rparr>
                  else
                    (let path_cost' =
                           (if use_swirl_detection settings \<and>
                               d_less (Fin path_cost) (best_path_cost best) \<and>
                               swirl (g_em st) (halfedgeA l_e) path
                            then path_cost * swirl_penalty_factor settings else path_cost);
                         extremal_priority =
                           1 - of_bool (incident_to_extremal_vertex (g_em st) l_extremal_vertex (Some l_e));
                         best_extremal_priority =
                           1 - of_bool (incident_to_extremal_vertex (g_em st) l_extremal_vertex (best_l_e best))
                     in if tie_less (extremal_priority, Fin path_cost')
                                    (best_extremal_priority, best_path_cost best)
                        then greedy_scan fsp swirl pnorm settings l_extremal_vertex is_spanning_tree st l_es
                               \<lparr>best_path = path, best_path_cost = Fin path_cost', best_l_e = Some l_e\<rparr>
                        else greedy_scan fsp swirl pnorm settings l_extremal_vertex is_spanning_tree st l_es
                               best))))"

text \<open>
  One round of the \<^verbatim>\<open>while\<close> loop: the scan, and the insertion of the edge it
  selected. When no edge was selected, \<^verbatim>\<open>best_l_e\<close> is the invalid handle and taking
  its halfedge is undefined.
\<close>

definition greedy_round ::
  "search \<Rightarrow> swirl_test \<Rightarrow> real \<Rightarrow> GreedySettings \<Rightarrow> (nat \<Rightarrow> bool) \<Rightarrow> greedy_state
     \<Rightarrow> error + greedy_state" where
  "greedy_round fsp swirl pnorm settings l_extremal_vertex st =
     (case greedy_scan fsp swirl pnorm settings l_extremal_vertex
             (int (n_vertices (l_m (g_em st))) - 1 \<le> l_num_embedded_edges st) st
             [0..<n_edges (l_m (g_em st))] best_choice_init of
        Inl err \<Rightarrow> Inl err
      | Inr best \<Rightarrow>
          (case best_l_e best of
             None \<Rightarrow> Inl UndefinedBehaviour
           | Some l_e \<Rightarrow>
               (case embed_path (g_em st) (halfedgeA l_e) (best_path best) of
                  Inl err \<Rightarrow> Inl err
                | Inr em' \<Rightarrow>
                    Inr \<lparr>g_em = em',
                        g_result = \<lparr>insertion_sequence =
                                      insertion_sequence (g_result st) @ [Some l_e]\<rparr>,
                        l_is_embedded = (l_is_embedded st)(l_e := True),
                        l_num_embedded_edges = l_num_embedded_edges st + 1,
                        l_v_components =
                          merge (l_v_components st) (vertexA (l_m (g_em st)) l_e)
                                (vertexB (l_m (g_em st)) l_e)\<rparr>)))"

function embed_greedy_loop ::
  "search \<Rightarrow> swirl_test \<Rightarrow> real \<Rightarrow> GreedySettings \<Rightarrow> (nat \<Rightarrow> bool) \<Rightarrow> int \<Rightarrow> greedy_state
     \<Rightarrow> error + greedy_state" where
  "embed_greedy_loop fsp swirl pnorm settings l_extremal_vertex l_num_edges st =
     (if l_num_embedded_edges st < l_num_edges then
        (case greedy_round fsp swirl pnorm settings l_extremal_vertex st of
           Inl err \<Rightarrow> Inl err
         | Inr st' \<Rightarrow>
             embed_greedy_loop fsp swirl pnorm settings l_extremal_vertex l_num_edges st')
      else Inr st)"
  by pat_completeness auto

lemma greedy_round_counts:
  assumes "greedy_round fsp swirl pnorm settings l_extremal_vertex st = Inr st'"
  shows "l_num_embedded_edges st' = l_num_embedded_edges st + 1"
  using assms unfolding greedy_round_def
  by (auto split: sum.splits option.splits)

termination embed_greedy_loop
proof (relation "measure (\<lambda>(fsp, swirl, pnorm, settings, l_extremal_vertex, l_num_edges, st).
                            nat (l_num_edges - l_num_embedded_edges st))")
  show "wf (measure (\<lambda>(fsp, swirl, pnorm, settings, l_extremal_vertex, l_num_edges, st).
                            nat (l_num_edges - l_num_embedded_edges st)))"
    by simp
next
  fix fsp :: search and swirl :: swirl_test and pnorm :: real and settings :: GreedySettings
    and l_extremal_vertex :: "nat \<Rightarrow> bool" and l_num_edges :: int and st st' :: greedy_state
  assume "l_num_embedded_edges st < l_num_edges"
    and "greedy_round fsp swirl pnorm settings l_extremal_vertex st = Inr st'"
  then show "((fsp, swirl, pnorm, settings, l_extremal_vertex, l_num_edges, st'),
              (fsp, swirl, pnorm, settings, l_extremal_vertex, l_num_edges, st))
             \<in> measure (\<lambda>(fsp, swirl, pnorm, settings, l_extremal_vertex, l_num_edges, st).
                            nat (l_num_edges - l_num_embedded_edges st))"
    using greedy_round_counts[of fsp swirl pnorm settings l_extremal_vertex st st'] by simp
qed

declare embed_greedy_loop.simps [simp del]

text \<open>\<^verbatim>\<open>embed_greedy\<close>: the result and the embedding as the solver leaves it.\<close>

definition greedy_state_init :: "Embedding \<Rightarrow> greedy_state" where
  "greedy_state_init em =
     \<lparr>g_em = em, g_result = \<lparr>insertion_sequence = []\<rparr>, l_is_embedded = (\<lambda>l_e. False),
      l_num_embedded_edges = 0, l_v_components = UnionFind_init (n_vertices (l_m em))\<rparr>"

definition embed_greedy ::
  "search \<Rightarrow> swirl_test \<Rightarrow> real \<Rightarrow> Embedding \<Rightarrow> GreedySettings \<Rightarrow> error + GreedyResult \<times> Embedding" where
  "embed_greedy fsp swirl pnorm em settings =
     (case extremal_vertices fsp pnorm em settings of
        Inl err \<Rightarrow> Inl err
      | Inr l_extremal_vertex \<Rightarrow>
          (case embed_greedy_loop fsp swirl pnorm settings l_extremal_vertex
                  (int (n_edges (l_m em))) (greedy_state_init em) of
             Inl err \<Rightarrow> Inl err
           | Inr st \<Rightarrow> Inr (g_result st, g_em st)))"

text \<open>
  \<^verbatim>\<open>Embedding::Embedding(const Embedding&)\<close>: the meshes and the positions are copied,
  and the three matchings element by element.
\<close>

definition Embedding_copy :: "Embedding \<Rightarrow> Embedding" where
  "Embedding_copy em =
     \<lparr>l_m = l_m em, t_m = t_m em, t_pos = t_pos em,
      l_matching_vertex = attribute_resize (n_vertices (l_m em)) None (l_matching_vertex em),
      t_matching_vertex = attribute_resize (n_vertices (t_m em)) None (t_matching_vertex em),
      t_matching_halfedge = attribute_resize (n_halfedges (t_m em)) None (t_matching_halfedge em)\<rparr>"

text \<open>
  \<^verbatim>\<open>embed_greedy_brute_force\<close>. The first loop builds the eight settings, the second
  runs the solver for each of them on a copy of the embedding and records cost and
  result, the third keeps the first entry of least cost; at the end the solver runs
  once more, with the settings kept, on the embedding of the caller.
\<close>

definition all_settings :: "GreedySettings \<Rightarrow> GreedySettings list" where
  "all_settings settings =
     concat (map (\<lambda>swirl_detection.
       concat (map (\<lambda>vertex_repulsive_tracing.
         map (\<lambda>extremal_vertices.
                settings\<lparr>use_swirl_detection := swirl_detection,
                         use_vertex_repulsive_tracing := vertex_repulsive_tracing,
                         prefer_extremal_vertices := extremal_vertices\<rparr>)
             [False, True])
         [False, True]))
       [False, True])"

fun run_variants ::
  "search \<Rightarrow> swirl_test \<Rightarrow> real \<Rightarrow> Embedding \<Rightarrow> GreedySettings list
     \<Rightarrow> (error + (real \<times> GreedyResult) list) option" where
  "run_variants fsp swirl pnorm em [] = Some (Inr [])"
| "run_variants fsp swirl pnorm em (settings # rest) =
     (case embed_greedy fsp swirl pnorm (Embedding_copy em) settings of
        Inl err \<Rightarrow> Some (Inl err)
      | Inr (result, em') \<Rightarrow>
          (case total_embedded_path_length pnorm em' of
             None \<Rightarrow> None
           | Some (Inl err) \<Rightarrow> Some (Inl err)
           | Some (Inr cost) \<Rightarrow>
               (case run_variants fsp swirl pnorm em rest of
                  None \<Rightarrow> None
                | Some (Inl err) \<Rightarrow> Some (Inl err)
                | Some (Inr outcomes) \<Rightarrow> Some (Inr ((cost, result) # outcomes)))))"

fun pick_best ::
  "(real \<times> GreedySettings \<times> GreedyResult) list \<Rightarrow> double \<times> GreedySettings \<times> GreedyResult
     \<Rightarrow> double \<times> GreedySettings \<times> GreedyResult" where
  "pick_best [] best = best"
| "pick_best ((cost, settings, result) # rest) (best_cost, best_settings, best_result) =
     (if d_less (Fin cost) best_cost then pick_best rest (Fin cost, settings, result)
      else pick_best rest (best_cost, best_settings, best_result))"

definition embed_greedy_brute_force ::
  "search \<Rightarrow> swirl_test \<Rightarrow> real \<Rightarrow> Embedding \<Rightarrow> GreedySettings
     \<Rightarrow> (error + GreedyResult \<times> Embedding) option" where
  "embed_greedy_brute_force fsp swirl pnorm em settings =
     (case run_variants fsp swirl pnorm em (all_settings settings) of
        None \<Rightarrow> None
      | Some (Inl err) \<Rightarrow> Some (Inl err)
      | Some (Inr outcomes) \<Rightarrow>
          (case pick_best (zip (map fst outcomes) (zip (all_settings settings) (map snd outcomes)))
                  (PInf, settings, \<lparr>insertion_sequence = []\<rparr>) of
             (best_cost, best_settings, best_result) \<Rightarrow>
               (case embed_greedy fsp swirl pnorm em best_settings of
                  Inl err \<Rightarrow> Some (Inl err)
                | Inr (result, em') \<Rightarrow> Some (Inr (best_result, em')))))"

text \<open>
  A search whose empty result is turned into the failure of an assertion: the
  behaviour that a caller has when it asserts that the path it received has elements.
\<close>

definition fail_on_empty :: "search \<Rightarrow> search" where
  "fail_on_empty fsp =
     (\<lambda>em l_he metric. case fsp em l_he metric of
                          Inl err \<Rightarrow> Inl err
                        | Inr path \<Rightarrow> if path = [] then Inl AssertionFailed else Inr path)"

text \<open>The settings of the instance, and a search that finds nothing.\<close>

definition ex_settings :: GreedySettings where
  "ex_settings =
     \<lparr>insertion_order = BestFirst, use_swirl_detection = False, swirl_penalty_factor = 2,
      use_vertex_repulsive_tracing = False, prefer_extremal_vertices = False,
      extremal_vertex_ratio = 1 / 4\<rparr>"

definition ex_no_path :: search where
  "ex_no_path = (\<lambda>em l_he metric. Inr [])"

definition ex_search :: search where
  "ex_search = (\<lambda>em l_he metric. Inr [Vertex 2, Vertex 0, Vertex 3])"

definition ex_no_swirl :: swirl_test where
  "ex_no_swirl = (\<lambda>em l_he path. False)"

text \<open>
  The states of the \<^verbatim>\<open>while\<close> loop of \<^verbatim>\<open>embed_greedy\<close> in a run on the embedding
  \<open>em\<close>: the initial state, and the state after every round that the loop enters.
\<close>

inductive greedy_run ::
  "search \<Rightarrow> swirl_test \<Rightarrow> real \<Rightarrow> GreedySettings \<Rightarrow> (nat \<Rightarrow> bool) \<Rightarrow> Embedding \<Rightarrow> greedy_state \<Rightarrow> bool"
  for fsp swirl pnorm settings l_extremal_vertex em where
  start: "greedy_run fsp swirl pnorm settings l_extremal_vertex em (greedy_state_init em)"
| round: "greedy_run fsp swirl pnorm settings l_extremal_vertex em st \<Longrightarrow>
          l_num_embedded_edges st < int (n_edges (l_m em)) \<Longrightarrow>
          greedy_round fsp swirl pnorm settings l_extremal_vertex st = Inr st' \<Longrightarrow>
          greedy_run fsp swirl pnorm settings l_extremal_vertex em st'"

text \<open>
  Two layout vertices are joined by a list of layout edges when a walk along these
  edges leads from one to the other. A sequence of edges is cycle-free when every edge
  joins two vertices that the edges before it do not join.
\<close>

definition layout_edge_rel :: "Mesh \<Rightarrow> nat list \<Rightarrow> (nat \<times> nat) set" where
  "layout_edge_rel m es =
     (\<lambda>e. (vertexA m e, vertexB m e)) ` set es \<union> (\<lambda>e. (vertexB m e, vertexA m e)) ` set es"

definition joined :: "Mesh \<Rightarrow> nat list \<Rightarrow> nat \<Rightarrow> nat \<Rightarrow> bool" where
  "joined m es a b \<longleftrightarrow> (a, b) \<in> (layout_edge_rel m es)\<^sup>*"

definition cycle_free :: "Mesh \<Rightarrow> nat list \<Rightarrow> bool" where
  "cycle_free m es \<longleftrightarrow>
     (\<forall>i < length es. \<not> joined m (take i es) (vertexA m (es ! i)) (vertexB m (es ! i)))"

text \<open>The three tests of the scan that pass over an edge.\<close>

definition scan_skips :: "(nat \<Rightarrow> bool) \<Rightarrow> bool \<Rightarrow> greedy_state \<Rightarrow> nat \<Rightarrow> best_choice \<Rightarrow> bool" where
  "scan_skips ext tree st l_e best \<longleftrightarrow>
     l_is_embedded st l_e \<or>
     (incident_to_extremal_vertex (g_em st) ext (best_l_e best) \<and>
      \<not> incident_to_extremal_vertex (g_em st) ext (Some l_e)) \<or>
     (\<not> tree \<and> equivalent (l_v_components st) (vertexA (l_m (g_em st)) l_e)
                            (vertexB (l_m (g_em st)) l_e))"

text \<open>
  The invariant of the \<^verbatim>\<open>while\<close> loop: the layout mesh is the one of the run, the
  insertion sequence lists the edges selected so far, the union-find structure relates
  exactly the vertices that these edges join, and the edges selected before the
  spanning tree was complete are cycle-free.
\<close>

definition greedy_inv :: "Embedding \<Rightarrow> greedy_state \<Rightarrow> bool" where
  "greedy_inv em st \<longleftrightarrow>
     l_m (g_em st) = l_m em \<and>
     (\<exists>es. insertion_sequence (g_result st) = map Some es \<and>
           l_num_embedded_edges st = int (length es) \<and>
           (\<forall>a b. equivalent (l_v_components st) a b \<longleftrightarrow> joined (l_m em) es a b) \<and>
           cycle_free (l_m em) (take (n_vertices (l_m em) - 1) es))"

text \<open>The brute-force run on the instance.\<close>

definition ex_brute_force :: "GreedyResult \<times> Embedding" where
  "ex_brute_force =
     (case embed_greedy_brute_force ex_search ex_no_swirl 1 ex_em ex_settings of
        Some (Inr outcome) \<Rightarrow> outcome
      | _ \<Rightarrow> (\<lparr>insertion_sequence = []\<rparr>, ex_em))"

section \<open>A closed instance\<close>

text \<open>
  A tetrahedron: four vertices, six edges and the four triangles \<open>(0, 1, 2)\<close>,
  \<open>(0, 3, 1)\<close>, \<open>(1, 3, 2)\<close> and \<open>(0, 2, 3)\<close>, so that every halfedge has a face. Its
  vertices lie on one line, vertex \<open>v\<close> at \<open>(v, 0, 0)\<close>: every distance between
  vertices and edge midpoints is then a difference of first coordinates. The layout has
  four vertices, pinned to the target vertices of the same index, and four edges: the
  triangle \<open>0, 1, 2\<close> and the edge from \<open>2\<close> to \<open>3\<close>.
\<close>

definition tet_target :: Mesh where
  "tet_target = \<lparr>n_vertices = 4,
                  edge_list = [(0, 1), (1, 2), (2, 0), (0, 3), (3, 1), (2, 3)],
                  face_list = [(0, 1, 2), (0, 3, 1), (1, 3, 2), (0, 2, 3)]\<rparr>"

definition tet_layout :: Mesh where
  "tet_layout = \<lparr>n_vertices = 4, edge_list = [(0, 1), (1, 2), (0, 2), (2, 3)], face_list = []\<rparr>"

definition tet_input :: EmbeddingInput where
  "tet_input = \<lparr>input_l_m = tet_layout, input_t_m = tet_target,
                 input_t_pos = (\<lambda>v. (real v, 0, 0)),
                 input_l_matching_vertex = (\<lambda>l_v. l_v)\<rparr>"

definition tet_em :: Embedding where
  "tet_em = Embedding_init tet_input"

text \<open>
  A search that answers with the target edge between the two landmarks of the layout
  edge; on the tetrahedron every two landmarks are joined by one.
\<close>

definition direct_search :: search where
  "direct_search em l_he metric =
     (case (l_matching_vertex em (vertex_from (l_m em) l_he),
            l_matching_vertex em (vertex_to (l_m em) l_he)) of
        (Some t_v_start, Some t_v_end) \<Rightarrow> Inr [Vertex t_v_start, Vertex t_v_end]
      | _ \<Rightarrow> Inl UndefinedBehaviour)"

text \<open>The first three rounds of the solver on the tetrahedron, and its whole run.\<close>

definition tet_round1 :: greedy_state where
  "tet_round1 =
     (case greedy_round direct_search ex_no_swirl 1 ex_settings (\<lambda>l_v. False) (greedy_state_init tet_em) of
        Inr st \<Rightarrow> st
      | Inl err \<Rightarrow> greedy_state_init tet_em)"

definition tet_round2 :: greedy_state where
  "tet_round2 =
     (case greedy_round direct_search ex_no_swirl 1 ex_settings (\<lambda>l_v. False) tet_round1 of
        Inr st \<Rightarrow> st
      | Inl err \<Rightarrow> greedy_state_init tet_em)"

definition tet_round3 :: greedy_state where
  "tet_round3 =
     (case greedy_round direct_search ex_no_swirl 1 ex_settings (\<lambda>l_v. False) tet_round2 of
        Inr st \<Rightarrow> st
      | Inl err \<Rightarrow> greedy_state_init tet_em)"

definition tet_greedy :: "GreedyResult \<times> Embedding" where
  "tet_greedy =
     (case embed_greedy direct_search ex_no_swirl 1 tet_em ex_settings of
        Inr outcome \<Rightarrow> outcome
      | Inl err \<Rightarrow> (\<lparr>insertion_sequence = []\<rparr>, tet_em))"

text \<open>A search that finds no path for the last layout edge, and the direct one otherwise.\<close>

definition gap_search :: search where
  "gap_search em l_he metric = (if l_he = halfedgeA 3 then Inr [] else direct_search em l_he metric)"

text \<open>
  An octahedron: the poles \<open>0\<close> and \<open>1\<close>, the equator \<open>2, 3, 4, 5\<close>, twelve edges and
  eight triangles; edge \<open>8\<close> joins the equator vertices \<open>2\<close> and \<open>3\<close>. The vertices lie
  on one line, the poles at \<open>0\<close> and \<open>4\<close> and the equator at \<open>-2\<close>, \<open>6\<close>, \<open>20\<close> and
  \<open>30\<close>, so that the midpoint of edge \<open>8\<close> lies between the poles. The layout is the
  single edge of the small instance, its two vertices pinned to the poles.
\<close>

definition oct_target :: Mesh where
  "oct_target =
     \<lparr>n_vertices = 6,
      edge_list = [(0, 2), (0, 3), (0, 4), (0, 5), (1, 2), (1, 3), (1, 4), (1, 5),
                   (2, 3), (3, 4), (4, 5), (5, 2)],
      face_list = [(0, 2, 3), (0, 3, 4), (0, 4, 5), (0, 5, 2),
                   (1, 3, 2), (1, 4, 3), (1, 5, 4), (1, 2, 5)]\<rparr>"

definition oct_input :: EmbeddingInput where
  "oct_input = \<lparr>input_l_m = ex_layout, input_t_m = oct_target,
                 input_t_pos = (\<lambda>v. ([0, 4, - 2, 6, 20, 30] ! v, 0, 0)),
                 input_l_matching_vertex = (\<lambda>l_v. l_v)\<rparr>"

definition oct_em :: Embedding where
  "oct_em = Embedding_init oct_input"

section \<open>The shortest-path search\<close>

text \<open>\<^verbatim>\<open>Embedding::is_blocked\<close> for a target edge, a target vertex and a virtual vertex.\<close>

definition is_blocked_edge :: "Embedding \<Rightarrow> nat \<Rightarrow> error + bool" where
  "is_blocked_edge em t_e =
     (if \<not> t_e < n_edges (t_m em) then Inl AssertionFailed
      else Inr (t_matching_halfedge em (halfedgeA t_e) \<noteq> None \<or>
                t_matching_halfedge em (halfedgeB t_e) \<noteq> None))"

fun any_edge_blocked :: "Embedding \<Rightarrow> nat list \<Rightarrow> error + bool" where
  "any_edge_blocked em [] = Inr False"
| "any_edge_blocked em (t_e # t_es) =
     (case is_blocked_edge em t_e of
        Inl err \<Rightarrow> Inl err
      | Inr b \<Rightarrow> if b then Inr True else any_edge_blocked em t_es)"

definition vertex_edges :: "Mesh \<Rightarrow> nat \<Rightarrow> nat list" where
  "vertex_edges m v = filter (\<lambda>e. vertexA m e = v \<or> vertexB m e = v) [0..<n_edges m]"

definition is_blocked_vertex :: "Embedding \<Rightarrow> nat \<Rightarrow> error + bool" where
  "is_blocked_vertex em t_v =
     (if \<not> t_v < n_vertices (t_m em) then Inl AssertionFailed
      else if t_matching_vertex em t_v \<noteq> None then Inr True
      else any_edge_blocked em (vertex_edges (t_m em) t_v))"

fun is_blocked :: "Embedding \<Rightarrow> VirtualVertex \<Rightarrow> error + bool" where
  "is_blocked em (Vertex t_v) = is_blocked_vertex em t_v"
| "is_blocked em (Edge t_e) = is_blocked_edge em t_e"

text \<open>
  Modelled from the spec: the connectivity operations of polymesh and of
  \<^verbatim>\<open>Connectivity.hh\<close> are not part of the sources. A halfedge belongs to the triangle
  that lists its two ends in this order; \<^verbatim>\<open>next\<close> and \<^verbatim>\<open>prev\<close> follow that triangle. A
  halfedge without a triangle is a boundary halfedge, and \<^verbatim>\<open>next\<close> and \<^verbatim>\<open>prev\<close> follow
  the boundary. \<open>None\<close> is the invalid handle. \<^verbatim>\<open>opposite_vertex\<close> is the vertex that
  \<^verbatim>\<open>next\<close> points to.
\<close>

definition edge_of :: "nat \<Rightarrow> nat" where
  "edge_of h = h div 2"

fun directed_third :: "nat \<Rightarrow> nat \<Rightarrow> nat \<times> nat \<times> nat \<Rightarrow> nat option" where
  "directed_third a b (x, y, z) =
     (if x = a \<and> y = b then Some z
      else if y = a \<and> z = b then Some x
      else if z = a \<and> x = b then Some y
      else None)"

definition facing_vertex :: "Mesh \<Rightarrow> nat \<Rightarrow> nat option" where
  "facing_vertex m h =
     (case List.map_filter (directed_third (vertex_from m h) (vertex_to m h)) (face_list m) of
        [] \<Rightarrow> None
      | w # ws \<Rightarrow> Some w)"

definition is_boundary :: "Mesh \<Rightarrow> nat \<Rightarrow> bool" where
  "is_boundary m h = (facing_vertex m h = None)"

definition next_he :: "Mesh \<Rightarrow> nat \<Rightarrow> nat option" where
  "next_he m h =
     (case facing_vertex m h of
        Some w \<Rightarrow> halfedge_from_to m (vertex_to m h) w
      | None \<Rightarrow> find (is_boundary m) (outgoing_halfedges m (vertex_to m h)))"

definition prev_he :: "Mesh \<Rightarrow> nat \<Rightarrow> nat option" where
  "prev_he m h =
     (case facing_vertex m h of
        Some w \<Rightarrow> halfedge_from_to m w (vertex_from m h)
      | None \<Rightarrow> find (\<lambda>g. is_boundary m g \<and> vertex_to m g = vertex_from m h)
                     [0..<n_halfedges m])"

definition opposite_vertex :: "Mesh \<Rightarrow> nat \<Rightarrow> nat option" where
  "opposite_vertex m h = map_option (vertex_to m) (next_he m h)"

definition adjacent_vertices :: "Mesh \<Rightarrow> nat \<Rightarrow> nat list" where
  "adjacent_vertices m v = map (vertex_to m) (outgoing_halfedges m v)"

text \<open>
  The virtual vertices that the loop body of the search visits, in its order, when it
  expands \<open>vv\<close>. For a vertex: the adjacent vertices, then the edge facing it in every
  triangle around it. For an edge: the two facing vertices, then the other two edges
  of the triangle of \<^verbatim>\<open>halfedgeA\<close> and of the triangle of \<^verbatim>\<open>halfedgeB\<close>. The use of an
  invalid handle is undefined.
\<close>

fun handles :: "'a option list \<Rightarrow> error + 'a list" where
  "handles [] = Inr []"
| "handles (None # xs) = Inl UndefinedBehaviour"
| "handles (Some x # xs) = (case handles xs of Inl err \<Rightarrow> Inl err | Inr ys \<Rightarrow> Inr (x # ys))"

definition expand :: "Embedding \<Rightarrow> VirtualVertex \<Rightarrow> error + VirtualVertex list" where
  "expand em vv =
     (case vv of
        Vertex t_v \<Rightarrow>
          handles
            (map (\<lambda>t_v_adj. Some (Vertex t_v_adj)) (adjacent_vertices (t_m em) t_v) @
             map (\<lambda>t_he_out. map_option (\<lambda>h. Edge (edge_of h)) (next_he (t_m em) t_he_out))
                 (filter (\<lambda>t_he_out. \<not> is_boundary (t_m em) t_he_out)
                         (outgoing_halfedges (t_m em) t_v)))
      | Edge t_e \<Rightarrow>
          (let t_he = halfedgeA t_e; t_he_opp = halfedgeB t_e
           in handles
                ([map_option Vertex (opposite_vertex (t_m em) t_he),
                  map_option Vertex (opposite_vertex (t_m em) t_he_opp)] @
                 (if \<not> is_boundary (t_m em) t_he
                  then [map_option (\<lambda>h. Edge (edge_of h)) (next_he (t_m em) t_he),
                        map_option (\<lambda>h. Edge (edge_of h)) (prev_he (t_m em) t_he)]
                  else []) @
                 (if \<not> is_boundary (t_m em) t_he_opp
                  then [map_option (\<lambda>h. Edge (edge_of h)) (prev_he (t_m em) t_he_opp),
                        map_option (\<lambda>h. Edge (edge_of h)) (next_he (t_m em) t_he_opp)]
                  else []))))"

text \<open>
  The lambda \<^verbatim>\<open>get_virtual_vertices_in_sector\<close>. Its first loop turns the two ends of
  the sector away from each other until they meet or both lie on blocked edges; its
  second loop collects, from one end to the other, the edge facing the landmark in
  every triangle of the sector and the far end of every unblocked edge. A loop that
  does not end has the value \<open>None\<close>.
\<close>

definition rotate_cw :: "Mesh \<Rightarrow> nat \<Rightarrow> nat option" where
  "rotate_cw m h = next_he m (opposite h)"

definition rotate_ccw :: "Mesh \<Rightarrow> nat \<Rightarrow> nat option" where
  "rotate_ccw m h = map_option opposite (prev_he m h)"

partial_function (option) sector_ends ::
  "Embedding \<Rightarrow> nat \<Rightarrow> nat \<Rightarrow> (error + nat \<times> nat) option" where
  "sector_ends em t_he_sector_start t_he_sector_end =
     (if t_he_sector_start = t_he_sector_end then Some (Inr (t_he_sector_start, t_he_sector_end))
      else
        (case is_blocked_edge em (edge_of t_he_sector_start) of
           Inl err \<Rightarrow> Some (Inl err)
         | Inr b_start \<Rightarrow>
             if \<not> b_start then
               (case rotate_cw (t_m em) t_he_sector_start of
                  None \<Rightarrow> Some (Inl UndefinedBehaviour)
                | Some h \<Rightarrow> sector_ends em h t_he_sector_end)
             else
               (case is_blocked_edge em (edge_of t_he_sector_end) of
                  Inl err \<Rightarrow> Some (Inl err)
                | Inr b_end \<Rightarrow>
                    if \<not> b_end then
                      (case rotate_ccw (t_m em) t_he_sector_end of
                         None \<Rightarrow> Some (Inl UndefinedBehaviour)
                       | Some h \<Rightarrow> sector_ends em t_he_sector_start h)
                    else Some (Inr (t_he_sector_start, t_he_sector_end)))))"

declare sector_ends.simps [code]

partial_function (option) sector_collect ::
  "Embedding \<Rightarrow> nat \<Rightarrow> nat \<Rightarrow> VirtualVertex list \<Rightarrow> (error + VirtualVertex list) option" where
  "sector_collect em t_he t_he_sector_end vvs =
     (case next_he (t_m em) t_he of
        None \<Rightarrow> Some (Inl UndefinedBehaviour)
      | Some t_he_next \<Rightarrow>
          (case is_blocked_edge em (edge_of t_he) of
             Inl err \<Rightarrow> Some (Inl err)
           | Inr b \<Rightarrow>
               (let vvs' = vvs @ [Edge (edge_of t_he_next)] @
                                 (if \<not> b then [Vertex (vertex_to (t_m em) t_he)] else [])
                in case rotate_ccw (t_m em) t_he of
                     None \<Rightarrow> Some (Inl UndefinedBehaviour)
                   | Some h \<Rightarrow>
                       if h \<noteq> t_he_sector_end then sector_collect em h t_he_sector_end vvs'
                       else Some (Inr vvs'))))"

declare sector_collect.simps [code]

definition get_virtual_vertices_in_sector ::
  "Embedding \<Rightarrow> nat \<Rightarrow> (error + VirtualVertex list) option" where
  "get_virtual_vertices_in_sector em t_he_sector =
     (case rotate_ccw (t_m em) t_he_sector of
        None \<Rightarrow> Some (Inl UndefinedBehaviour)
      | Some h \<Rightarrow>
          (case sector_ends em t_he_sector h of
             None \<Rightarrow> None
           | Some (Inl err) \<Rightarrow> Some (Inl err)
           | Some (Inr (t_he_sector_start, t_he_sector_end)) \<Rightarrow>
               sector_collect em t_he_sector_start t_he_sector_end []))"

text \<open>The variables that the lambdas of \<^verbatim>\<open>find_shortest_path\<close> capture and never change.\<close>

record search_frame =
  sf_em :: Embedding
  sf_start :: nat
  sf_end :: nat
  sf_first :: "VirtualVertex list"
  sf_last :: "VirtualVertex list"

text \<open>
  The variables that the search changes: the queue, the attribute \<^verbatim>\<open>distance\<close> and the
  attribute \<^verbatim>\<open>prev\<close>, whose default entry is the invalid vertex handle, \<open>None\<close>.
\<close>

record search_state =
  ss_q :: "Candidate list"
  ss_distance :: "VirtualVertex \<Rightarrow> Distance"
  ss_prev :: "VirtualVertex \<Rightarrow> VirtualVertex option"

text \<open>
  The priority queue holds its candidates in a list. \<^verbatim>\<open>top\<close> is a candidate that no
  other candidate precedes in the ordering, the first such in the list (the heap of
  the standard library fixes another choice among equals), and \<^verbatim>\<open>pop\<close> removes it.
\<close>

fun q_min :: "Candidate \<Rightarrow> Candidate list \<Rightarrow> Candidate" where
  "q_min c [] = c"
| "q_min c (x # xs) = (if Candidate_greater c x then q_min x xs else q_min c xs)"

definition q_top :: "Candidate list \<Rightarrow> Candidate" where
  "q_top q = q_min (hd q) (tl q)"

definition q_pop :: "Candidate list \<Rightarrow> Candidate list" where
  "q_pop q = remove1 (q_top q) q"

text \<open>The lambda \<^verbatim>\<open>legal_step\<close>.\<close>

definition legal_step :: "search_frame \<Rightarrow> VirtualVertex \<Rightarrow> VirtualVertex \<Rightarrow> error + bool" where
  "legal_step sf vv_from vv_to =
     (if vv_from = Vertex (sf_start sf) \<and> vv_to \<notin> set (sf_first sf) then Inr False
      else if vv_to = Vertex (sf_end sf)
      then (if vv_from \<notin> set (sf_last sf) then Inr False else Inr True)
      else (case is_blocked (sf_em sf) vv_to of
              Inl err \<Rightarrow> Inl err
            | Inr b \<Rightarrow> if b then Inr False else Inr True))"

text \<open>The lambda \<^verbatim>\<open>visit_vv\<close>.\<close>

definition visit_vv :: "search_frame \<Rightarrow> search_state \<Rightarrow> Candidate \<Rightarrow> VirtualVertex \<Rightarrow> error + search_state" where
  "visit_vv sf st c vv =
     (case legal_step sf (cand_vv c) vv of
        Inl err \<Rightarrow> Inl err
      | Inr legal \<Rightarrow>
          if \<not> legal then Inr st
          else
            (case element_pos (sf_em sf) vv of
               Inl err \<Rightarrow> Inl err
             | Inr p \<Rightarrow>
                 (let current_dist = ss_distance st vv;
                      new_dist =
                        \<lparr>edges_crossed =
                           (if is_real_edge vv then edges_crossed (cand_dist c) + 1
                            else edges_crossed (cand_dist c)),
                         geodesic = d_add (geodesic (cand_dist c)) (Fin (tg_distance (cand_p c) p)),
                         remaining_distance_heuristic =
                           Fin (tg_distance p (t_pos (sf_em sf) (sf_end sf)))\<rparr>
                  in if Distance_less new_dist current_dist
                     then Inr \<lparr>ss_q = ss_q st @ [\<lparr>cand_vv = vv, cand_p = p, cand_dist = new_dist\<rparr>],
                              ss_distance = (ss_distance st)(vv := new_dist),
                              ss_prev = (ss_prev st)(vv := Some (cand_vv c))\<rparr>
                     else Inr st)))"

fun visit_all :: "search_frame \<Rightarrow> search_state \<Rightarrow> Candidate \<Rightarrow> VirtualVertex list \<Rightarrow> error + search_state" where
  "visit_all sf st c [] = Inr st"
| "visit_all sf st c (vv # vvs) =
     (case visit_vv sf st c vv of
        Inl err \<Rightarrow> Inl err
      | Inr st' \<Rightarrow> visit_all sf st' c vvs)"

text \<open>
  The \<^verbatim>\<open>while\<close> loop over the queue. It leaves when the queue is empty and when the
  candidate it has popped is the end vertex.
\<close>

partial_function (option) search_loop ::
  "search_frame \<Rightarrow> search_state \<Rightarrow> (error + search_state) option" where
  "search_loop sf st =
     (if ss_q st = [] then Some (Inr st)
      else
        (let u = q_top (ss_q st);
             st1 = st\<lparr>ss_q := q_pop (ss_q st)\<rparr>
         in if cand_vv u = Vertex (sf_end sf) then Some (Inr st1)
            else
              (case expand (sf_em sf) (cand_vv u) of
                 Inl err \<Rightarrow> Some (Inl err)
               | Inr vvs \<Rightarrow>
                   (case visit_all sf st1 u vvs of
                      Inl err \<Rightarrow> Some (Inl err)
                    | Inr st2 \<Rightarrow> search_loop sf st2))))"

declare search_loop.simps [code]

text \<open>
  The loop that follows \<^verbatim>\<open>prev\<close> from the end vertex. At a default entry the next
  round would read the attribute at the invalid handle.
\<close>

partial_function (option) backtrack ::
  "(VirtualVertex \<Rightarrow> VirtualVertex option) \<Rightarrow> VirtualVertex \<Rightarrow> VirtualVertex \<Rightarrow> VirtualPath
     \<Rightarrow> (error + VirtualPath) option" where
  "backtrack prev_vv vv_start vv_current path =
     (if vv_current \<noteq> vv_start then
        (case prev_vv vv_current of
           None \<Rightarrow> Some (Inl UndefinedBehaviour)
         | Some vv \<Rightarrow> backtrack prev_vv vv_start vv (path @ [vv_current]))
      else Some (Inr (path @ [vv_start])))"

declare backtrack.simps [code]

text \<open>\<^verbatim>\<open>Embedding::find_shortest_path\<close> between two sector boundary halfedges.\<close>

definition search_frame_of ::
  "Embedding \<Rightarrow> nat \<Rightarrow> nat \<Rightarrow> VirtualVertex list \<Rightarrow> VirtualVertex list \<Rightarrow> search_frame" where
  "search_frame_of em t_h_sector_start t_h_sector_end legal_first_vvs legal_last_vvs =
     \<lparr>sf_em = em,
      sf_start = vertex_from (t_m em) t_h_sector_start,
      sf_end = vertex_from (t_m em) t_h_sector_end,
      sf_first = legal_first_vvs,
      sf_last = legal_last_vvs\<rparr>"

definition search_state_init :: "search_frame \<Rightarrow> search_state" where
  "search_state_init sf =
     \<lparr>ss_q = [\<lparr>cand_vv = Vertex (sf_start sf), cand_p = t_pos (sf_em sf) (sf_start sf),
               cand_dist = \<lparr>edges_crossed = 0, geodesic = Fin 0,
                            remaining_distance_heuristic = Fin DBL_MAX\<rparr>\<rparr>],
      ss_distance = (\<lambda>vv. Distance_default)
                      (Vertex (sf_start sf) := Distance_default\<lparr>edges_crossed := 0, geodesic := Fin 0\<rparr>),
      ss_prev = (\<lambda>vv. None)\<rparr>"

definition find_shortest_path :: "Embedding \<Rightarrow> nat \<Rightarrow> nat \<Rightarrow> (error + VirtualPath) option" where
  "find_shortest_path em t_h_sector_start t_h_sector_end =
     (if \<not> t_h_sector_start < n_halfedges (t_m em) \<or> \<not> t_h_sector_end < n_halfedges (t_m em)
      then Some (Inl AssertionFailed)
      else
        (case get_virtual_vertices_in_sector em t_h_sector_start of
           None \<Rightarrow> None
         | Some (Inl err) \<Rightarrow> Some (Inl err)
         | Some (Inr legal_first_vvs) \<Rightarrow>
             (case get_virtual_vertices_in_sector em t_h_sector_end of
                None \<Rightarrow> None
              | Some (Inl err) \<Rightarrow> Some (Inl err)
              | Some (Inr legal_last_vvs) \<Rightarrow>
                  (let sf = search_frame_of em t_h_sector_start t_h_sector_end
                              legal_first_vvs legal_last_vvs
                   in case search_loop sf (search_state_init sf) of
                        None \<Rightarrow> None
                      | Some (Inl err) \<Rightarrow> Some (Inl err)
                      | Some (Inr st) \<Rightarrow>
                          if isinf (geodesic (ss_distance st (Vertex (sf_end sf)))) then Some (Inr [])
                          else
                            (case backtrack (ss_prev st) (Vertex (sf_start sf)) (Vertex (sf_end sf)) [] of
                               None \<Rightarrow> None
                             | Some (Inl err) \<Rightarrow> Some (Inl err)
                             | Some (Inr path) \<Rightarrow> Some (Inr (rev path)))))))"

section \<open>What the search keeps true\<close>

text \<open>
  A virtual vertex is valid when its handle belongs to the target mesh. The
  connectivity is closed when it never leads out of the mesh: expanding a valid virtual
  vertex uses valid handles and visits valid virtual vertices only.
\<close>

definition vv_valid :: "Embedding \<Rightarrow> VirtualVertex \<Rightarrow> bool" where
  "vv_valid em vv =
     (case vv of Vertex t_v \<Rightarrow> t_v < n_vertices (t_m em) | Edge t_e \<Rightarrow> t_e < n_edges (t_m em))"

definition expand_closed :: "Embedding \<Rightarrow> bool" where
  "expand_closed em =
     list_all (\<lambda>vv. case expand em vv of
                       Inl err \<Rightarrow> False
                     | Inr vvs \<Rightarrow> list_all (vv_valid em) vvs)
              (map Vertex [0..<n_vertices (t_m em)] @ map Edge [0..<n_edges (t_m em)])"

definition vv_pos :: "Embedding \<Rightarrow> VirtualVertex \<Rightarrow> pos3" where
  "vv_pos em vv = (case element_pos em vv of Inr p \<Rightarrow> p | Inl err \<Rightarrow> (0, 0, 0))"

fun walk_length :: "Embedding \<Rightarrow> VirtualPath \<Rightarrow> real" where
  "walk_length em (a # b # W) = tg_distance (vv_pos em a) (vv_pos em b) + walk_length em (b # W)"
| "walk_length em W = 0"

text \<open>
  Every candidate stands for a walk over distinct valid virtual vertices that ends at
  the candidate: its geodesic is the length of the walk, and no beginning of the walk
  is shorter than the distance recorded for the virtual vertex where it stops.
\<close>

definition cand_ok :: "search_frame \<Rightarrow> (VirtualVertex \<Rightarrow> Distance) \<Rightarrow> Candidate \<Rightarrow> bool" where
  "cand_ok sf d c =
     (\<exists>W. W \<noteq> [] \<and> distinct W \<and> list_all (vv_valid (sf_em sf)) W \<and> last W = cand_vv c \<and>
          geodesic (cand_dist c) = Fin (walk_length (sf_em sf) W) \<and>
          cand_p c = vv_pos (sf_em sf) (cand_vv c) \<and>
          (\<forall>k<length W. \<not> d_less (Fin (walk_length (sf_em sf) (take (Suc k) W)))
                                   (geodesic (d (W ! k)))))"

text \<open>\<open>reaches prev_vv vv_start vv\<close>: following \<^verbatim>\<open>prev\<close> from \<open>vv\<close> arrives at the start.\<close>

inductive reaches :: "(VirtualVertex \<Rightarrow> VirtualVertex option) \<Rightarrow> VirtualVertex \<Rightarrow> VirtualVertex \<Rightarrow> bool"
  for prev_vv :: "VirtualVertex \<Rightarrow> VirtualVertex option" and vv_start :: VirtualVertex where
  reaches_start: "reaches prev_vv vv_start vv_start"
| reaches_prev: "vv \<noteq> vv_start \<Longrightarrow> prev_vv vv = Some vv' \<Longrightarrow> reaches prev_vv vv_start vv'
                 \<Longrightarrow> reaches prev_vv vv_start vv"

text \<open>
  The attributes: the entry of the start is never overwritten; a reached virtual
  vertex carries the heuristic of its own position, leads back to the start along
  \<^verbatim>\<open>prev\<close>, and its predecessor is no farther than itself.
\<close>

definition dist_ok ::
  "search_frame \<Rightarrow> (VirtualVertex \<Rightarrow> Distance) \<Rightarrow> (VirtualVertex \<Rightarrow> VirtualVertex option) \<Rightarrow> bool" where
  "dist_ok sf d prev_vv =
     (d (Vertex (sf_start sf)) = Distance_default\<lparr>edges_crossed := 0, geodesic := Fin 0\<rparr> \<and>
      (\<forall>vv. vv \<noteq> Vertex (sf_start sf) \<longrightarrow> geodesic (d vv) \<noteq> PInf \<longrightarrow>
            remaining_distance_heuristic (d vv) =
              Fin (tg_distance (vv_pos (sf_em sf) vv) (t_pos (sf_em sf) (sf_end sf)))) \<and>
      (\<forall>vv. geodesic (d vv) \<noteq> PInf \<longrightarrow> reaches prev_vv (Vertex (sf_start sf)) vv) \<and>
      (\<forall>vv vv'. vv \<noteq> Vertex (sf_start sf) \<longrightarrow> geodesic (d vv) \<noteq> PInf \<longrightarrow> prev_vv vv = Some vv' \<longrightarrow>
            \<not> d_less (geodesic (d vv)) (geodesic (d vv'))))"

definition search_inv :: "search_frame \<Rightarrow> search_state \<Rightarrow> bool" where
  "search_inv sf st =
     (dist_ok sf (ss_distance st) (ss_prev st) \<and>
      list_all (cand_ok sf (ss_distance st)) (ss_q st))"

text \<open>
  The walks that are still shorter than the recorded distance of their end. Each
  insertion into the queue removes one, and there are finitely many.
\<close>

definition short_walks :: "search_frame \<Rightarrow> (VirtualVertex \<Rightarrow> Distance) \<Rightarrow> VirtualPath set" where
  "short_walks sf d =
     {W. W \<noteq> [] \<and> distinct W \<and> list_all (vv_valid (sf_em sf)) W \<and>
         d_less (Fin (walk_length (sf_em sf) W)) (geodesic (d (last W)))}"

text \<open>The distance that \<^verbatim>\<open>visit_vv\<close> computes, and the state after its insertion.\<close>

definition relaxed_dist :: "search_frame \<Rightarrow> Candidate \<Rightarrow> VirtualVertex \<Rightarrow> Distance" where
  "relaxed_dist sf c vv =
     \<lparr>edges_crossed =
        (if is_real_edge vv then edges_crossed (cand_dist c) + 1 else edges_crossed (cand_dist c)),
      geodesic = d_add (geodesic (cand_dist c))
                   (Fin (tg_distance (cand_p c) (vv_pos (sf_em sf) vv))),
      remaining_distance_heuristic =
        Fin (tg_distance (vv_pos (sf_em sf) vv) (t_pos (sf_em sf) (sf_end sf)))\<rparr>"

definition relaxed_state :: "search_frame \<Rightarrow> search_state \<Rightarrow> Candidate \<Rightarrow> VirtualVertex \<Rightarrow> search_state" where
  "relaxed_state sf st c vv =
     \<lparr>ss_q = ss_q st @ [\<lparr>cand_vv = vv, cand_p = vv_pos (sf_em sf) vv,
                          cand_dist = relaxed_dist sf c vv\<rparr>],
      ss_distance = (ss_distance st)(vv := relaxed_dist sf c vv),
      ss_prev = (ss_prev st)(vv := Some (cand_vv c))\<rparr>"

text \<open>A path follows \<^verbatim>\<open>prev\<close> when the predecessor of each of its elements is the one before.\<close>

definition prev_chain :: "(VirtualVertex \<Rightarrow> VirtualVertex option) \<Rightarrow> VirtualPath \<Rightarrow> bool" where
  "prev_chain prev_vv path = (\<forall>i. Suc i < length path \<longrightarrow> prev_vv (path ! Suc i) = Some (path ! i))"

section \<open>Properties of the priority ordering\<close>

text \<open>
  C3 (as stated): candidates are compared by total heuristic-augmented distance first
  and, when the totals are equal, by the count of real edges crossed. The ordering of
  the code has no second key: two candidates with equal totals and different counts
  are not ordered either way.
\<close>

theorem C3_tie_break_counterexample:
  "d_add (geodesic \<lparr>edges_crossed = 0, geodesic = Fin 1, remaining_distance_heuristic = Fin 2\<rparr>)
         (remaining_distance_heuristic
            \<lparr>edges_crossed = 0, geodesic = Fin 1, remaining_distance_heuristic = Fin 2\<rparr>)
   = d_add (geodesic \<lparr>edges_crossed = 5, geodesic = Fin 2, remaining_distance_heuristic = Fin 1\<rparr>)
         (remaining_distance_heuristic
            \<lparr>edges_crossed = 5, geodesic = Fin 2, remaining_distance_heuristic = Fin 1\<rparr>)
   \<and> \<not> Candidate_greater
        \<lparr>cand_vv = Vertex 1, cand_p = (0, 0, 0),
         cand_dist = \<lparr>edges_crossed = 5, geodesic = Fin 2, remaining_distance_heuristic = Fin 1\<rparr>\<rparr>
        \<lparr>cand_vv = Vertex 0, cand_p = (0, 0, 0),
         cand_dist = \<lparr>edges_crossed = 0, geodesic = Fin 1, remaining_distance_heuristic = Fin 2\<rparr>\<rparr>
   \<and> \<not> Distance_less
        \<lparr>edges_crossed = 0, geodesic = Fin 1, remaining_distance_heuristic = Fin 2\<rparr>
        \<lparr>edges_crossed = 5, geodesic = Fin 2, remaining_distance_heuristic = Fin 1\<rparr>"
  by (simp add: Candidate_greater_def Distance_less_def)

text \<open>
  C3 (amended): the ordering of frontier candidates compares the total
  heuristic-augmented distance (accumulated geodesic distance plus remaining
  straight-line heuristic) and nothing else; the count of real edges crossed is
  carried in the record and never consulted, whatever its value.
\<close>

theorem C3_priority_is_total_distance_only:
  "Candidate_greater (c1\<lparr>cand_dist := (cand_dist c1)\<lparr>edges_crossed := n1\<rparr>\<rparr>)
                     (c2\<lparr>cand_dist := (cand_dist c2)\<lparr>edges_crossed := n2\<rparr>\<rparr>)
   = d_less (d_add (geodesic (cand_dist c2)) (remaining_distance_heuristic (cand_dist c2)))
            (d_add (geodesic (cand_dist c1)) (remaining_distance_heuristic (cand_dist c1)))"
  by (simp add: Candidate_greater_def Distance_less_def)

section \<open>Facts about meshes and chains\<close>

lemma opposite_opposite [simp]: "opposite (opposite h) = h"
  by (auto simp: opposite_def)

lemma opposite_neq [simp]: "opposite h \<noteq> h" "h \<noteq> opposite h"
  by (auto simp: opposite_def elim!: oddE)

lemma opposite_less_even: "even n \<Longrightarrow> opposite h < n \<longleftrightarrow> h < n"
  by (auto simp: opposite_def elim!: evenE oddE)

lemma opposite_less_n_halfedges [simp]: "opposite h < n_halfedges m \<longleftrightarrow> h < n_halfedges m"
  by (rule opposite_less_even) (simp add: n_halfedges_def)

lemma opposite_inj [simp]: "opposite a = opposite b \<longleftrightarrow> a = b"
  by (metis opposite_opposite)

lemma vertex_from_opposite [simp]: "vertex_from m (opposite h) = vertex_to m h"
  by (simp add: vertex_from_def)

lemma vertex_to_opposite: "vertex_to m (opposite h) = vertex_from m h"
  by (simp add: vertex_from_def)

lemma set_outgoing_halfedges:
  "set (outgoing_halfedges m v) = {h. h < n_halfedges m \<and> vertex_from m h = v}"
  by (auto simp: outgoing_halfedges_def)

lemma halfedge_from_to_SomeD:
  assumes "halfedge_from_to m a b = Some t"
  shows "t < n_halfedges m" "vertex_from m t = a" "vertex_to m t = b"
  using assms unfolding halfedge_from_to_def
  by (auto simp: find_Some_iff set_outgoing_halfedges dest: nth_mem)

lemma labels_symmetric_mark:
  assumes "labels_symmetric em"
  shows "labels_symmetric (em\<lparr>t_matching_halfedge :=
            (t_matching_halfedge em)(t := Some h, opposite t := Some (opposite h))\<rparr>)"
  using assms unfolding labels_symmetric_def by (auto simp: fun_upd_def)

lemma labels_symmetric_unmark:
  assumes "labels_symmetric em"
  shows "labels_symmetric (em\<lparr>t_matching_halfedge :=
            (t_matching_halfedge em)(t := None, opposite t := None)\<rparr>)"
  using assms unfolding labels_symmetric_def by (auto simp: fun_upd_def)

lemma labels_symmetric_mark_path:
  "mark_path em h vs = Inr em' \<Longrightarrow> labels_symmetric em \<Longrightarrow> labels_symmetric em'"
proof (induction em h vs rule: mark_path.induct)
  case (1 em l_he v_i v_j vs)
  from "1.prems"(1) obtain t where t: "halfedge_from_to (t_m em) v_i v_j = Some t"
    and rest: "mark_path (em\<lparr>t_matching_halfedge :=
                  (t_matching_halfedge em)
                    (t := Some l_he, opposite t := Some (opposite l_he))\<rparr>) l_he (v_j # vs) = Inr em'"
    by (auto split: option.splits)
  show ?case
    by (rule "1.IH"[OF t rest]) (rule labels_symmetric_mark[OF "1.prems"(2)])
qed simp_all

lemma labels_symmetric_unmark_path:
  "unmark_path em h vs = Inr em' \<Longrightarrow> labels_symmetric em \<Longrightarrow> labels_symmetric em'"
proof (induction em h vs rule: unmark_path.induct)
  case (1 em l_he v_i v_j vs)
  from "1.prems"(1) obtain t where t: "halfedge_from_to (t_m em) v_i v_j = Some t"
    and l1: "t_matching_halfedge em t = Some l_he"
    and l2: "t_matching_halfedge em (opposite t) = Some (opposite l_he)"
    and rest: "unmark_path (em\<lparr>t_matching_halfedge :=
                  (t_matching_halfedge em)(t := None, opposite t := None)\<rparr>) l_he (v_j # vs) = Inr em'"
    by (auto split: option.splits if_splits)
  have "\<not> t_matching_halfedge em t \<noteq> Some l_he"
       "\<not> t_matching_halfedge em (opposite t) \<noteq> Some (opposite l_he)"
    using l1 l2 by simp_all
  from "1.IH"[OF t this rest] labels_symmetric_unmark[OF "1.prems"(2)]
  show ?case by blast
qed simp_all

lemma snd_split_and_triangulate [simp]: "snd (split_and_triangulate m e) = n_vertices m"
  by (simp add: split_and_triangulate_def Let_def)

lemma split_edge_fields [simp]:
  "l_m (fst (split_edge em e)) = l_m em"
  "l_matching_vertex (fst (split_edge em e)) = l_matching_vertex em"
  "t_m (fst (split_edge em e)) = fst (split_and_triangulate (t_m em) e)"
  "t_matching_halfedge (fst (split_edge em e))
     = attribute_resize (n_halfedges (t_m em)) None (t_matching_halfedge em)"
  "t_matching_vertex (fst (split_edge em e))
     = attribute_resize (n_vertices (t_m em)) None (t_matching_vertex em)"
  "t_pos (fst (split_edge em e))
     = (attribute_resize (n_vertices (t_m em)) (0, 0, 0) (t_pos em))
         (n_vertices (t_m em) :=
            tg_mix (t_pos em (vertexA (t_m em) e)) (t_pos em (vertexB (t_m em) e)) (1 / 2))"
  "snd (split_edge em e) = n_vertices (t_m em)"
  by (simp_all add: split_edge_def Let_def split_def)

lemma labels_symmetric_split_edge:
  assumes "labels_symmetric em"
  shows "labels_symmetric (fst (split_edge em e))"
  using assms unfolding labels_symmetric_def
  by (simp add: attribute_resize_def)

lemma split_path_EdgeE:
  assumes "split_path em (Edge t_e # vvs) = Inr (em', vp)"
  obtains em1 vp1 where "t_e < n_edges (t_m em)" "split_path (fst (split_edge em t_e)) vvs = Inr (em', vp1)"
    "vp = snd (split_edge em t_e) # vp1"
  using assms by (auto simp del: split_edge_fields split: if_splits prod.splits sum.splits)

lemma split_path_VertexE:
  assumes "split_path em (Vertex t_v # vvs) = Inr (em', vp)"
  obtains vp1 where "split_path em vvs = Inr (em', vp1)" "vp = t_v # vp1"
  using assms by (auto split: sum.splits prod.splits)

lemma labels_symmetric_split_path:
  "split_path em p = Inr (em', vp) \<Longrightarrow> labels_symmetric em \<Longrightarrow> labels_symmetric em'"
proof (induction p arbitrary: em em' vp)
  case Nil
  then show ?case by simp
next
  case (Cons vv vvs)
  show ?case
  proof (cases vv)
    case (Vertex t_v)
    from Cons.prems(1)[unfolded Vertex] obtain vp1 where "split_path em vvs = Inr (em', vp1)"
      by (rule split_path_VertexE)
    then show ?thesis using Cons.IH Cons.prems(2) by blast
  next
    case (Edge t_e)
    from Cons.prems(1)[unfolded Edge] obtain vp1 where "split_path (fst (split_edge em t_e)) vvs = Inr (em', vp1)"
      by (rule split_path_EdgeE)
    then show ?thesis
      using Cons.IH labels_symmetric_split_edge[OF Cons.prems(2)] by blast
  qed
qed

lemma labels_symmetric_init: "labels_symmetric (Embedding_init inp)"
  by (simp add: labels_symmetric_def Embedding_init_def Let_def split_def)

lemma embed_path_InrE:
  assumes "embed_path em h p = Inr em'"
  obtains em1 vp where "get_embedded_target_halfedge em h = Inr None" "2 \<le> length p"
    "split_path em p = Inr (em1, vp)" "mark_path em1 h vp = Inr em'"
  using assms unfolding embed_path_def
  by (auto split: sum.splits option.splits if_splits)

lemma unembed_path_InrE:
  assumes "unembed_path em h = Some (Inr em')"
  obtains vs where "get_embedded_path em h = Some (Inr vs)" "unmark_path em h vs = Inr em'"
  using assms unfolding unembed_path_def
  by (auto split: sum.splits option.splits)

lemma reachable_labels_symmetric: "reachable inp em \<Longrightarrow> labels_symmetric em"
proof (induction rule: reachable.induct)
  case init
  show ?case by (rule labels_symmetric_init)
next
  case (embed em l_he path em')
  from embed.hyps(2) obtain em1 vp where "split_path em path = Inr (em1, vp)"
      "mark_path em1 l_he vp = Inr em'"
    by (rule embed_path_InrE)
  then show ?case
    using embed.IH labels_symmetric_split_path labels_symmetric_mark_path by blast
next
  case (unembed em l_he em')
  from unembed.hyps(2) obtain vs where "unmark_path em l_he vs = Inr em'"
    by (rule unembed_path_InrE)
  then show ?case using unembed.IH labels_symmetric_unmark_path by blast
qed

(* frame lemmas *)
lemma mark_path_frame:
  "mark_path em h vs = Inr em' \<Longrightarrow>
     t_m em' = t_m em \<and> l_m em' = l_m em \<and> t_pos em' = t_pos em \<and>
     l_matching_vertex em' = l_matching_vertex em \<and> t_matching_vertex em' = t_matching_vertex em"
proof (induction em h vs rule: mark_path.induct)
  case (1 em l_he v_i v_j vs)
  from "1.prems"(1) obtain t where t: "halfedge_from_to (t_m em) v_i v_j = Some t"
    and rest: "mark_path (em\<lparr>t_matching_halfedge :=
                  (t_matching_halfedge em)
                    (t := Some l_he, opposite t := Some (opposite l_he))\<rparr>) l_he (v_j # vs) = Inr em'"
    by (auto split: option.splits)
  from "1.IH"[OF t rest] show ?case by simp
qed simp_all

lemma unmark_path_frame:
  "unmark_path em h vs = Inr em' \<Longrightarrow>
     t_m em' = t_m em \<and> l_m em' = l_m em \<and> t_pos em' = t_pos em \<and>
     l_matching_vertex em' = l_matching_vertex em \<and> t_matching_vertex em' = t_matching_vertex em"
proof (induction em h vs rule: unmark_path.induct)
  case (1 em l_he v_i v_j vs)
  from "1.prems"(1) obtain t where t: "halfedge_from_to (t_m em) v_i v_j = Some t"
    and l1: "t_matching_halfedge em t = Some l_he"
    and l2: "t_matching_halfedge em (opposite t) = Some (opposite l_he)"
    and rest: "unmark_path (em\<lparr>t_matching_halfedge :=
                  (t_matching_halfedge em)(t := None, opposite t := None)\<rparr>) l_he (v_j # vs) = Inr em'"
    by (auto split: option.splits if_splits)
  have "\<not> t_matching_halfedge em t \<noteq> Some l_he"
       "\<not> t_matching_halfedge em (opposite t) \<noteq> Some (opposite l_he)"
    using l1 l2 by simp_all
  from "1.IH"[OF t this rest] show ?case by simp
qed simp_all

lemma length_chain_halfedges [simp]: "length (chain_halfedges m vs) = length vs - 1"
  by (induction m vs rule: chain_halfedges.induct) simp_all

lemma chain_halfedges_nth:
  "Suc i < length vs \<Longrightarrow> chain_halfedges m vs ! i = halfedge_from_to m (vs ! i) (vs ! Suc i)"
proof (induction m vs arbitrary: i rule: chain_halfedges.induct)
  case (1 m v_i v_j vs)
  then show ?case by (cases i) simp_all
qed simp_all

lemma chain_halfedges_endpoints:
  assumes "Some t \<in> set (chain_halfedges m vs)"
  shows "\<exists>i. Suc i < length vs \<and> t < n_halfedges m \<and>
             vertex_from m t = vs ! i \<and> vertex_to m t = vs ! Suc i"
proof -
  from assms obtain i where i: "i < length vs - 1" "chain_halfedges m vs ! i = Some t"
    by (auto simp: in_set_conv_nth)
  then have "halfedge_from_to m (vs ! i) (vs ! Suc i) = Some t"
    using chain_halfedges_nth[of i vs m] by simp
  with i(1) show ?thesis
    by (intro exI[of _ i]) (auto dest: halfedge_from_to_SomeD)
qed

lemma chain_halfedges_in_set:
  assumes "Some t \<in> set (chain_halfedges m vs)"
  shows "vertex_from m t \<in> set vs" "vertex_to m t \<in> set vs"
proof -
  from chain_halfedges_endpoints[OF assms] obtain i where
    i: "Suc i < length vs" "vertex_from m t = vs ! i" "vertex_to m t = vs ! Suc i" by auto
  from i(1) have "vs ! i \<in> set vs" "vs ! Suc i \<in> set vs" by (simp_all add: nth_mem)
  with i show "vertex_from m t \<in> set vs" "vertex_to m t \<in> set vs" by simp_all
qed

lemma chain_opposite_notin:
  assumes "distinct vs" "Some t \<in> set (chain_halfedges m vs)"
  shows "Some (opposite t) \<notin> set (chain_halfedges m vs)"
proof
  assume "Some (opposite t) \<in> set (chain_halfedges m vs)"
  from chain_halfedges_endpoints[OF this] obtain j where
    j: "Suc j < length vs" "vs ! j = vertex_to m t" "vs ! Suc j = vertex_from m t"
    by (auto simp: vertex_to_opposite)
  from chain_halfedges_endpoints[OF assms(2)] obtain i where
    i: "Suc i < length vs" "vertex_from m t = vs ! i" "vertex_to m t = vs ! Suc i"
    by auto
  from i j assms(1) have "j = Suc i" "Suc j = i"
    by (auto simp: nth_eq_iff_index_eq)
  then show False by simp
qed

lemma mark_path_labels:
  assumes "distinct vs" "list_all (\<lambda>x. x \<noteq> None) (chain_halfedges (t_m em) vs)"
  shows "\<exists>em'. mark_path em h vs = Inr em' \<and>
           t_matching_halfedge em' = marked_labels (t_matching_halfedge em) h (chain_halfedges (t_m em) vs)"
  using assms
proof (induction em h vs rule: mark_path.induct)
  case (1 em l_he v_i v_j vs)
  let ?m = "t_m em"
  from "1.prems"(2) obtain t where t: "halfedge_from_to ?m v_i v_j = Some t"
    by auto
  let ?em1 = "em\<lparr>t_matching_halfedge :=
                  (t_matching_halfedge em)(t := Some l_he, opposite t := Some (opposite l_he))\<rparr>"
  have m1: "t_m ?em1 = ?m" by simp
  from "1.prems" have "distinct (v_j # vs)"
    "list_all (\<lambda>x. x \<noteq> None) (chain_halfedges (t_m ?em1) (v_j # vs))" by simp_all
  from "1.IH"[OF t this] obtain em' where em': "mark_path ?em1 l_he (v_j # vs) = Inr em'"
     "t_matching_halfedge em' = marked_labels (t_matching_halfedge ?em1) l_he (chain_halfedges ?m (v_j # vs))"
    unfolding m1 by blast
  let ?C = "chain_halfedges ?m (v_j # vs)"
  have tf: "vertex_from ?m t = v_i" "vertex_to ?m t = v_j"
    using halfedge_from_to_SomeD[OF t] by simp_all
  have vi: "v_i \<notin> set (v_j # vs)" using "1.prems"(1) by auto
  have n1: "Some t \<notin> set ?C"
    using chain_halfedges_in_set(1)[of t ?m "v_j # vs"] tf vi by auto
  have n2: "Some (opposite t) \<notin> set ?C"
    using chain_halfedges_in_set(2)[of "opposite t" ?m "v_j # vs"] tf vi
    by (auto simp: vertex_to_opposite)
  have "marked_labels (t_matching_halfedge ?em1) l_he ?C
        = marked_labels (t_matching_halfedge em) l_he (Some t # ?C)"
    using n1 n2 by (auto simp: marked_labels_def fun_eq_iff)
  with em' t show ?case by simp
qed (simp_all add: marked_labels_def)

lemma unmark_path_labels:
  assumes "distinct vs"
    "list_all (\<lambda>x. case x of None \<Rightarrow> False
                   | Some t \<Rightarrow> t_matching_halfedge em t = Some h \<and>
                              t_matching_halfedge em (opposite t) = Some (opposite h))
              (chain_halfedges (t_m em) vs)"
  shows "\<exists>em'. unmark_path em h vs = Inr em' \<and>
           t_matching_halfedge em' = unmarked_labels (t_matching_halfedge em) (chain_halfedges (t_m em) vs)"
  using assms
proof (induction em h vs rule: unmark_path.induct)
  case (1 em l_he v_i v_j vs)
  let ?m = "t_m em"
  let ?C = "chain_halfedges ?m (v_j # vs)"
  from "1.prems"(2) obtain t where t: "halfedge_from_to ?m v_i v_j = Some t"
    and l: "t_matching_halfedge em t = Some l_he"
           "t_matching_halfedge em (opposite t) = Some (opposite l_he)"
    by (auto split: option.splits)
  let ?em1 = "em\<lparr>t_matching_halfedge := (t_matching_halfedge em)(t := None, opposite t := None)\<rparr>"
  have tf: "vertex_from ?m t = v_i" "vertex_to ?m t = v_j"
    using halfedge_from_to_SomeD[OF t] by simp_all
  have vi: "v_i \<notin> set (v_j # vs)" using "1.prems"(1) by auto
  have n1: "Some t \<notin> set ?C"
    using chain_halfedges_in_set(1)[of t ?m "v_j # vs"] tf vi by auto
  have n2: "Some (opposite t) \<notin> set ?C"
    using chain_halfedges_in_set(2)[of "opposite t" ?m "v_j # vs"] tf vi
    by (auto simp: vertex_to_opposite)
  have keep: "list_all (\<lambda>x. case x of None \<Rightarrow> False
                   | Some t' \<Rightarrow> t_matching_halfedge ?em1 t' = Some l_he \<and>
                              t_matching_halfedge ?em1 (opposite t') = Some (opposite l_he))
              (chain_halfedges (t_m ?em1) (v_j # vs))"
    unfolding list_all_iff
  proof
    fix x assume x: "x \<in> set (chain_halfedges (t_m ?em1) (v_j # vs))"
    then have x': "x \<in> set ?C" by simp
    with "1.prems"(2) obtain t' where t': "x = Some t'" "t_matching_halfedge em t' = Some l_he"
       "t_matching_halfedge em (opposite t') = Some (opposite l_he)"
      by (auto simp: list_all_iff split: option.splits)
    have "t' \<noteq> t" "t' \<noteq> opposite t" using x' t' n1 n2 by auto
    moreover from this have "opposite t' \<noteq> t" "opposite t' \<noteq> opposite t"
      by (metis opposite_opposite)+
    ultimately show "case x of None \<Rightarrow> False
                   | Some t' \<Rightarrow> t_matching_halfedge ?em1 t' = Some l_he \<and>
                              t_matching_halfedge ?em1 (opposite t') = Some (opposite l_he)"
      using t' by simp
  qed
  have l': "\<not> t_matching_halfedge em t \<noteq> Some l_he"
       "\<not> t_matching_halfedge em (opposite t) \<noteq> Some (opposite l_he)"
    using l by simp_all
  from "1.prems"(1) have d: "distinct (v_j # vs)" by simp
  from "1.IH"[OF t l' d keep] obtain em' where em': "unmark_path ?em1 l_he (v_j # vs) = Inr em'"
     "t_matching_halfedge em' = unmarked_labels (t_matching_halfedge ?em1) ?C"
    by (auto simp del: fun_upd_apply)
  have "unmarked_labels (t_matching_halfedge ?em1) ?C
        = unmarked_labels (t_matching_halfedge em) (Some t # ?C)"
    by (auto simp: unmarked_labels_def fun_eq_iff)
  with em' t l show ?case by simp
qed (simp_all add: unmarked_labels_def)

lemma get_embedded_path_loop_unfold:
  "get_embedded_path_loop em l_he t_v_end t_v result =
     (if Some t_v \<noteq> t_v_end then
        get_embedded_path_loop em l_he t_v_end (label_step em l_he t_v) (result @ [t_v])
      else Some (result @ [t_v]))"
  unfolding label_step_def by (rule get_embedded_path_loop.simps)

lemma walk_chain:
  assumes "distinct vs" "vs \<noteq> []"
    and "\<And>i. Suc i < length vs \<Longrightarrow> label_step em l_he (vs ! i) = vs ! Suc i"
  shows "k < length vs \<Longrightarrow>
     get_embedded_path_loop em l_he (Some (last vs)) (vs ! k) result = Some (result @ drop k vs)"
proof (induction "length vs - k" arbitrary: k result)
  case 0
  then show ?case by simp
next
  case (Suc n)
  show ?case
  proof (cases "Suc k < length vs")
    case True
    have "vs ! k \<noteq> last vs"
      using True assms(1,2) by (auto simp: last_conv_nth nth_eq_iff_index_eq)
    moreover have "get_embedded_path_loop em l_he (Some (last vs)) (vs ! Suc k) (result @ [vs ! k])
        = Some ((result @ [vs ! k]) @ drop (Suc k) vs)"
      using Suc.hyps(1)[of "Suc k"] Suc.hyps(2) True by simp
    ultimately show ?thesis
      using True assms(3)[OF True] Suc.prems
      by (subst get_embedded_path_loop_unfold) (simp add: Cons_nth_drop_Suc)
  next
    case False
    with Suc.prems have k: "k = length vs - 1" by simp
    then have "vs ! k = last vs" using assms(2) by (simp add: last_conv_nth)
    moreover have "drop k vs = [last vs]"
      using k assms(2) Suc.prems
      by (metis Cons_nth_drop_Suc False calculation drop_all linorder_not_less not_less_eq)
    ultimately show ?thesis
      by (subst get_embedded_path_loop_unfold) simp
  qed
qed

lemma labelled_chain_step:
  assumes "labelled_chain em h vs" "Suc i < length vs"
  shows "\<exists>t. find (\<lambda>t. t_matching_halfedge em t = Some h) (outgoing_halfedges (t_m em) (vs ! i)) = Some t
           \<and> vertex_from (t_m em) t = vs ! i \<and> vertex_to (t_m em) t = vs ! Suc i"
proof -
  let ?m = "t_m em" and ?C = "chain_halfedges (t_m em) vs"
  have d: "distinct vs" using assms(1) by (simp add: labelled_chain_def)
  have "?C ! i \<in> set ?C" using assms(2) by (intro nth_mem) simp
  then obtain t0 where t0: "?C ! i = Some t0" "t_matching_halfedge em t0 = Some h"
    using assms(1) by (auto simp: labelled_chain_def list_all_iff split: option.splits)
  have "halfedge_from_to ?m (vs ! i) (vs ! Suc i) = Some t0"
    using t0(1) chain_halfedges_nth[OF assms(2)] by simp
  from halfedge_from_to_SomeD[OF this]
  have "t0 \<in> set (outgoing_halfedges ?m (vs ! i))"
    by (simp add: set_outgoing_halfedges)
  with t0(2) obtain t where t: "find (\<lambda>t. t_matching_halfedge em t = Some h)
         (outgoing_halfedges ?m (vs ! i)) = Some t"
    by (cases "find (\<lambda>t. t_matching_halfedge em t = Some h) (outgoing_halfedges ?m (vs ! i))")
       (auto simp: find_None_iff)
  then have tl: "t_matching_halfedge em t = Some h" and "t \<in> set (outgoing_halfedges ?m (vs ! i))"
    by (auto simp: find_Some_iff dest: nth_mem)
  then have tp: "t < n_halfedges ?m" "vertex_from ?m t = vs ! i"
    by (simp_all add: set_outgoing_halfedges)
  with tl assms(1) have "Some t \<in> set ?C"
    by (auto simp: labelled_chain_def list_all_iff)
  from chain_halfedges_endpoints[OF this] obtain j where
    j: "Suc j < length vs" "vertex_from ?m t = vs ! j" "vertex_to ?m t = vs ! Suc j" by auto
  with tp(2) d assms(2) have "j = i" by (auto simp: nth_eq_iff_index_eq)
  with j t tp show ?thesis by simp
qed

lemma labelled_chain_get_embedded_path:
  assumes "labelled_chain em h vs"
  shows "get_embedded_path em h = Some (Inr vs)"
proof -
  have vs: "distinct vs" "vs \<noteq> []" "2 \<le> length vs" using assms by (auto simp: labelled_chain_def)
  then have i0: "Suc 0 < length vs" by simp
  from labelled_chain_step[OF assms i0] obtain t where
    t: "find (\<lambda>t. t_matching_halfedge em t = Some h) (outgoing_halfedges (t_m em) (vs ! 0)) = Some t"
       "vertex_from (t_m em) t = vs ! 0" by auto
  have hd: "hd vs = vs ! 0" using vs(2) by (simp add: hd_conv_nth)
  have g: "get_embedded_target_halfedge em h = Inr (Some t)"
    using assms t(1) hd by (simp add: get_embedded_target_halfedge_def labelled_chain_def)
  have step: "\<And>i. Suc i < length vs \<Longrightarrow> label_step em h (vs ! i) = vs ! Suc i"
    using labelled_chain_step[OF assms] by (fastforce simp: label_step_def)
  have "get_embedded_path_loop em h (Some (last vs)) (vs ! 0) [] = Some ([] @ drop 0 vs)"
    by (rule walk_chain[OF vs(1,2) step]) (use vs in simp_all)
  then show ?thesis
    using g t(2) assms by (simp add: get_embedded_path_def labelled_chain_def)
qed

lemma get_embedded_path_loop_ends:
  "get_embedded_path_loop em l_he t_v_end t_v result = Some path \<Longrightarrow>
     t_v_end = Some (last path) \<and> hd path = hd (result @ [t_v])"
proof (induction em l_he t_v_end t_v result path
        rule: get_embedded_path_loop.raw_induct[rotated 1, consumes 1, case_names step])
  case (step loop em l_he t_v_end t_v result path)
  show ?case
  proof (cases "Some t_v \<noteq> t_v_end")
    case True
    with step(2) have "loop em l_he t_v_end (label_step em l_he t_v) (result @ [t_v]) = Some path"
      by (simp add: label_step_def)
    from step(1)[OF this] show ?thesis by (cases result) simp_all
  next
    case False
    with step(2) show ?thesis by auto
  qed
qed

lemma split_and_triangulate_mono:
  "n_vertices (fst (split_and_triangulate m e)) = Suc (n_vertices m)"
  "n_edges m < n_edges (fst (split_and_triangulate m e))"
  by (simp_all add: split_and_triangulate_def Let_def n_edges_def)

lemma split_path_frame:
  "split_path em p = Inr (em', vp) \<Longrightarrow>
     l_m em' = l_m em \<and> l_matching_vertex em' = l_matching_vertex em \<and>
     n_vertices (t_m em) \<le> n_vertices (t_m em') \<and> n_edges (t_m em) \<le> n_edges (t_m em') \<and>
     length vp = length p \<and>
     (\<forall>v < n_vertices (t_m em). t_pos em' v = t_pos em v)"
proof (induction p arbitrary: em em' vp)
  case Nil
  then show ?case by simp
next
  case (Cons vv vvs)
  show ?case
  proof (cases vv)
    case (Vertex t_v)
    from Cons.prems(1)[unfolded Vertex] obtain vp1 where
      "split_path em vvs = Inr (em', vp1)" "vp = t_v # vp1"
      by (rule split_path_VertexE)
    then show ?thesis using Cons.IH[of em em' vp1] by simp
  next
    case (Edge t_e)
    from Cons.prems(1)[unfolded Edge] obtain vp1 where
      r: "split_path (fst (split_edge em t_e)) vvs = Inr (em', vp1)"
         "vp = snd (split_edge em t_e) # vp1"
      by (rule split_path_EdgeE)
    from Cons.IH[OF r(1)] r(2) show ?thesis
      using split_and_triangulate_mono[of "t_m em" t_e]
      by (auto simp: attribute_resize_def)
  qed
qed

lemma split_path_vertices: "split_path em (map Vertex vs) = Inr (em, vs)"
  by (induction vs) simp_all

lemma split_path_take:
  "split_path em p = Inr (em', vp) \<Longrightarrow> i \<le> length p \<Longrightarrow>
     \<exists>em_i. split_path em (take i p) = Inr (em_i, take i vp) \<and>
            split_path em_i (drop i p) = Inr (em', drop i vp)"
proof (induction p arbitrary: em em' vp i)
  case Nil
  then show ?case by simp
next
  case (Cons vv vvs)
  show ?case
  proof (cases i)
    case 0
    then show ?thesis using Cons.prems by simp
  next
    case (Suc j)
    with Cons.prems(2) have j: "j \<le> length vvs" by simp
    show ?thesis
    proof (cases vv)
      case (Vertex t_v)
      from Cons.prems(1)[unfolded Vertex] obtain vp1 where
        r: "split_path em vvs = Inr (em', vp1)" "vp = t_v # vp1"
        by (rule split_path_VertexE)
      from Cons.IH[OF r(1) j] show ?thesis using r(2) Suc Vertex by auto
    next
      case (Edge t_e)
      from Cons.prems(1)[unfolded Edge] obtain vp1 where
        r: "t_e < n_edges (t_m em)" "split_path (fst (split_edge em t_e)) vvs = Inr (em', vp1)"
           "vp = snd (split_edge em t_e) # vp1"
        by (rule split_path_EdgeE)
      from Cons.IH[OF r(2) j] obtain em_i where
        "split_path (fst (split_edge em t_e)) (take j vvs) = Inr (em_i, take j vp1)"
        "split_path em_i (drop j vvs) = Inr (em', drop j vp1)" by auto
      then show ?thesis using r(1,3) Suc Edge
        by (auto simp: split_def simp del: split_edge_fields)
    qed
  qed
qed

lemma split_path_midpoint:
  assumes "split_path em p = Inr (em', vp)" "i < length p" "p ! i = Edge e"
  shows "\<exists>em_i. split_path em (take i p) = Inr (em_i, take i vp) \<and>
           e < n_edges (t_m em_i) \<and>
           vp ! i = n_vertices (t_m em_i) \<and>
           t_pos em' (vp ! i) =
             tg_mix (t_pos em_i (vertexA (t_m em_i) e)) (t_pos em_i (vertexB (t_m em_i) e)) (1 / 2)"
proof -
  from split_path_take[OF assms(1), of i] assms(2) obtain em_i where
    a: "split_path em (take i p) = Inr (em_i, take i vp)"
    and b: "split_path em_i (drop i p) = Inr (em', drop i vp)" by auto
  have "drop i p = Edge e # drop (Suc i) p"
    using assms(2,3) by (simp add: Cons_nth_drop_Suc[symmetric])
  with b have "split_path em_i (Edge e # drop (Suc i) p) = Inr (em', drop i vp)" by simp
  then obtain vp1 where
    r: "e < n_edges (t_m em_i)" "split_path (fst (split_edge em_i e)) (drop (Suc i) p) = Inr (em', vp1)"
       "drop i vp = snd (split_edge em_i e) # vp1"
    by (rule split_path_EdgeE)
  have len: "length vp = length p" using split_path_frame[OF assms(1)] by simp
  then have "drop i vp = vp ! i # drop (Suc i) vp"
    using assms(2) by (simp add: Cons_nth_drop_Suc)
  with r(3) have w: "vp ! i = n_vertices (t_m em_i)" by simp
  have "t_pos em' (n_vertices (t_m em_i)) = t_pos (fst (split_edge em_i e)) (n_vertices (t_m em_i))"
    using split_path_frame[OF r(2)] by (simp add: split_and_triangulate_mono)
  with a r(1) w show ?thesis by auto
qed

lemma get_embedded_path_endpoints:
  assumes "get_embedded_path em h = Some (Inr path)"
  shows "l_matching_vertex em (vertex_from (l_m em) h) = Some (hd path) \<and>
         l_matching_vertex em (vertex_to (l_m em) h) = Some (last path)"
proof -
  from assms obtain t where g: "get_embedded_target_halfedge em h = Inr (Some t)"
    and l: "get_embedded_path_loop em h (l_matching_vertex em (vertex_to (l_m em) h))
              (vertex_from (t_m em) t) [] = Some path"
    by (auto simp: get_embedded_path_def split: sum.splits option.splits)
  from g obtain t_v where tv: "l_matching_vertex em (vertex_from (l_m em) h) = Some t_v"
    and f: "find (\<lambda>t_h. t_matching_halfedge em t_h = Some h) (outgoing_halfedges (t_m em) t_v) = Some t"
    by (auto simp: get_embedded_target_halfedge_def split: if_splits option.splits)
  from f have "t \<in> set (outgoing_halfedges (t_m em) t_v)"
    by (auto simp: find_Some_iff dest: nth_mem)
  then have "vertex_from (t_m em) t = t_v" by (simp add: set_outgoing_halfedges)
  with get_embedded_path_loop_ends[OF l] tv show ?thesis by simp
qed


lemma labelled_chain_unembed:
  assumes "labelled_chain em h vs"
  shows "\<exists>em'. unembed_path em h = Some (Inr em') \<and>
           t_matching_halfedge em' = unmarked_labels (t_matching_halfedge em) (chain_halfedges (t_m em) vs)"
proof -
  have "distinct vs" and "list_all (\<lambda>x. case x of None \<Rightarrow> False
                   | Some t \<Rightarrow> t_matching_halfedge em t = Some h \<and>
                              t_matching_halfedge em (opposite t) = Some (opposite h))
              (chain_halfedges (t_m em) vs)"
    using assms by (simp_all add: labelled_chain_def)
  from unmark_path_labels[OF this] labelled_chain_get_embedded_path[OF assms]
  show ?thesis by (simp add: unembed_path_def)
qed

lemma unembed_path_frame:
  assumes "unembed_path em h = Some (Inr em')"
  shows "t_m em' = t_m em \<and> l_m em' = l_m em \<and> t_pos em' = t_pos em \<and>
     l_matching_vertex em' = l_matching_vertex em \<and> t_matching_vertex em' = t_matching_vertex em"
proof -
  from assms obtain vs where "unmark_path em h vs = Inr em'" by (rule unembed_path_InrE)
  then show ?thesis by (rule unmark_path_frame)
qed

lemma embed_path_mono:
  assumes "embed_path em h p = Inr em'"
  shows "n_vertices (t_m em) \<le> n_vertices (t_m em') \<and> n_edges (t_m em) \<le> n_edges (t_m em')"
proof -
  from assms obtain em1 vp where "split_path em p = Inr (em1, vp)" "mark_path em1 h vp = Inr em'"
    by (rule embed_path_InrE)
  then show ?thesis using split_path_frame[of em p em1 vp] mark_path_frame[of em1 h vp em'] by simp
qed


lemma labelled_chain_is_embedded:
  assumes "labelled_chain em h vs"
  shows "is_embedded em h = Inr True \<and> is_embedded em (opposite h) = Inr True"
proof -
  let ?m = "t_m em" and ?C = "chain_halfedges (t_m em) vs"
  have vs: "2 \<le> length vs" "vs \<noteq> []" using assms by (auto simp: labelled_chain_def)
  then have i0: "Suc 0 < length vs" by simp
  have hd: "hd vs = vs ! 0" using vs(2) by (simp add: hd_conv_nth)
  from labelled_chain_step[OF assms i0] hd assms
  have a: "is_embedded em h = Inr True"
    by (auto simp: is_embedded_def get_embedded_target_halfedge_def labelled_chain_def)
  define k where "k = length vs - 2"
  have k: "Suc k < length vs" "Suc k = length vs - 1" using vs(1) by (simp_all add: k_def)
  then have "?C ! k \<in> set ?C" by (intro nth_mem) simp
  then obtain t where t: "?C ! k = Some t"
      "t_matching_halfedge em (opposite t) = Some (opposite h)"
    using assms by (auto simp: labelled_chain_def list_all_iff split: option.splits)
  have "halfedge_from_to ?m (vs ! k) (vs ! Suc k) = Some t"
    using t(1) chain_halfedges_nth[OF k(1)] by simp
  from halfedge_from_to_SomeD[OF this] k(2) vs(2)
  have "opposite t \<in> set (outgoing_halfedges ?m (last vs))"
    by (simp add: set_outgoing_halfedges last_conv_nth)
  with t(2) have "find (\<lambda>t. t_matching_halfedge em t = Some (opposite h))
                    (outgoing_halfedges ?m (last vs)) \<noteq> None"
    by (auto simp: find_None_iff)
  with assms have "is_embedded em (opposite h) = Inr True"
    by (auto simp: is_embedded_def get_embedded_target_halfedge_def labelled_chain_def)
  with a show ?thesis by simp
qed

lemma mark_path_chain:
  assumes d: "distinct vs" and len: "2 \<le> length vs"
    and adj: "list_all (\<lambda>x. x \<noteq> None) (chain_halfedges (t_m em) vs)"
    and h: "h < n_halfedges (l_m em)"
    and m0: "l_matching_vertex em (vertex_from (l_m em) h) = Some (hd vs)"
    and m1: "l_matching_vertex em (vertex_to (l_m em) h) = Some (last vs)"
  shows "\<exists>em'. mark_path em h vs = Inr em' \<and>
           t_matching_halfedge em' = marked_labels (t_matching_halfedge em) h (chain_halfedges (t_m em) vs) \<and>
           t_m em' = t_m em \<and> l_m em' = l_m em \<and> t_pos em' = t_pos em \<and>
           l_matching_vertex em' = l_matching_vertex em \<and> t_matching_vertex em' = t_matching_vertex em \<and>
           list_all (\<lambda>x. case x of None \<Rightarrow> False
                   | Some t \<Rightarrow> t_matching_halfedge em' t = Some h \<and>
                              t_matching_halfedge em' (opposite t) = Some (opposite h))
              (chain_halfedges (t_m em') vs)"
proof -
  let ?C = "chain_halfedges (t_m em) vs"
  from mark_path_labels[OF d adj, of h] obtain em' where
    em': "mark_path em h vs = Inr em'"
         "t_matching_halfedge em' = marked_labels (t_matching_halfedge em) h ?C" by blast
  note fr = mark_path_frame[OF em'(1)]
  have tm: "t_m em' = t_m em" using fr by simp
  have la: "list_all (\<lambda>x. case x of None \<Rightarrow> False
                   | Some t \<Rightarrow> t_matching_halfedge em' t = Some h \<and>
                              t_matching_halfedge em' (opposite t) = Some (opposite h))
              (chain_halfedges (t_m em') vs)"
    unfolding list_all_iff tm
  proof
    fix x assume x: "x \<in> set ?C"
    with adj obtain t where t: "x = Some t" by (auto simp: list_all_iff)
    with x have "Some (opposite t) \<notin> set ?C" using chain_opposite_notin[OF d] by blast
    with x t show "case x of None \<Rightarrow> False
                   | Some t \<Rightarrow> t_matching_halfedge em' t = Some h \<and>
                              t_matching_halfedge em' (opposite t) = Some (opposite h)"
      by (simp add: em'(2) marked_labels_def)
  qed
  show ?thesis
    by (rule exI[of _ em']) (use em' fr la in blast)
qed


lemma split_path_hd_last:
  assumes "split_path em p = Inr (em', vp)" "p \<noteq> []"
  shows "(hd p = Vertex v \<longrightarrow> hd vp = v) \<and> (last p = Vertex v \<longrightarrow> last vp = v)"
  using assms
proof (induction p arbitrary: em em' vp)
  case Nil
  then show ?case by simp
next
  case (Cons vv vvs)
  show ?case
  proof (cases vv)
    case (Vertex t_v)
    from Cons.prems(1)[unfolded Vertex] obtain vp1 where
      r: "split_path em vvs = Inr (em', vp1)" "vp = t_v # vp1"
      by (rule split_path_VertexE)
    have "length vp1 = length vvs" using split_path_frame[OF r(1)] by simp
    then have "vp1 = [] \<longleftrightarrow> vvs = []" by auto
    then show ?thesis using Cons.IH[OF r(1)] r(2) Vertex by auto
  next
    case (Edge t_e)
    from Cons.prems(1)[unfolded Edge] obtain vp1 where
      r: "split_path (fst (split_edge em t_e)) vvs = Inr (em', vp1)"
         "vp = snd (split_edge em t_e) # vp1"
      by (rule split_path_EdgeE)
    have "length vp1 = length vvs" using split_path_frame[OF r(1)] by simp
    then have "vp1 = [] \<longleftrightarrow> vvs = []" by auto
    then show ?thesis using Cons.IH[OF r(1)] r(2) Edge by auto
  qed
qed

section \<open>The small instance, evaluated\<close>

lemma ex_embed: "embed_path ex_em 0 ex_path = Inr ex_em_embedded"
proof -
  have "case embed_path ex_em 0 ex_path of Inr em \<Rightarrow> True | Inl err \<Rightarrow> False"
    by code_simp
  then show ?thesis by (simp add: ex_em_embedded_def split: sum.splits)
qed

lemma ex_chain: "labelled_chain ex_em_embedded 0 [2, 4, 3]"
  by code_simp





lemma ex_split: "split_path ex_em ex_path = Inr (fst (split_edge ex_em 0), [2, 4, 3])"
proof -
  have "(0::nat) < n_edges (t_m ex_em)" "n_vertices (t_m ex_em) = 4" by code_simp+
  then show ?thesis by (simp add: ex_path_def split_def)
qed

lemma loop_stuck_aux:
  assumes "get_embedded_path_loop em h e v result = Some path"
  shows "\<not> (label_step em h v = v \<and> Some v \<noteq> e)"
  using assms
proof (induction em h e v result path
    rule: get_embedded_path_loop.raw_induct[rotated 1, consumes 1, case_names step])
  case (step f em h e v result path)
  show ?case
  proof
    assume s: "label_step em h v = v \<and> Some v \<noteq> e"
    with step.hyps have "f em h e v (result @ [v]) = Some path"
      by (simp add: label_step_def)
    from step.IH[OF this] s show False by blast
  qed
qed

lemma loop_stuck:
  assumes "label_step em h v = v" and "Some v \<noteq> e"
  shows "get_embedded_path_loop em h e v result = None"
  using loop_stuck_aux[of em h e v result] assms
  by (cases "get_embedded_path_loop em h e v result") auto

lemma is_complete_loop_all:
  "\<forall>l_e \<in> set l_es. is_embedded_edge em l_e = Inr True \<Longrightarrow> is_complete_loop em l_es = Inr True"
  by (induction l_es) simp_all

lemma ex_chain_opposite: "labelled_chain ex_em_embedded 1 [3, 4, 2]"
  by code_simp

text \<open>The embeddings built by proper calls keep their chains.\<close>

lemma labelled_chain_back_step:
  assumes lc: "labelled_chain em h vs" and sym: "labels_symmetric em" and j: "Suc j < length vs"
  shows "\<exists>t'. find (\<lambda>t. t_matching_halfedge em t = Some (opposite h))
                  (outgoing_halfedges (t_m em) (vs ! Suc j)) = Some t' \<and>
              vertex_from (t_m em) t' = vs ! Suc j \<and> vertex_to (t_m em) t' = vs ! j"
proof -
  let ?m = "t_m em"
  from lc have d: "distinct vs"
    and ch: "list_all (\<lambda>x. case x of None \<Rightarrow> False
                   | Some t \<Rightarrow> t_matching_halfedge em t = Some h \<and>
                              t_matching_halfedge em (opposite t) = Some (opposite h))
              (chain_halfedges ?m vs)"
    and all: "\<forall>t < n_halfedges ?m. t_matching_halfedge em t = Some h
                \<longrightarrow> Some t \<in> set (chain_halfedges ?m vs)"
    by (simp_all add: labelled_chain_def list_all_iff)
  from j have lj: "j < length (chain_halfedges ?m vs)"
    by (induction ?m vs arbitrary: j rule: chain_halfedges.induct) (auto simp: less_Suc_eq_0_disj)
  with ch have "case chain_halfedges ?m vs ! j of None \<Rightarrow> False
                   | Some t \<Rightarrow> t_matching_halfedge em t = Some h \<and>
                              t_matching_halfedge em (opposite t) = Some (opposite h)"
    by (simp add: list_all_length)
  then obtain t where t: "halfedge_from_to ?m (vs ! j) (vs ! Suc j) = Some t"
    "t_matching_halfedge em (opposite t) = Some (opposite h)"
    by (auto simp: chain_halfedges_nth[OF j] split: option.splits)
  note tD = halfedge_from_to_SomeD[OF t(1)]
  have "opposite t \<in> set (outgoing_halfedges ?m (vs ! Suc j))"
    using tD by (simp add: set_outgoing_halfedges)
  with t(2) obtain t' where
    f: "find (\<lambda>t. t_matching_halfedge em t = Some (opposite h)) (outgoing_halfedges ?m (vs ! Suc j)) = Some t'"
    by (cases "find (\<lambda>t. t_matching_halfedge em t = Some (opposite h)) (outgoing_halfedges ?m (vs ! Suc j))")
       (auto simp: find_None_iff)
  then have l': "t_matching_halfedge em t' = Some (opposite h)"
    and in': "t' \<in> set (outgoing_halfedges ?m (vs ! Suc j))"
    by (auto simp: find_Some_iff in_set_conv_nth)
  from in' have r': "t' < n_halfedges ?m" and from': "vertex_from ?m t' = vs ! Suc j"
    by (simp_all add: set_outgoing_halfedges)
  from sym l' have "t_matching_halfedge em (opposite t') = Some (opposite (opposite h))"
    unfolding labels_symmetric_def by blast
  then have "t_matching_halfedge em (opposite t') = Some h" by simp
  with all r' have "Some (opposite t') \<in> set (chain_halfedges ?m vs)" by simp
  from chain_halfedges_endpoints[OF this] obtain k where k: "Suc k < length vs"
    "vertex_from ?m (opposite t') = vs ! k" "vertex_to ?m (opposite t') = vs ! Suc k"
    by blast
  from k(3) from' have "vs ! Suc k = vs ! Suc j" by (simp add: vertex_to_opposite)
  with d k(1) j have "k = j" by (simp add: nth_eq_iff_index_eq)
  with k(2) have "vertex_to ?m t' = vs ! j" by simp
  with f from' show ?thesis by blast
qed

lemma labelled_chain_opposite_path:
  assumes lc: "labelled_chain em h vs" and sym: "labels_symmetric em"
  shows "get_embedded_path em (opposite h) = Some (Inr (rev vs))"
proof -
  let ?ws = "rev vs"
  let ?n = "length vs"
  from lc have d: "distinct vs" and len: "2 \<le> length vs" and h: "h < n_halfedges (l_m em)"
    and m0: "l_matching_vertex em (vertex_from (l_m em) h) = Some (hd vs)"
    and m1: "l_matching_vertex em (vertex_to (l_m em) h) = Some (last vs)"
    by (simp_all add: labelled_chain_def)
  have step: "\<And>i. Suc i < length ?ws \<Longrightarrow> label_step em (opposite h) (?ws ! i) = ?ws ! Suc i"
  proof -
    fix i assume i: "Suc i < length ?ws"
    then have j: "Suc (?n - Suc (Suc i)) < ?n" by simp
    from i have e: "?ws ! i = vs ! Suc (?n - Suc (Suc i))" "?ws ! Suc i = vs ! (?n - Suc (Suc i))"
      by (simp_all add: rev_nth Suc_diff_Suc)
    from labelled_chain_back_step[OF lc sym j] show "label_step em (opposite h) (?ws ! i) = ?ws ! Suc i"
      unfolding e by (auto simp: label_step_def)
  qed
  from len have ne: "?ws \<noteq> []" by auto
  have "get_embedded_path_loop em (opposite h) (Some (last ?ws)) (?ws ! 0) [] = Some ([] @ drop 0 ?ws)"
    using d ne step by (intro walk_chain) simp_all
  moreover have "?ws ! 0 = last vs" using ne by (simp add: hd_conv_nth[symmetric] hd_rev)
  moreover have "last ?ws = hd vs" using ne by (simp add: last_rev)
  ultimately have loop: "get_embedded_path_loop em (opposite h) (Some (hd vs)) (last vs) [] = Some (rev vs)"
    by simp
  from len have j0: "Suc (?n - 2) < ?n" by simp
  from len ne have lv: "vs ! Suc (?n - 2) = last vs"
    by (simp add: last_conv_nth Suc_diff_Suc numeral_2_eq_2)
  from labelled_chain_back_step[OF lc sym j0] obtain t' where
    f: "find (\<lambda>t. t_matching_halfedge em t = Some (opposite h)) (outgoing_halfedges (t_m em) (last vs)) = Some t'"
    and fr: "vertex_from (t_m em) t' = last vs"
    unfolding lv by blast
  from h m0 m1 f fr loop show ?thesis
    by (simp add: get_embedded_path_def get_embedded_target_halfedge_def vertex_to_opposite)
qed

lemma third_vertex_in_face:
  "third_vertex a b f = Some c \<Longrightarrow> c = fst f \<or> c = fst (snd f) \<or> c = snd (snd f)"
  by (cases f) (auto split: if_splits)

lemma mesh_ok_split:
  assumes ok: "mesh_ok m" and e: "e < n_edges m"
  shows "mesh_ok (fst (split_and_triangulate m e))"
proof -
  let ?w = "n_vertices m"
  from ok have E: "\<And>a b. (a, b) \<in> set (edge_list m) \<Longrightarrow> a < ?w \<and> b < ?w"
    and F: "\<And>x y z. (x, y, z) \<in> set (face_list m) \<Longrightarrow> x < ?w \<and> y < ?w \<and> z < ?w"
    by (auto simp: mesh_ok_def list_all_iff)
  from e have "edge_list m ! e \<in> set (edge_list m)" by (simp add: n_edges_def)
  with E[of "fst (edge_list m ! e)" "snd (edge_list m ! e)"]
  have ab: "vertexA m e < ?w" "vertexB m e < ?w" by (simp_all add: vertexA_def vertexB_def)
  have facing: "\<And>c. c \<in> set (List.map_filter (third_vertex (vertexA m e) (vertexB m e)) (face_list m))
                 \<Longrightarrow> c < ?w"
  proof -
    fix c assume "c \<in> set (List.map_filter (third_vertex (vertexA m e) (vertexB m e)) (face_list m))"
    then obtain f where f: "f \<in> set (face_list m)" "third_vertex (vertexA m e) (vertexB m e) f = Some c"
      by (auto simp: List.map_filter_def)
    from third_vertex_in_face[OF f(2)] F[of "fst f" "fst (snd f)" "snd (snd f)"] f(1)
    show "c < ?w" by auto
  qed
  have "list_all (\<lambda>(a, b). a < Suc ?w \<and> b < Suc ?w)
          ((edge_list m)[e := (vertexA m e, ?w)] @ [(?w, vertexB m e)] @
           map (\<lambda>c. (?w, c)) (List.map_filter (third_vertex (vertexA m e) (vertexB m e)) (face_list m)))"
    unfolding list_all_iff
  proof (intro ballI)
    fix x assume x: "x \<in> set ((edge_list m)[e := (vertexA m e, ?w)] @ [(?w, vertexB m e)] @
           map (\<lambda>c. (?w, c)) (List.map_filter (third_vertex (vertexA m e) (vertexB m e)) (face_list m)))"
    then consider "x \<in> set ((edge_list m)[e := (vertexA m e, ?w)])" | "x = (?w, vertexB m e)"
      | c where "x = (?w, c)" "c \<in> set (List.map_filter (third_vertex (vertexA m e) (vertexB m e)) (face_list m))"
      by auto
    then show "case x of (a, b) \<Rightarrow> a < Suc ?w \<and> b < Suc ?w"
    proof cases
      case 1
      then have "x \<in> insert (vertexA m e, ?w) (set (edge_list m))"
        using set_update_subset_insert by fastforce
      with E[of "fst x" "snd x"] ab show ?thesis by (cases x) (auto simp: less_Suc_eq)
    next
      case 2
      with ab show ?thesis by simp
    next
      case 3
      with facing[of c] show ?thesis by simp
    qed
  qed
  moreover have "list_all (\<lambda>(x, y, z). x < Suc ?w \<and> y < Suc ?w \<and> z < Suc ?w)
          (concat (map (\<lambda>f. case third_vertex (vertexA m e) (vertexB m e) f of
                               None \<Rightarrow> [f]
                             | Some c \<Rightarrow> [subst_vertex (vertexB m e) ?w f, subst_vertex (vertexA m e) ?w f])
                       (face_list m)))"
    unfolding list_all_iff
  proof (intro ballI)
    fix g assume "g \<in> set (concat (map (\<lambda>f. case third_vertex (vertexA m e) (vertexB m e) f of
                               None \<Rightarrow> [f]
                             | Some c \<Rightarrow> [subst_vertex (vertexB m e) ?w f, subst_vertex (vertexA m e) ?w f])
                       (face_list m)))"
    then obtain f where f: "f \<in> set (face_list m)"
      "g = f \<or> g = subst_vertex (vertexB m e) ?w f \<or> g = subst_vertex (vertexA m e) ?w f"
      by (auto split: option.splits)
    obtain x y z where xyz: "f = (x, y, z)" by (cases f) auto
    with f(1) F[of x y z] have "x < ?w \<and> y < ?w \<and> z < ?w" by simp
    with f(2) xyz show "case g of (x, y, z) \<Rightarrow> x < Suc ?w \<and> y < Suc ?w \<and> z < Suc ?w"
      by (auto simp: less_Suc_eq)
  qed
  ultimately show ?thesis
    by (simp add: mesh_ok_def split_and_triangulate_def Let_def)
qed

lemma mesh_ok_vertex_to:
  assumes "mesh_ok m" and "h < n_halfedges m"
  shows "vertex_to m h < n_vertices m"
proof -
  from assms(2) have "h div 2 < length (edge_list m)" by (simp add: n_halfedges_def)
  then have "edge_list m ! (h div 2) \<in> set (edge_list m)" by (rule nth_mem)
  with assms(1) show ?thesis
    by (auto simp: mesh_ok_def list_all_iff vertex_to_def vertexA_def vertexB_def)
qed

lemma mesh_ok_vertex_from:
  assumes "mesh_ok m" and "h < n_halfedges m"
  shows "vertex_from m h < n_vertices m"
  using mesh_ok_vertex_to[OF assms(1), of "opposite h"] assms(2) by (simp add: vertex_from_def)

lemma find_filter: "find P (filter Q xs) = find (\<lambda>x. Q x \<and> P x) xs"
  by (induction xs) simp_all

lemma halfedge_from_to_iff:
  "halfedge_from_to m a b = Some t \<longleftrightarrow>
     t < n_halfedges m \<and> vertex_from m t = a \<and> vertex_to m t = b \<and>
     (\<forall>k<t. \<not> (vertex_from m k = a \<and> vertex_to m k = b))"
proof -
  have "halfedge_from_to m a b = find (\<lambda>h. vertex_from m h = a \<and> vertex_to m h = b) [0..<n_halfedges m]"
    by (simp add: halfedge_from_to_def outgoing_halfedges_def find_filter)
  also have "\<dots> = Some t \<longleftrightarrow>
     t < n_halfedges m \<and> vertex_from m t = a \<and> vertex_to m t = b \<and>
     (\<forall>k<t. \<not> (vertex_from m k = a \<and> vertex_to m k = b))"
    unfolding find_Some_iff by auto
  finally show ?thesis .
qed

lemma opposite_div2 [simp]: "opposite k div 2 = k div 2"
  by (auto simp: opposite_def elim!: evenE oddE)

lemma split_old_edge:
  assumes "e' < n_edges m" "e' \<noteq> e"
  shows "edge_list (fst (split_and_triangulate m e)) ! e' = edge_list m ! e'"
  using assms by (simp add: split_and_triangulate_def Let_def nth_append n_edges_def)

lemma split_this_edge:
  assumes "e < n_edges m"
  shows "edge_list (fst (split_and_triangulate m e)) ! e = (vertexA m e, n_vertices m)"
  using assms by (simp add: split_and_triangulate_def Let_def nth_append n_edges_def)

lemma split_old_halfedge:
  assumes "k < n_halfedges m" "k div 2 \<noteq> e"
  shows "vertex_to (fst (split_and_triangulate m e)) k = vertex_to m k"
    and "vertex_from (fst (split_and_triangulate m e)) k = vertex_from m k"
proof -
  from assms(1) have "k div 2 < n_edges m" by (simp add: n_halfedges_def n_edges_def)
  from split_old_edge[OF this assms(2)]
  show "vertex_to (fst (split_and_triangulate m e)) k = vertex_to m k"
    by (simp add: vertex_to_def vertexA_def vertexB_def)
  from assms have "opposite k div 2 < n_edges m" "opposite k div 2 \<noteq> e"
    by (simp_all add: n_halfedges_def n_edges_def)
  from split_old_edge[OF this]
  show "vertex_from (fst (split_and_triangulate m e)) k = vertex_from m k"
    by (simp add: vertex_from_def vertex_to_def vertexA_def vertexB_def)
qed

lemma split_this_halfedge:
  assumes "e < n_edges m" "k div 2 = e"
  shows "vertex_to (fst (split_and_triangulate m e)) k = n_vertices m \<or>
         vertex_from (fst (split_and_triangulate m e)) k = n_vertices m"
proof (cases "even k")
  case True
  then have "odd (opposite k)" by (auto simp: opposite_def)
  with split_this_edge[OF assms(1)] assms(2) show ?thesis
    by (simp add: vertex_from_def vertex_to_def vertexB_def)
next
  case False
  with split_this_edge[OF assms(1)] assms(2) show ?thesis
    by (simp add: vertex_to_def vertexB_def)
qed

lemma split_n_halfedges: "n_halfedges m \<le> n_halfedges (fst (split_and_triangulate m e))"
  using split_and_triangulate_mono(2)[of m e] by (simp add: n_halfedges_def n_edges_def)

lemma halfedge_from_to_split:
  assumes ok: "mesh_ok m" and e: "e < n_edges m"
    and t: "halfedge_from_to m a b = Some t" and ne: "t div 2 \<noteq> e"
  shows "halfedge_from_to (fst (split_and_triangulate m e)) a b = Some t"
proof -
  let ?m' = "fst (split_and_triangulate m e)"
  from t have tn: "t < n_halfedges m" and fa: "vertex_from m t = a" and tb: "vertex_to m t = b"
    and first: "\<forall>k<t. \<not> (vertex_from m k = a \<and> vertex_to m k = b)"
    unfolding halfedge_from_to_iff by blast+
  from mesh_ok_vertex_from[OF ok tn] mesh_ok_vertex_to[OF ok tn] fa tb
  have ab: "a < n_vertices m" "b < n_vertices m" by simp_all
  have "\<forall>k<t. \<not> (vertex_from ?m' k = a \<and> vertex_to ?m' k = b)"
  proof (intro allI impI)
    fix k assume k: "k < t"
    with tn have kn: "k < n_halfedges m" by simp
    show "\<not> (vertex_from ?m' k = a \<and> vertex_to ?m' k = b)"
    proof (cases "k div 2 = e")
      case True
      from split_this_halfedge[OF e True] ab show ?thesis by auto
    next
      case False
      from split_old_halfedge[OF kn False] first k show ?thesis by simp
    qed
  qed
  moreover from tn split_n_halfedges[of m e] have "t < n_halfedges ?m'" by simp
  moreover from split_old_halfedge[OF tn ne] fa tb
  have "vertex_from ?m' t = a" "vertex_to ?m' t = b" by simp_all
  ultimately show ?thesis unfolding halfedge_from_to_iff by blast
qed

lemma div2_cases: "t div 2 = e \<Longrightarrow> t = halfedgeA e \<or> t = halfedgeB e"
  by (auto simp: halfedgeA_def halfedgeB_def)

lemma chain_halfedges_split:
  assumes ok: "mesh_ok m" and e: "e < n_edges m"
    and ch: "\<forall>x \<in> set (chain_halfedges m vs). \<exists>t. x = Some t \<and> t div 2 \<noteq> e"
  shows "chain_halfedges (fst (split_and_triangulate m e)) vs = chain_halfedges m vs"
proof (rule nth_equalityI)
  show "length (chain_halfedges (fst (split_and_triangulate m e)) vs) = length (chain_halfedges m vs)"
    by simp
next
  fix i assume "i < length (chain_halfedges (fst (split_and_triangulate m e)) vs)"
  then have i: "Suc i < length vs" by simp
  then have "chain_halfedges m vs ! i \<in> set (chain_halfedges m vs)" by simp
  with ch obtain t where t: "chain_halfedges m vs ! i = Some t" "t div 2 \<noteq> e" by blast
  from t(1) have "halfedge_from_to m (vs ! i) (vs ! Suc i) = Some t"
    by (simp add: chain_halfedges_nth[OF i])
  from halfedge_from_to_split[OF ok e this t(2)] t(1)
  show "chain_halfedges (fst (split_and_triangulate m e)) vs ! i = chain_halfedges m vs ! i"
    by (simp add: chain_halfedges_nth[OF i])
qed

lemma labelled_chain_split_edge:
  assumes lc: "labelled_chain em h vs" and ok: "mesh_ok (t_m em)" and e: "e < n_edges (t_m em)"
    and u: "t_matching_halfedge em (halfedgeA e) = None" "t_matching_halfedge em (halfedgeB e) = None"
  shows "labelled_chain (fst (split_edge em e)) h vs"
proof -
  let ?m = "t_m em"
  let ?em' = "fst (split_edge em e)"
  from lc have ch: "\<forall>x \<in> set (chain_halfedges ?m vs). case x of None \<Rightarrow> False
                   | Some t \<Rightarrow> t_matching_halfedge em t = Some h \<and>
                              t_matching_halfedge em (opposite t) = Some (opposite h)"
    and all: "\<forall>t < n_halfedges ?m. t_matching_halfedge em t = Some h
                \<longrightarrow> Some t \<in> set (chain_halfedges ?m vs)"
    by (simp_all add: labelled_chain_def list_all_iff)
  have ch': "\<forall>x \<in> set (chain_halfedges ?m vs). \<exists>t. x = Some t \<and> t div 2 \<noteq> e"
  proof
    fix x assume x: "x \<in> set (chain_halfedges ?m vs)"
    with ch obtain t where t: "x = Some t" "t_matching_halfedge em t = Some h"
      by (cases x) auto
    with u div2_cases[of t e] show "\<exists>t. x = Some t \<and> t div 2 \<noteq> e" by auto
  qed
  have eq: "chain_halfedges (t_m ?em') vs = chain_halfedges ?m vs"
    using chain_halfedges_split[OF ok e ch'] by simp
  have c1: "\<forall>x \<in> set (chain_halfedges ?m vs). case x of None \<Rightarrow> False
                   | Some t \<Rightarrow> t_matching_halfedge ?em' t = Some h \<and>
                              t_matching_halfedge ?em' (opposite t) = Some (opposite h)"
  proof
    fix x assume x: "x \<in> set (chain_halfedges ?m vs)"
    with ch obtain t where t: "x = Some t" "t_matching_halfedge em t = Some h"
      "t_matching_halfedge em (opposite t) = Some (opposite h)"
      by (cases x) auto
    from x t(1) chain_halfedges_endpoints[of t ?m vs] have "t < n_halfedges ?m" by blast
    with t show "case x of None \<Rightarrow> False
                   | Some t \<Rightarrow> t_matching_halfedge ?em' t = Some h \<and>
                              t_matching_halfedge ?em' (opposite t) = Some (opposite h)"
      by (simp add: attribute_resize_def)
  qed
  have c2: "\<forall>t < n_halfedges (t_m ?em'). t_matching_halfedge ?em' t = Some h
                \<longrightarrow> Some t \<in> set (chain_halfedges ?m vs)"
    using all by (auto simp: attribute_resize_def split: if_splits)
  from lc c1 c2 show ?thesis
    unfolding labelled_chain_def eq list_all_iff by simp
qed

lemma edge_unlabelled_split_edge:
  assumes "edge_unlabelled em l_e"
  shows "edge_unlabelled (fst (split_edge em e)) l_e"
  using assms unfolding edge_unlabelled_def list_all_iff
  by (auto simp: attribute_resize_def)

lemma frame_split_path:
  assumes "split_path em p = Inr (em1, vp)" and "path_unblocked em p" and "mesh_ok (t_m em)"
  shows "mesh_ok (t_m em1) \<and>
         (\<forall>h vs. labelled_chain em h vs \<longrightarrow> labelled_chain em1 h vs) \<and>
         (\<forall>l_e. edge_unlabelled em l_e \<longrightarrow> edge_unlabelled em1 l_e)"
  using assms
proof (induction p arbitrary: em em1 vp)
  case Nil
  then show ?case by simp
next
  case (Cons vv p)
  show ?case
  proof (cases vv)
    case (Vertex t_v)
    from Cons.prems(1)[unfolded Vertex] obtain vp' where
      "split_path em p = Inr (em1, vp')" by (rule split_path_VertexE)
    from Cons.IH[OF this] Cons.prems(2,3) Vertex show ?thesis by simp
  next
    case (Edge t_e)
    from Cons.prems(1)[unfolded Edge] obtain vp' where
      e: "t_e < n_edges (t_m em)" and s: "split_path (fst (split_edge em t_e)) p = Inr (em1, vp')"
      by (rule split_path_EdgeE)
    from Cons.prems(2) Edge have u: "t_matching_halfedge em (halfedgeA t_e) = None"
      "t_matching_halfedge em (halfedgeB t_e) = None"
      and pu: "path_unblocked (fst (split_edge em t_e)) p"
      by simp_all
    have ok': "mesh_ok (t_m (fst (split_edge em t_e)))"
      using mesh_ok_split[OF Cons.prems(3) e] by simp
    from Cons.IH[OF s pu ok'] labelled_chain_split_edge[OF _ Cons.prems(3) e u]
      edge_unlabelled_split_edge[of em _ t_e]
    show ?thesis by blast
  qed
qed

lemma labelled_chain_marked:
  assumes lc: "labelled_chain em1 g vs"
    and unl: "\<forall>x \<in> set C. \<exists>t. x = Some t \<and> t_matching_halfedge em1 t = None \<and>
                                  t_matching_halfedge em1 (opposite t) = None"
    and g: "g \<noteq> h" "g \<noteq> opposite h"
    and lab: "t_matching_halfedge em' = marked_labels (t_matching_halfedge em1) h C"
    and fr: "t_m em' = t_m em1" "l_m em' = l_m em1" "l_matching_vertex em' = l_matching_vertex em1"
  shows "labelled_chain em' g vs"
proof -
  let ?f = "t_matching_halfedge em1"
  from lc have ch: "\<forall>x \<in> set (chain_halfedges (t_m em1) vs). case x of None \<Rightarrow> False
                   | Some t \<Rightarrow> ?f t = Some g \<and> ?f (opposite t) = Some (opposite g)"
    and all: "\<forall>t < n_halfedges (t_m em1). ?f t = Some g
                \<longrightarrow> Some t \<in> set (chain_halfedges (t_m em1) vs)"
    by (simp_all add: labelled_chain_def list_all_iff)
  have keep: "\<And>t. ?f t \<noteq> None \<Longrightarrow> marked_labels ?f h C t = ?f t"
  proof -
    fix t assume nn: "?f t \<noteq> None"
    from unl nn have a: "Some t \<notin> set C" by auto
    have b: "Some (opposite t) \<notin> set C"
    proof
      assume "Some (opposite t) \<in> set C"
      with unl have "?f (opposite (opposite t)) = None" by blast
      with nn show False by simp
    qed
    from a b show "marked_labels ?f h C t = ?f t" by (simp add: marked_labels_def)
  qed
  have c1: "\<forall>x \<in> set (chain_halfedges (t_m em1) vs). case x of None \<Rightarrow> False
                   | Some t \<Rightarrow> marked_labels ?f h C t = Some g \<and>
                              marked_labels ?f h C (opposite t) = Some (opposite g)"
  proof
    fix x assume "x \<in> set (chain_halfedges (t_m em1) vs)"
    with ch obtain t where t: "x = Some t" "?f t = Some g" "?f (opposite t) = Some (opposite g)"
      by (cases x) auto
    from keep[of t] keep[of "opposite t"] t
    show "case x of None \<Rightarrow> False
                   | Some t \<Rightarrow> marked_labels ?f h C t = Some g \<and>
                              marked_labels ?f h C (opposite t) = Some (opposite g)"
      by simp
  qed
  have c2: "\<forall>t < n_halfedges (t_m em1). marked_labels ?f h C t = Some g
                \<longrightarrow> Some t \<in> set (chain_halfedges (t_m em1) vs)"
    using all g by (auto simp: marked_labels_def split: if_splits)
  from lc c1 c2 show ?thesis
    unfolding labelled_chain_def list_all_iff lab fr by simp
qed

lemma edge_of_halfedge: "h = halfedgeA (h div 2) \<or> h = halfedgeB (h div 2)"
  by (auto simp: halfedgeA_def halfedgeB_def elim!: evenE oddE)

lemma opposite_halfedge_div2: "opposite h = halfedgeA (h div 2) \<or> opposite h = halfedgeB (h div 2)"
  using edge_of_halfedge[of "opposite h"] by simp

lemma halfedge_div2 [simp]: "halfedgeA e div 2 = e" "halfedgeB e div 2 = e"
  by (simp_all add: halfedgeA_def halfedgeB_def)

lemma chains_inv_embed:
  assumes inv: "chains_inv em" and pc: "proper_call em h p" and emb: "embed_path em h p = Inr em'"
  shows "chains_inv em'"
proof -
  from emb obtain em1 vp where sp: "split_path em p = Inr (em1, vp)"
    and mk: "mark_path em1 h vp = Inr em'" and len: "2 \<le> length p"
    by (rule embed_path_InrE)
  let ?C = "chain_halfedges (t_m em1) vp"
  let ?f = "t_matching_halfedge em1"
  let ?l0 = "h div 2"
  from inv have ok: "mesh_ok (t_m em)" and sym: "labels_symmetric em"
    and edges: "\<forall>l_e < n_edges (l_m em).
        edge_unlabelled em l_e \<or> (\<exists>vs. labelled_chain em (halfedgeA l_e) vs) \<or>
        (\<exists>vs. labelled_chain em (halfedgeB l_e) vs)"
    by (simp_all add: chains_inv_def)
  from pc sp have hn: "h < n_halfedges (l_m em)" and un: "edge_unlabelled em ?l0"
    and pu: "path_unblocked em p" and d: "distinct vp"
    and unl: "\<forall>x \<in> set ?C. \<exists>t. x = Some t \<and> ?f t = None \<and> ?f (opposite t) = None"
    and e0: "\<exists>v0. hd p = Vertex v0 \<and> l_matching_vertex em (vertex_from (l_m em) h) = Some v0"
    and e1: "\<exists>v1. last p = Vertex v1 \<and> l_matching_vertex em (vertex_to (l_m em) h) = Some v1"
    by (auto simp: proper_call_def list_all_iff split: option.splits VirtualVertex.splits)
  from frame_split_path[OF sp pu ok] have ok1: "mesh_ok (t_m em1)"
    and keep1: "\<And>g vs. labelled_chain em g vs \<Longrightarrow> labelled_chain em1 g vs"
    and un1: "\<And>l_e. edge_unlabelled em l_e \<Longrightarrow> edge_unlabelled em1 l_e"
    by blast+
  from split_path_frame[OF sp] have lm1: "l_m em1 = l_m em"
    and lmv1: "l_matching_vertex em1 = l_matching_vertex em" and lvp: "length vp = length p"
    by simp_all
  from len have pne: "p \<noteq> []" by auto
  from split_path_hd_last[OF sp pne] e0 e1
  have m0: "l_matching_vertex em1 (vertex_from (l_m em1) h) = Some (hd vp)"
    and m1: "l_matching_vertex em1 (vertex_to (l_m em1) h) = Some (last vp)"
    by (auto simp: lm1 lmv1)
  from unl have adj: "list_all (\<lambda>x. x \<noteq> None) ?C" unfolding list_all_iff by auto
  from len lvp have len': "2 \<le> length vp" by simp
  from hn lm1 have hn1: "h < n_halfedges (l_m em1)" by simp
  from mark_path_chain[OF d len' adj hn1 m0 m1] obtain em2 where
    mk2: "mark_path em1 h vp = Inr em2"
    and lab2: "t_matching_halfedge em2 = marked_labels ?f h ?C"
    and fr2: "t_m em2 = t_m em1" "l_m em2 = l_m em1" "l_matching_vertex em2 = l_matching_vertex em1"
    and marked2: "list_all (\<lambda>x. case x of None \<Rightarrow> False
                   | Some t \<Rightarrow> t_matching_halfedge em2 t = Some h \<and>
                              t_matching_halfedge em2 (opposite t) = Some (opposite h))
              (chain_halfedges (t_m em2) vp)"
    by blast
  from mk mk2 have eq2: "em2 = em'" by simp
  note lab = lab2[unfolded eq2] and tm = fr2(1)[unfolded eq2] and lm = fr2(2)[unfolded eq2]
    and lmv = fr2(3)[unfolded eq2] and marked = marked2[unfolded eq2]
  have sym': "labels_symmetric em'"
    using mk labels_symmetric_split_path[OF sp sym] by (rule labels_symmetric_mark_path)
  from un1[OF un] have un0: "\<forall>t < n_halfedges (t_m em1). ?f t \<noteq> Some (halfedgeA ?l0) \<and>
                               ?f t \<noteq> Some (halfedgeB ?l0)"
    by (simp add: edge_unlabelled_def list_all_iff)
  have new: "labelled_chain em' h vp"
  proof -
    have "\<forall>t < n_halfedges (t_m em'). t_matching_halfedge em' t = Some h
            \<longrightarrow> Some t \<in> set (chain_halfedges (t_m em') vp)"
    proof (intro allI impI)
      fix t assume t: "t < n_halfedges (t_m em')" "t_matching_halfedge em' t = Some h"
      show "Some t \<in> set (chain_halfedges (t_m em') vp)"
      proof (rule ccontr)
        assume n: "Some t \<notin> set (chain_halfedges (t_m em') vp)"
        with t(2) have "?f t = Some h"
          by (auto simp: lab tm marked_labels_def split: if_splits)
        with un0 t(1) edge_of_halfedge[of h] show False by (auto simp: tm)
      qed
    qed
    with marked d len' hn1 m0 m1 show ?thesis
      unfolding labelled_chain_def list_all_iff by (simp add: lm lmv)
  qed
  have "\<forall>l_e < n_edges (l_m em').
        edge_unlabelled em' l_e \<or> (\<exists>vs. labelled_chain em' (halfedgeA l_e) vs) \<or>
        (\<exists>vs. labelled_chain em' (halfedgeB l_e) vs)"
  proof (intro allI impI)
    fix l_e assume "l_e < n_edges (l_m em')"
    then have le: "l_e < n_edges (l_m em)" by (simp add: lm lm1)
    show "edge_unlabelled em' l_e \<or> (\<exists>vs. labelled_chain em' (halfedgeA l_e) vs) \<or>
        (\<exists>vs. labelled_chain em' (halfedgeB l_e) vs)"
    proof (cases "l_e = ?l0")
      case True
      with new edge_of_halfedge[of h] show ?thesis by metis
    next
      case False
      then have gA: "halfedgeA l_e \<noteq> h" "halfedgeA l_e \<noteq> opposite h"
        and gB: "halfedgeB l_e \<noteq> h" "halfedgeB l_e \<noteq> opposite h"
        using halfedge_div2[of l_e] opposite_div2[of h] by metis+
      from edges le consider "edge_unlabelled em l_e"
        | vs where "labelled_chain em (halfedgeA l_e) vs"
        | vs where "labelled_chain em (halfedgeB l_e) vs"
        by blast
      then show ?thesis
      proof cases
        case 1
        from un1[OF 1] gA gB have "edge_unlabelled em' l_e"
          unfolding edge_unlabelled_def list_all_iff
          by (auto simp: lab tm marked_labels_def)
        then show ?thesis by blast
      next
        case 2
        from labelled_chain_marked[OF keep1[OF 2] unl gA lab tm lm lmv] show ?thesis by blast
      next
        case 3
        from labelled_chain_marked[OF keep1[OF 3] unl gB lab tm lm lmv] show ?thesis by blast
      qed
    qed
  qed
  with ok1 sym' show ?thesis by (simp add: chains_inv_def tm)
qed

lemma chains_inv_init:
  assumes "mesh_ok (input_t_m inp)"
  shows "chains_inv (Embedding_init inp)"
proof -
  have "t_matching_halfedge (Embedding_init inp) = (\<lambda>t. None)" "t_m (Embedding_init inp) = input_t_m inp"
    by (simp_all add: Embedding_init_def split_def Let_def)
  with assms labels_symmetric_init[of inp] show ?thesis
    by (simp add: chains_inv_def edge_unlabelled_def list_all_iff)
qed

lemma built_chains_inv:
  assumes "mesh_ok (input_t_m inp)" and "built inp em"
  shows "chains_inv em"
  using assms(2)
proof (induction rule: built.induct)
  case fresh
  from assms(1) show ?case by (rule chains_inv_init)
next
  case (embedded em l_he path em')
  from embedded.IH embedded.hyps(2,3) show ?case by (rule chains_inv_embed)
qed

lemma is_complete_loop_TrueD:
  "is_complete_loop em l_es = Inr True \<Longrightarrow> \<forall>l_e \<in> set l_es. is_embedded_edge em l_e = Inr True"
  by (induction l_es) (auto split: sum.splits if_splits)

lemma opposite_halfedgeA: "opposite (halfedgeA e) = halfedgeB e"
  by (simp add: opposite_def halfedgeA_def halfedgeB_def)

lemma opposite_halfedgeB: "opposite (halfedgeB e) = halfedgeA e"
  by (simp add: opposite_def halfedgeA_def halfedgeB_def)

lemma chain_both_directions:
  assumes lc: "labelled_chain em g vs" and sym: "labels_symmetric em"
    and h: "h = g \<or> h = opposite g"
  shows "\<exists>ws. get_embedded_path em h = Some (Inr ws) \<and> 2 \<le> length ws \<and>
            l_matching_vertex em (vertex_from (l_m em) h) = Some (hd ws) \<and>
            l_matching_vertex em (vertex_to (l_m em) h) = Some (last ws)"
proof -
  from lc have len: "2 \<le> length vs" by (simp add: labelled_chain_def)
  from h show ?thesis
  proof
    assume "h = g"
    with labelled_chain_get_embedded_path[OF lc] have p: "get_embedded_path em h = Some (Inr vs)"
      by simp
    from get_embedded_path_endpoints[OF p] p len show ?thesis by blast
  next
    assume "h = opposite g"
    with labelled_chain_opposite_path[OF lc sym]
    have p: "get_embedded_path em h = Some (Inr (rev vs))" by simp
    from get_embedded_path_endpoints[OF p] p len show ?thesis
      by (intro exI[of _ "rev vs"]) simp
  qed
qed

lemma chains_inv_complete:
  assumes inv: "chains_inv em" and c: "is_complete em = Inr True"
  shows "\<forall>h < n_halfedges (l_m em). \<exists>vs. get_embedded_path em h = Some (Inr vs) \<and> 2 \<le> length vs \<and>
            l_matching_vertex em (vertex_from (l_m em) h) = Some (hd vs) \<and>
            l_matching_vertex em (vertex_to (l_m em) h) = Some (last vs)"
proof (intro allI impI)
  fix h assume h: "h < n_halfedges (l_m em)"
  let ?e = "h div 2"
  from h have e: "?e < n_edges (l_m em)" by (simp add: n_halfedges_def n_edges_def)
  from inv have sym: "labels_symmetric em"
    and edges: "edge_unlabelled em ?e \<or> (\<exists>vs. labelled_chain em (halfedgeA ?e) vs) \<or>
        (\<exists>vs. labelled_chain em (halfedgeB ?e) vs)"
    using e by (simp_all add: chains_inv_def)
  from is_complete_loop_TrueD[OF c[unfolded is_complete_def]] e
  have "is_embedded em (halfedgeA ?e) = Inr True" by (simp add: is_embedded_edge_def)
  then obtain t where "find (\<lambda>t. t_matching_halfedge em t = Some (halfedgeA ?e))
        (outgoing_halfedges (t_m em) (the (l_matching_vertex em (vertex_from (l_m em) (halfedgeA ?e))))) = Some t"
    by (auto simp: is_embedded_def get_embedded_target_halfedge_def split: if_splits option.splits sum.splits)
  then have "t_matching_halfedge em t = Some (halfedgeA ?e)"
    and "t \<in> set (outgoing_halfedges (t_m em)
            (the (l_matching_vertex em (vertex_from (l_m em) (halfedgeA ?e)))))"
    by (auto simp: find_Some_iff)
  then have "t_matching_halfedge em t = Some (halfedgeA ?e)" "t < n_halfedges (t_m em)"
    by (simp_all add: set_outgoing_halfedges)
  then have "\<not> edge_unlabelled em ?e" by (auto simp: edge_unlabelled_def list_all_iff)
  with edges consider vs where "labelled_chain em (halfedgeA ?e) vs"
    | vs where "labelled_chain em (halfedgeB ?e) vs"
    by blast
  then show "\<exists>vs. get_embedded_path em h = Some (Inr vs) \<and> 2 \<le> length vs \<and>
            l_matching_vertex em (vertex_from (l_m em) h) = Some (hd vs) \<and>
            l_matching_vertex em (vertex_to (l_m em) h) = Some (last vs)"
  proof cases
    case 1
    from edge_of_halfedge[of h] have "h = halfedgeA ?e \<or> h = opposite (halfedgeA ?e)"
      by (simp add: opposite_halfedgeA)
    with 1 sym show ?thesis by (rule chain_both_directions)
  next
    case 2
    from edge_of_halfedge[of h] have "h = halfedgeB ?e \<or> h = opposite (halfedgeB ?e)"
      by (auto simp: opposite_halfedgeB)
    with 2 sym show ?thesis by (rule chain_both_directions)
  qed
qed

lemma ex_proper: "proper_call ex_em 0 ex_path"
  by code_simp

lemma ex_mesh_ok: "mesh_ok (input_t_m ex_input)"
  by code_simp

lemma ex_complete: "is_complete ex_em_embedded = Inr True"
  by code_simp

lemma all_chains_complete:
  assumes "\<forall>h < n_halfedges (l_m em). \<exists>vs. labelled_chain em h vs"
  shows "is_complete em = Inr True \<and>
         (\<forall>h < n_halfedges (l_m em). \<exists>vs. get_embedded_path em h = Some (Inr vs) \<and> 2 \<le> length vs \<and>
            l_matching_vertex em (vertex_from (l_m em) h) = Some (hd vs) \<and>
            l_matching_vertex em (vertex_to (l_m em) h) = Some (last vs))"
proof
  have "\<forall>l_e \<in> set [0..<n_edges (l_m em)]. is_embedded_edge em l_e = Inr True"
  proof
    fix l_e assume "l_e \<in> set [0..<n_edges (l_m em)]"
    then have "halfedgeA l_e < n_halfedges (l_m em)"
      by (simp add: halfedgeA_def n_halfedges_def n_edges_def)
    with assms obtain vs where "labelled_chain em (halfedgeA l_e) vs" by blast
    from labelled_chain_is_embedded[OF this] show "is_embedded_edge em l_e = Inr True"
      by (simp add: is_embedded_edge_def)
  qed
  then show "is_complete em = Inr True"
    unfolding is_complete_def by (rule is_complete_loop_all)
next
  show "\<forall>h < n_halfedges (l_m em). \<exists>vs. get_embedded_path em h = Some (Inr vs) \<and> 2 \<le> length vs \<and>
            l_matching_vertex em (vertex_from (l_m em) h) = Some (hd vs) \<and>
            l_matching_vertex em (vertex_to (l_m em) h) = Some (last vs)"
  proof (intro allI impI)
    fix h assume "h < n_halfedges (l_m em)"
    with assms obtain vs where lc: "labelled_chain em h vs" by blast
    from labelled_chain_get_embedded_path[OF lc] lc
    show "\<exists>vs. get_embedded_path em h = Some (Inr vs) \<and> 2 \<le> length vs \<and>
            l_matching_vertex em (vertex_from (l_m em) h) = Some (hd vs) \<and>
            l_matching_vertex em (vertex_to (l_m em) h) = Some (last vs)"
      by (intro exI[of _ vs]) (simp add: labelled_chain_def)
  qed
qed

lemma reachable_mono:
  assumes "reachable inp em"
  shows "n_vertices (input_t_m inp) \<le> n_vertices (t_m em) \<and> n_edges (input_t_m inp) \<le> n_edges (t_m em)"
  using assms
proof (induction rule: reachable.induct)
  case init
  show ?case by (simp add: Embedding_init_def split_def Let_def)
next
  case (embed em l_he path em')
  from embed_path_mono[OF embed.hyps(2)] embed.IH show ?case by simp
next
  case (unembed em l_he em')
  from unembed_path_frame[OF unembed.hyps(2)] unembed.IH show ?case by simp
qed

section \<open>Embedding and unembedding a path\<close>

text \<open>
  C1 (as stated): for every unembedded layout halfedge and every path with at least two
  elements from its landmark to the opposite landmark, \<^verbatim>\<open>embed_path\<close> labels a chain and
  the halfedge is embedded afterwards. The two landmarks \<open>2\<close> and \<open>3\<close> of the instance
  are not joined by a target edge: on the path that consists of them alone, the
  assertion that the halfedge between two consecutive vertices is valid fails. On the
  path \<open>2, 0, 2, 1, 3\<close>, whose consecutive vertices are all joined by target edges, the
  call returns, but the second step overwrites the labels of the first: the halfedge
  from \<open>2\<close> to \<open>0\<close>, the first of the chain, carries the opposite of the layout halfedge.
\<close>

theorem C1_embed_path_counterexample:
  "is_embedded ex_em 0 = Inr False \<and>
   l_matching_vertex ex_em (vertex_from (l_m ex_em) 0) = Some 2 \<and>
   l_matching_vertex ex_em (vertex_to (l_m ex_em) 0) = Some 3 \<and>
   (case embed_path ex_em 0 [Vertex 2, Vertex 3] of
      Inl err \<Rightarrow> err = AssertionFailed
    | Inr em \<Rightarrow> False) \<and>
   (case embed_path ex_em 0 [Vertex 2, Vertex 0, Vertex 2, Vertex 1, Vertex 3] of
      Inl err \<Rightarrow> False
    | Inr em \<Rightarrow> halfedge_from_to (t_m em) 2 0 = Some 5 \<and>
               t_matching_halfedge em 5 = Some (opposite 0))"
  by code_simp

text \<open>
  C1 (amended): let \<open>h\<close> be a layout halfedge that is not embedded and \<open>p\<close> a path with
  at least two elements from the landmark of \<open>h\<close> to the opposite landmark, such that
  the vertex chain \<open>vp\<close> that results from splitting the edges of \<open>p\<close> is simple and
  each of its vertices is joined to the next by a target halfedge. Then
  \<^verbatim>\<open>embed_path\<close> returns normally; every edge of \<open>p\<close> was split, its new vertex placed
  at the linear interpolation at parameter 1/2 of the two endpoints the edge had when
  it was split; every halfedge of the chain carries \<open>h\<close> and its opposite carries the
  opposite of \<open>h\<close>; and \<open>h\<close> is embedded.
\<close>

theorem C1_embed_path_splits_and_labels:
  assumes g: "get_embedded_target_halfedge em h = Inr None"
    and len: "2 \<le> length p"
    and h0: "hd p = Vertex v0" and m0: "l_matching_vertex em (vertex_from (l_m em) h) = Some v0"
    and h1: "last p = Vertex v1" and m1: "l_matching_vertex em (vertex_to (l_m em) h) = Some v1"
    and sp: "split_path em p = Inr (em1, vp)"
    and d: "distinct vp"
    and adj: "list_all (\<lambda>x. x \<noteq> None) (chain_halfedges (t_m em1) vp)"
  shows "\<exists>em'. embed_path em h p = Inr em' \<and> t_m em' = t_m em1 \<and>
           (\<forall>i e. i < length p \<and> p ! i = Edge e \<longrightarrow>
              (\<exists>em_i. split_path em (take i p) = Inr (em_i, take i vp) \<and>
                 e < n_edges (t_m em_i) \<and> vp ! i = n_vertices (t_m em_i) \<and>
                 t_pos em' (vp ! i) =
                   tg_mix (t_pos em_i (vertexA (t_m em_i) e)) (t_pos em_i (vertexB (t_m em_i) e)) (1 / 2))) \<and>
           (\<forall>i. Suc i < length vp \<longrightarrow>
              (\<exists>t. halfedge_from_to (t_m em') (vp ! i) (vp ! Suc i) = Some t \<and>
                   t_matching_halfedge em' t = Some h \<and>
                   t_matching_halfedge em' (opposite t) = Some (opposite h))) \<and>
           is_embedded em' h = Inr True"
proof -
  note fr = split_path_frame[OF sp]
  have hl: "h < n_halfedges (l_m em)"
    using g by (auto simp: get_embedded_target_halfedge_def split: if_splits)
  have pne: "p \<noteq> []" using len by auto
  have lenv: "2 \<le> length vp" using fr len by simp
  have hdv: "hd vp = v0" "last vp = v1" using split_path_hd_last[OF sp pne] h0 h1 by auto
  have "\<exists>em'. mark_path em1 h vp = Inr em' \<and>
           t_matching_halfedge em' = marked_labels (t_matching_halfedge em1) h (chain_halfedges (t_m em1) vp) \<and>
           t_m em' = t_m em1 \<and> l_m em' = l_m em1 \<and> t_pos em' = t_pos em1 \<and>
           l_matching_vertex em' = l_matching_vertex em1 \<and> t_matching_vertex em' = t_matching_vertex em1 \<and>
           list_all (\<lambda>x. case x of None \<Rightarrow> False
                   | Some t \<Rightarrow> t_matching_halfedge em' t = Some h \<and>
                              t_matching_halfedge em' (opposite t) = Some (opposite h))
              (chain_halfedges (t_m em') vp)"
    by (rule mark_path_chain[OF d lenv adj]) (use fr hl m0 m1 hdv in simp_all)
  then obtain em' where
    em': "mark_path em1 h vp = Inr em'" "t_m em' = t_m em1" "l_m em' = l_m em1" "t_pos em' = t_pos em1"
      "l_matching_vertex em' = l_matching_vertex em1"
      "list_all (\<lambda>x. case x of None \<Rightarrow> False
                   | Some t \<Rightarrow> t_matching_halfedge em' t = Some h \<and>
                              t_matching_halfedge em' (opposite t) = Some (opposite h))
              (chain_halfedges (t_m em') vp)"
    by blast
  have e: "embed_path em h p = Inr em'"
    using g len sp em'(1) by (simp add: embed_path_def)
  have mid: "\<forall>i e. i < length p \<and> p ! i = Edge e \<longrightarrow>
              (\<exists>em_i. split_path em (take i p) = Inr (em_i, take i vp) \<and>
                 e < n_edges (t_m em_i) \<and> vp ! i = n_vertices (t_m em_i) \<and>
                 t_pos em' (vp ! i) =
                   tg_mix (t_pos em_i (vertexA (t_m em_i) e)) (t_pos em_i (vertexB (t_m em_i) e)) (1 / 2))"
    using split_path_midpoint[OF sp] em'(4) by simp
  have lab: "\<forall>i. Suc i < length vp \<longrightarrow>
              (\<exists>t. halfedge_from_to (t_m em') (vp ! i) (vp ! Suc i) = Some t \<and>
                   t_matching_halfedge em' t = Some h \<and>
                   t_matching_halfedge em' (opposite t) = Some (opposite h))"
  proof (intro allI impI)
    fix i assume i: "Suc i < length vp"
    then have "chain_halfedges (t_m em') vp ! i \<in> set (chain_halfedges (t_m em') vp)"
      by (intro nth_mem) simp
    with em'(6) chain_halfedges_nth[OF i, of "t_m em'"]
    show "\<exists>t. halfedge_from_to (t_m em') (vp ! i) (vp ! Suc i) = Some t \<and>
                   t_matching_halfedge em' t = Some h \<and>
                   t_matching_halfedge em' (opposite t) = Some (opposite h)"
      by (auto simp: list_all_iff split: option.splits)
  qed
  have i0: "Suc 0 < length vp" using lenv by simp
  from lab i0 obtain t where t: "halfedge_from_to (t_m em') (vp ! 0) (vp ! Suc 0) = Some t"
     "t_matching_halfedge em' t = Some h" by blast
  have "vp ! 0 = v0" using hdv(1) lenv by (cases vp) simp_all
  with halfedge_from_to_SomeD[OF t(1)] have "t \<in> set (outgoing_halfedges (t_m em') v0)"
    by (simp add: set_outgoing_halfedges)
  with t(2) have "find (\<lambda>t. t_matching_halfedge em' t = Some h) (outgoing_halfedges (t_m em') v0) \<noteq> None"
    by (auto simp: find_None_iff)
  then have emb: "is_embedded em' h = Inr True"
    using hl m0 em'(3,5) fr by (auto simp: is_embedded_def get_embedded_target_halfedge_def)
  from e em'(2) mid lab emb show ?thesis by blast
qed

text \<open>The amended statement on the path across the midpoint of the shared edge.\<close>

theorem C1_embed_path_splits_and_labels_witness:
  "get_embedded_target_halfedge ex_em 0 = Inr None \<and>
   l_matching_vertex ex_em (vertex_from (l_m ex_em) 0) = Some 2 \<and>
   l_matching_vertex ex_em (vertex_to (l_m ex_em) 0) = Some 3 \<and>
   split_path ex_em ex_path = Inr (fst (split_edge ex_em 0), [2, 4, 3]) \<and>
   list_all (\<lambda>x. x \<noteq> None) (chain_halfedges (t_m (fst (split_edge ex_em 0))) [2, 4, 3]) \<and>
   (\<exists>em'. embed_path ex_em 0 ex_path = Inr em' \<and>
      t_pos em' 4 = tg_mix (t_pos ex_em (vertexA (t_m ex_em) 0)) (t_pos ex_em (vertexB (t_m ex_em) 0)) (1 / 2) \<and>
      (\<exists>t. halfedge_from_to (t_m em') 2 4 = Some t \<and> t_matching_halfedge em' t = Some 0 \<and>
            t_matching_halfedge em' (opposite t) = Some (opposite 0)) \<and>
      (\<exists>t. halfedge_from_to (t_m em') 4 3 = Some t \<and> t_matching_halfedge em' t = Some 0 \<and>
            t_matching_halfedge em' (opposite t) = Some (opposite 0)) \<and>
      is_embedded em' 0 = Inr True)"
proof -
  have g: "get_embedded_target_halfedge ex_em 0 = Inr None" by code_simp
  have len: "2 \<le> length ex_path" by (simp add: ex_path_def)
  have h0: "hd ex_path = Vertex 2" and h1: "last ex_path = Vertex 3" by (simp_all add: ex_path_def)
  have m0: "l_matching_vertex ex_em (vertex_from (l_m ex_em) 0) = Some 2" by code_simp
  have m1: "l_matching_vertex ex_em (vertex_to (l_m ex_em) 0) = Some 3" by code_simp
  have d: "distinct [2, 4, 3 :: nat]" by simp
  have adj: "list_all (\<lambda>x. x \<noteq> None) (chain_halfedges (t_m (fst (split_edge ex_em 0))) [2, 4, 3])"
    by code_simp
  from C1_embed_path_splits_and_labels[OF g len h0 m0 h1 m1 ex_split d adj] obtain em' where
    e: "embed_path ex_em 0 ex_path = Inr em'"
    and mid: "\<forall>i e. i < length ex_path \<and> ex_path ! i = Edge e \<longrightarrow>
              (\<exists>em_i. split_path ex_em (take i ex_path) = Inr (em_i, take i [2, 4, 3]) \<and>
                 e < n_edges (t_m em_i) \<and> [2, 4, 3] ! i = n_vertices (t_m em_i) \<and>
                 t_pos em' ([2, 4, 3] ! i) =
                   tg_mix (t_pos em_i (vertexA (t_m em_i) e)) (t_pos em_i (vertexB (t_m em_i) e)) (1 / 2))"
    and lab: "\<forall>i. Suc i < length [2, 4, 3 :: nat] \<longrightarrow>
              (\<exists>t. halfedge_from_to (t_m em') ([2, 4, 3] ! i) ([2, 4, 3] ! Suc i) = Some t \<and>
                   t_matching_halfedge em' t = Some 0 \<and>
                   t_matching_halfedge em' (opposite t) = Some (opposite 0))"
    and emb: "is_embedded em' 0 = Inr True"
    by blast
  from mid[rule_format, of 1 0] have
    p: "t_pos em' 4 = tg_mix (t_pos ex_em (vertexA (t_m ex_em) 0)) (t_pos ex_em (vertexB (t_m ex_em) 0)) (1 / 2)"
    by (simp add: ex_path_def)
  from lab[rule_format, of 0] lab[rule_format, of 1] have
    l: "\<exists>t. halfedge_from_to (t_m em') 2 4 = Some t \<and> t_matching_halfedge em' t = Some 0 \<and>
            t_matching_halfedge em' (opposite t) = Some (opposite 0)"
       "\<exists>t. halfedge_from_to (t_m em') 4 3 = Some t \<and> t_matching_halfedge em' t = Some 0 \<and>
            t_matching_halfedge em' (opposite t) = Some (opposite 0)"
    by simp_all
  from g m0 m1 ex_split adj e p l emb show ?thesis by blast
qed

text \<open>
  C7 (as stated): for every embedded layout halfedge \<open>h\<close>, \<^verbatim>\<open>unembed_path\<close> clears the
  label of every target halfedge that carries \<open>h\<close>. After \<^verbatim>\<open>embed_path\<close> on the path
  \<open>2, 0, 3, 1, 3\<close>, which passes every assertion, \<open>h\<close> is embedded and \<^verbatim>\<open>unembed_path\<close>
  returns, but it walks from \<open>2\<close> over \<open>0\<close> to \<open>3\<close> only: the halfedge \<open>8\<close> from
  \<open>1\<close> to \<open>3\<close> carries \<open>h\<close> before the call and after it.
\<close>

theorem C7_stray_label_counterexample:
  "(case embed_path ex_em 0 [Vertex 2, Vertex 0, Vertex 3, Vertex 1, Vertex 3] of
      Inl err \<Rightarrow> False
    | Inr em1 \<Rightarrow>
       is_embedded em1 0 = Inr True \<and> t_matching_halfedge em1 8 = Some 0 \<and>
       vertex_from (t_m em1) 8 = 1 \<and> vertex_to (t_m em1) 8 = 3 \<and>
       (case unembed_path em1 0 of
          Some (Inr em2) \<Rightarrow> t_matching_halfedge em2 8 = Some 0
        | _ \<Rightarrow> False))"
  by code_simp

text \<open>
  C7 (amended): when the target halfedges that carry the layout halfedge \<open>h\<close> form
  one simple chain between its landmarks, \<^verbatim>\<open>unembed_path\<close> returns; afterwards both
  directions of every halfedge of the chain carry no label, no halfedge of the mesh
  carries \<open>h\<close>, every other label is as before, and the target mesh, the positions
  and the vertex matchings are unchanged. Every call of \<^verbatim>\<open>unembed_path\<close> that returns
  leaves the target mesh as it was, and no call of \<^verbatim>\<open>embed_path\<close> lowers the
  number of target vertices or of target edges: in every state that a sequence of such
  calls reaches, the target mesh holds every handle of the mesh of the input.
\<close>

theorem C7_unembed_path_clears_labels_only:
  "(labelled_chain em h vs \<longrightarrow>
      (\<exists>em'. unembed_path em h = Some (Inr em') \<and>
          (\<forall>t. Some t \<in> set (chain_halfedges (t_m em) vs) \<longrightarrow>
               t_matching_halfedge em' t = None \<and> t_matching_halfedge em' (opposite t) = None) \<and>
          (\<forall>t < n_halfedges (t_m em). t_matching_halfedge em' t \<noteq> Some h) \<and>
          (\<forall>t. Some t \<notin> set (chain_halfedges (t_m em) vs) \<and>
               Some (opposite t) \<notin> set (chain_halfedges (t_m em) vs) \<longrightarrow>
               t_matching_halfedge em' t = t_matching_halfedge em t) \<and>
          t_m em' = t_m em \<and> t_pos em' = t_pos em \<and>
          l_matching_vertex em' = l_matching_vertex em \<and>
          t_matching_vertex em' = t_matching_vertex em)) \<and>
   (\<forall>em0 l_he em'. unembed_path em0 l_he = Some (Inr em') \<longrightarrow> t_m em' = t_m em0) \<and>
   (\<forall>em0 l_he p em'. embed_path em0 l_he p = Inr em' \<longrightarrow>
      n_vertices (t_m em0) \<le> n_vertices (t_m em') \<and> n_edges (t_m em0) \<le> n_edges (t_m em')) \<and>
   (\<forall>inp em0. reachable inp em0 \<longrightarrow>
      n_vertices (input_t_m inp) \<le> n_vertices (t_m em0) \<and>
      n_edges (input_t_m inp) \<le> n_edges (t_m em0))"
proof (intro conjI impI allI)
  assume lc: "labelled_chain em h vs"
  from labelled_chain_unembed[OF this] obtain em' where
    u: "unembed_path em h = Some (Inr em')"
    and l: "t_matching_halfedge em' = unmarked_labels (t_matching_halfedge em) (chain_halfedges (t_m em) vs)"
    by blast
  from lc have all: "\<forall>t < n_halfedges (t_m em). t_matching_halfedge em t = Some h
                     \<longrightarrow> Some t \<in> set (chain_halfedges (t_m em) vs)"
    by (simp add: labelled_chain_def list_all_iff)
  have "\<forall>t < n_halfedges (t_m em). t_matching_halfedge em' t \<noteq> Some h"
  proof (intro allI impI)
    fix t assume "t < n_halfedges (t_m em)"
    with all show "t_matching_halfedge em' t \<noteq> Some h"
      by (auto simp: l unmarked_labels_def)
  qed
  with u l unembed_path_frame[OF u]
  show "\<exists>em'. unembed_path em h = Some (Inr em') \<and>
          (\<forall>t. Some t \<in> set (chain_halfedges (t_m em) vs) \<longrightarrow>
               t_matching_halfedge em' t = None \<and> t_matching_halfedge em' (opposite t) = None) \<and>
          (\<forall>t < n_halfedges (t_m em). t_matching_halfedge em' t \<noteq> Some h) \<and>
          (\<forall>t. Some t \<notin> set (chain_halfedges (t_m em) vs) \<and>
               Some (opposite t) \<notin> set (chain_halfedges (t_m em) vs) \<longrightarrow>
               t_matching_halfedge em' t = t_matching_halfedge em t) \<and>
          t_m em' = t_m em \<and> t_pos em' = t_pos em \<and>
          l_matching_vertex em' = l_matching_vertex em \<and>
          t_matching_vertex em' = t_matching_vertex em"
    by (intro exI[of _ em']) (simp add: unmarked_labels_def)
qed (use unembed_path_frame embed_path_mono reachable_mono in blast)+

text \<open>The statement on the instance, after the path across the shared edge was embedded.\<close>

theorem C7_unembed_path_clears_labels_only_witness:
  "labelled_chain ex_em_embedded 0 [2, 4, 3] \<and>
   (\<exists>em'. unembed_path ex_em_embedded 0 = Some (Inr em') \<and>
      t_matching_halfedge em' 12 = None \<and> t_matching_halfedge em' 13 = None \<and>
      t_matching_halfedge em' 15 = None \<and> t_matching_halfedge em' 14 = None \<and>
      (\<forall>t < n_halfedges (t_m ex_em_embedded). t_matching_halfedge em' t \<noteq> Some 0) \<and>
      t_m em' = t_m ex_em_embedded) \<and>
   embed_path ex_em 0 ex_path = Inr ex_em_embedded \<and>
   n_vertices (t_m ex_em) \<le> n_vertices (t_m ex_em_embedded) \<and>
   n_edges (t_m ex_em) \<le> n_edges (t_m ex_em_embedded) \<and>
   reachable ex_input ex_em_embedded \<and>
   n_vertices (input_t_m ex_input) \<le> n_vertices (t_m ex_em_embedded) \<and>
   n_edges (input_t_m ex_input) \<le> n_edges (t_m ex_em_embedded)"
proof -
  have c: "Some 12 \<in> set (chain_halfedges (t_m ex_em_embedded) [2, 4, 3])"
          "Some 15 \<in> set (chain_halfedges (t_m ex_em_embedded) [2, 4, 3])"
    by code_simp+
  have o: "opposite 12 = 13" "opposite 15 = 14" by (simp_all add: opposite_def)
  note inst = C7_unembed_path_clears_labels_only[of ex_em_embedded 0 "[2, 4, 3]"]
  from inst ex_chain obtain em' where
    u: "unembed_path ex_em_embedded 0 = Some (Inr em')"
    and cl: "\<forall>t. Some t \<in> set (chain_halfedges (t_m ex_em_embedded) [2, 4, 3]) \<longrightarrow>
               t_matching_halfedge em' t = None \<and> t_matching_halfedge em' (opposite t) = None"
    and no: "\<forall>t < n_halfedges (t_m ex_em_embedded). t_matching_halfedge em' t \<noteq> Some 0"
    and fr: "t_m em' = t_m ex_em_embedded"
    by blast
  from inst ex_embed have mono: "n_vertices (t_m ex_em) \<le> n_vertices (t_m ex_em_embedded) \<and>
      n_edges (t_m ex_em) \<le> n_edges (t_m ex_em_embedded)" by blast
  from cl c o have "t_matching_halfedge em' 12 = None \<and> t_matching_halfedge em' 13 = None \<and>
      t_matching_halfedge em' 15 = None \<and> t_matching_halfedge em' 14 = None"
    by metis
  moreover have re: "reachable ex_input ex_em_embedded"
    using reachable.embed[OF reachable.init, of ex_input 0 ex_path ex_em_embedded] ex_embed
    by (simp add: ex_em_def)
  moreover from inst re have "n_vertices (input_t_m ex_input) \<le> n_vertices (t_m ex_em_embedded) \<and>
      n_edges (input_t_m ex_input) \<le> n_edges (t_m ex_em_embedded)" by blast
  ultimately show ?thesis using u fr no mono ex_chain ex_embed by blast
qed

text \<open>
  C6 (as stated): embedding, unembedding and embedding the same path again gives the
  label state reached after the first embedding. On the path across the midpoint of the
  shared edge the second embedding splits edge \<open>0\<close> once more and marks halfedges at
  the second new vertex: halfedge \<open>12\<close>, from vertex \<open>2\<close> to the first new vertex,
  carries the label after the first embedding and none at the end.
\<close>

theorem C6_edge_path_counterexample:
  "(case embed_path ex_em 0 ex_path of
      Inl err \<Rightarrow> False
    | Inr em1 \<Rightarrow>
       (case unembed_path em1 0 of
          Some (Inr em2) \<Rightarrow>
            (case embed_path em2 0 ex_path of
               Inl err \<Rightarrow> False
             | Inr em3 \<Rightarrow> t_matching_halfedge em1 12 = Some 0 \<and> t_matching_halfedge em3 12 = None)
        | _ \<Rightarrow> False))"
  by code_simp

text \<open>
  C6 (amended): let \<open>h\<close> be a layout halfedge that no target halfedge carries, and \<open>vs\<close>
  a simple chain of at least two real target vertices, each joined to the next by a
  target halfedge, from the landmark of \<open>h\<close> to the opposite landmark. Then embedding
  \<open>vs\<close>, unembedding \<open>h\<close> and embedding \<open>vs\<close> again all return normally, and the final
  state, its labels included, is the state after the first embedding.
\<close>

theorem C6_embed_unembed_embed:
  assumes h: "h < n_halfedges (l_m em)"
    and m0: "l_matching_vertex em (vertex_from (l_m em) h) = Some (hd vs)"
    and m1: "l_matching_vertex em (vertex_to (l_m em) h) = Some (last vs)"
    and len: "2 \<le> length vs" and d: "distinct vs"
    and adj: "list_all (\<lambda>x. x \<noteq> None) (chain_halfedges (t_m em) vs)"
    and fresh: "list_all (\<lambda>t. t_matching_halfedge em t \<noteq> Some h) [0..<n_halfedges (t_m em)]"
  shows "\<exists>em1 em2 em3.
           embed_path em h (map Vertex vs) = Inr em1 \<and>
           unembed_path em1 h = Some (Inr em2) \<and>
           embed_path em2 h (map Vertex vs) = Inr em3 \<and>
           em3 = em1"
proof -
  let ?m = "t_m em" and ?C = "chain_halfedges (t_m em) vs" and ?L = "t_matching_halfedge em"
  have fresh': "\<And>t. t < n_halfedges ?m \<Longrightarrow> ?L t \<noteq> Some h"
    using fresh by (simp add: list_all_iff)
  have g0: "get_embedded_target_halfedge em h = Inr None"
    using h m0 fresh'
    by (auto simp: get_embedded_target_halfedge_def find_None_iff set_outgoing_halfedges)
  from mark_path_chain[OF d len adj h m0 m1] obtain em1 where
    em1: "mark_path em h vs = Inr em1"
      "t_matching_halfedge em1 = marked_labels ?L h ?C"
      "t_m em1 = ?m" "l_m em1 = l_m em" "t_pos em1 = t_pos em"
      "l_matching_vertex em1 = l_matching_vertex em" "t_matching_vertex em1 = t_matching_vertex em"
      "list_all (\<lambda>x. case x of None \<Rightarrow> False
                   | Some t \<Rightarrow> t_matching_halfedge em1 t = Some h \<and>
                              t_matching_halfedge em1 (opposite t) = Some (opposite h))
              (chain_halfedges (t_m em1) vs)"
    by blast
  have e1: "embed_path em h (map Vertex vs) = Inr em1"
    using g0 len em1(1) by (simp add: embed_path_def split_path_vertices)
  have excl: "list_all (\<lambda>t. t_matching_halfedge em1 t = Some h
                     \<longrightarrow> Some t \<in> set (chain_halfedges (t_m em1) vs))
              [0..<n_halfedges (t_m em1)]"
    using fresh' by (auto simp: list_all_iff em1(2,3) marked_labels_def)
  have ch: "labelled_chain em1 h vs"
    unfolding labelled_chain_def using len d h m0 m1 em1(4,6,8) excl by simp
  from labelled_chain_unembed[OF ch] obtain em2 where
    em2: "unembed_path em1 h = Some (Inr em2)"
      "t_matching_halfedge em2 = unmarked_labels (marked_labels ?L h ?C) ?C"
    by (auto simp: em1(2,3))
  note fr2 = unembed_path_frame[OF em2(1)]
  have g2: "get_embedded_target_halfedge em2 h = Inr None"
    using h m0 fresh' fr2 em1(3,4,6)
    by (auto simp: get_embedded_target_halfedge_def find_None_iff set_outgoing_halfedges
          em2(2) unmarked_labels_def marked_labels_def)
  have adj2: "list_all (\<lambda>x. x \<noteq> None) (chain_halfedges (t_m em2) vs)"
    using adj fr2 em1(3) by simp
  from mark_path_labels[OF d adj2, of h] obtain em3 where
    em3: "mark_path em2 h vs = Inr em3"
         "t_matching_halfedge em3 = marked_labels (t_matching_halfedge em2) h (chain_halfedges (t_m em2) vs)"
    by blast
  note fr3 = mark_path_frame[OF em3(1)]
  have e3: "embed_path em2 h (map Vertex vs) = Inr em3"
    using g2 len em3(1) by (simp add: embed_path_def split_path_vertices)
  have "t_matching_halfedge em3 = t_matching_halfedge em1"
    using fr2 em1(3) by (auto simp: em3(2) em2(2) em1(2) marked_labels_def unmarked_labels_def fun_eq_iff)
  with fr3 fr2 have "em3 = em1" by (intro Embedding.equality) simp_all
  with e1 em2(1) e3 show ?thesis by blast
qed

text \<open>The amended statement on the chain of the vertices \<open>2\<close>, \<open>0\<close> and \<open>3\<close>.\<close>

theorem C6_embed_unembed_embed_witness:
  "(0::nat) < n_halfedges (l_m ex_em) \<and>
   l_matching_vertex ex_em (vertex_from (l_m ex_em) 0) = Some (hd [2, 0, 3]) \<and>
   l_matching_vertex ex_em (vertex_to (l_m ex_em) 0) = Some (last [2, 0, 3]) \<and>
   distinct [2, 0, 3 :: nat] \<and>
   list_all (\<lambda>x. x \<noteq> None) (chain_halfedges (t_m ex_em) [2, 0, 3]) \<and>
   list_all (\<lambda>t. t_matching_halfedge ex_em t \<noteq> Some 0) [0..<n_halfedges (t_m ex_em)] \<and>
   (\<exists>em1 em2 em3.
      embed_path ex_em 0 (map Vertex [2, 0, 3]) = Inr em1 \<and>
      unembed_path em1 0 = Some (Inr em2) \<and>
      embed_path em2 0 (map Vertex [2, 0, 3]) = Inr em3 \<and> em3 = em1)"
proof -
  have h1: "(0::nat) < n_halfedges (l_m ex_em)" by code_simp
  have h2: "l_matching_vertex ex_em (vertex_from (l_m ex_em) 0) = Some (hd [2, 0, 3])" by code_simp
  have h3: "l_matching_vertex ex_em (vertex_to (l_m ex_em) 0) = Some (last [2, 0, 3])" by code_simp
  have h4: "2 \<le> length [2, 0, 3 :: nat]" by simp
  have h5: "distinct [2, 0, 3 :: nat]" by simp
  have h6: "list_all (\<lambda>x. x \<noteq> None) (chain_halfedges (t_m ex_em) [2, 0, 3])" by code_simp
  have h7: "list_all (\<lambda>t. t_matching_halfedge ex_em t \<noteq> Some 0) [0..<n_halfedges (t_m ex_em)]"
    by code_simp
  from C6_embed_unembed_embed[OF h1 h2 h3 h4 h5 h6 h7] h1 h2 h3 h5 h6 h7 show ?thesis by blast
qed

section \<open>Embedded paths of a completed embedding\<close>

text \<open>
  C2 (as stated): in every state with \<^verbatim>\<open>is_complete()\<close>, \<^verbatim>\<open>get_embedded_path\<close> returns,
  for every layout halfedge, a chain between the two matched landmarks. On the instance
  the layout halfedge \<open>1\<close> is embedded along the path \<open>3, 0, 2, 1, 2\<close> from its landmark
  to the opposite landmark and unembedded again; every assertion of the two calls
  holds. The labels of the detour from \<open>2\<close> to \<open>1\<close> and back stay behind. Then
  \<^verbatim>\<open>is_complete()\<close> is true, \<^verbatim>\<open>get_embedded_path\<close> fails its assertion on the layout
  halfedge \<open>1\<close>, and on the layout halfedge \<open>0\<close> its walk goes from \<open>2\<close> to \<open>1\<close>, finds no
  labelled halfedge to leave by, and never returns.
\<close>

theorem C2_is_complete_counterexample:
  "l_matching_vertex ex_em (vertex_from (l_m ex_em) 1) = Some 3 \<and>
   l_matching_vertex ex_em (vertex_to (l_m ex_em) 1) = Some 2 \<and>
   embed_path ex_em 1 [Vertex 3, Vertex 0, Vertex 2, Vertex 1, Vertex 2] = Inr ex_em_detour \<and>
   unembed_path ex_em_detour 1 = Some (Inr ex_em_stray) \<and>
   is_complete ex_em_stray = Inr True \<and>
   get_embedded_path ex_em_stray 1 = Some (Inl AssertionFailed) \<and>
   get_embedded_path ex_em_stray 0 = None"
proof -
  have "case embed_path ex_em 1 [Vertex 3, Vertex 0, Vertex 2, Vertex 1, Vertex 2] of
          Inr em \<Rightarrow> True | Inl err \<Rightarrow> False"
    by code_simp
  then have e: "embed_path ex_em 1 [Vertex 3, Vertex 0, Vertex 2, Vertex 1, Vertex 2] = Inr ex_em_detour"
    by (simp add: ex_em_detour_def split: sum.splits)
  have "case unembed_path ex_em_detour 1 of Some (Inr em) \<Rightarrow> True | _ \<Rightarrow> False"
    by code_simp
  then have u: "unembed_path ex_em_detour 1 = Some (Inr ex_em_stray)"
    by (simp add: ex_em_stray_def split: option.splits sum.splits)
  have m: "l_matching_vertex ex_em (vertex_from (l_m ex_em) 1) = Some 3"
    "l_matching_vertex ex_em (vertex_to (l_m ex_em) 1) = Some 2"
    "is_complete ex_em_stray = Inr True"
    "get_embedded_path ex_em_stray 1 = Some (Inl AssertionFailed)"
    by code_simp+
  have t: "get_embedded_target_halfedge ex_em_stray 0 = Inr (Some 2)"
    "l_matching_vertex ex_em_stray (vertex_to (l_m ex_em_stray) 0) = Some 3"
    "label_step ex_em_stray 0 2 = 1" "label_step ex_em_stray 0 1 = 1"
    "vertex_from (t_m ex_em_stray) 2 = 2"
    by code_simp+
  have "get_embedded_path_loop ex_em_stray 0 (Some 3) 2 []
        = get_embedded_path_loop ex_em_stray 0 (Some 3) 1 [2]"
    using t(3) by (subst get_embedded_path_loop.simps) (simp add: label_step_def)
  also have "\<dots> = None" using t(4) by (intro loop_stuck) simp_all
  finally have "get_embedded_path ex_em_stray 0 = None" by (simp add: get_embedded_path_def t)
  with e u m show ?thesis by blast
qed

text \<open>
  C2 (amended): take an embedding built from the fresh state, over a target mesh whose
  edges and triangles name vertices of the mesh, by proper calls of \<^verbatim>\<open>embed_path\<close>:
  each for a layout edge that carries no label yet, along a path from the landmark of
  the layout halfedge to the opposite landmark that crosses unblocked edges only and
  whose vertex chain is simple and runs over unlabelled target halfedges. If
  \<^verbatim>\<open>is_complete()\<close> is true in it, then \<^verbatim>\<open>get_embedded_path\<close> returns for every layout
  halfedge: a chain of at least two vertices whose first element is the target vertex
  matched to the source of the halfedge and whose last element is the target vertex
  matched to its destination. The same holds, and \<^verbatim>\<open>is_complete()\<close> is true, in every
  state in which for every layout halfedge the target halfedges that carry it form one
  simple chain between its two landmarks.
\<close>

theorem C2_get_embedded_path_of_chain:
  "(mesh_ok (input_t_m inp) \<and> built inp em \<and> is_complete em = Inr True \<longrightarrow>
      (\<forall>h < n_halfedges (l_m em). \<exists>vs. get_embedded_path em h = Some (Inr vs) \<and> 2 \<le> length vs \<and>
         l_matching_vertex em (vertex_from (l_m em) h) = Some (hd vs) \<and>
         l_matching_vertex em (vertex_to (l_m em) h) = Some (last vs))) \<and>
   ((\<forall>h < n_halfedges (l_m em). \<exists>vs. labelled_chain em h vs) \<longrightarrow>
      is_complete em = Inr True \<and>
      (\<forall>h < n_halfedges (l_m em). \<exists>vs. get_embedded_path em h = Some (Inr vs) \<and> 2 \<le> length vs \<and>
         l_matching_vertex em (vertex_from (l_m em) h) = Some (hd vs) \<and>
         l_matching_vertex em (vertex_to (l_m em) h) = Some (last vs)))"
proof (intro conjI impI)
  assume "mesh_ok (input_t_m inp) \<and> built inp em \<and> is_complete em = Inr True"
  then have "chains_inv em" and c: "is_complete em = Inr True"
    using built_chains_inv by blast+
  then show "(\<forall>h < n_halfedges (l_m em). \<exists>vs. get_embedded_path em h = Some (Inr vs) \<and> 2 \<le> length vs \<and>
           l_matching_vertex em (vertex_from (l_m em) h) = Some (hd vs) \<and>
           l_matching_vertex em (vertex_to (l_m em) h) = Some (last vs))"
    by (rule chains_inv_complete)
next
  assume a: "\<forall>h < n_halfedges (l_m em). \<exists>vs. labelled_chain em h vs"
  from all_chains_complete[OF a] show "is_complete em = Inr True" by blast
  from all_chains_complete[OF a] show "(\<forall>h < n_halfedges (l_m em). \<exists>vs. get_embedded_path em h = Some (Inr vs) \<and> 2 \<le> length vs \<and>
           l_matching_vertex em (vertex_from (l_m em) h) = Some (hd vs) \<and>
           l_matching_vertex em (vertex_to (l_m em) h) = Some (last vs))"
    by blast
qed

text \<open>
  The amended statement on the instance after the path across the shared edge was
  embedded, for both halfedges of the layout edge.
\<close>

theorem C2_get_embedded_path_of_chain_witness:
  "mesh_ok (input_t_m ex_input) \<and> built ex_input ex_em_embedded \<and>
   n_halfedges (l_m ex_em_embedded) = 2 \<and>
   labelled_chain ex_em_embedded 0 [2, 4, 3] \<and> labelled_chain ex_em_embedded 1 [3, 4, 2] \<and>
   is_complete ex_em_embedded = Inr True \<and>
   get_embedded_path ex_em_embedded 0 = Some (Inr [2, 4, 3]) \<and>
   get_embedded_path ex_em_embedded 1 = Some (Inr [3, 4, 2]) \<and>
   (\<exists>vs. get_embedded_path ex_em_embedded 0 = Some (Inr vs) \<and> 2 \<le> length vs \<and>
      l_matching_vertex ex_em_embedded (vertex_from (l_m ex_em_embedded) 0) = Some (hd vs) \<and>
      l_matching_vertex ex_em_embedded (vertex_to (l_m ex_em_embedded) 0) = Some (last vs)) \<and>
   (\<exists>vs. get_embedded_path ex_em_embedded 1 = Some (Inr vs) \<and> 2 \<le> length vs \<and>
      l_matching_vertex ex_em_embedded (vertex_from (l_m ex_em_embedded) 1) = Some (hd vs) \<and>
      l_matching_vertex ex_em_embedded (vertex_to (l_m ex_em_embedded) 1) = Some (last vs))"
proof -
  have n: "n_halfedges (l_m ex_em_embedded) = 2" by code_simp
  have b: "built ex_input ex_em_embedded"
    using built.fresh[of ex_input] ex_proper ex_embed unfolding ex_em_def[symmetric]
    by (rule built.embedded)
  have all: "\<forall>h < n_halfedges (l_m ex_em_embedded). \<exists>vs. labelled_chain ex_em_embedded h vs"
  proof (intro allI impI)
    fix h assume "h < n_halfedges (l_m ex_em_embedded)"
    with n have "h = 0 \<or> h = 1" by auto
    with ex_chain ex_chain_opposite show "\<exists>vs. labelled_chain ex_em_embedded h vs" by auto
  qed
  have p: "get_embedded_path ex_em_embedded 0 = Some (Inr [2, 4, 3])"
    "get_embedded_path ex_em_embedded 1 = Some (Inr [3, 4, 2])"
    by code_simp+
  note inst = C2_get_embedded_path_of_chain[of ex_input ex_em_embedded]
  have lt: "(0::nat) < n_halfedges (l_m ex_em_embedded)" "(1::nat) < n_halfedges (l_m ex_em_embedded)"
    unfolding n by simp_all
  from inst ex_mesh_ok b ex_complete lt(1)
  have q0: "\<exists>vs. get_embedded_path ex_em_embedded 0 = Some (Inr vs) \<and> 2 \<le> length vs \<and>
      l_matching_vertex ex_em_embedded (vertex_from (l_m ex_em_embedded) 0) = Some (hd vs) \<and>
      l_matching_vertex ex_em_embedded (vertex_to (l_m ex_em_embedded) 0) = Some (last vs)"
    by blast
  from inst all lt(2)
  have q1: "\<exists>vs. get_embedded_path ex_em_embedded 1 = Some (Inr vs) \<and> 2 \<le> length vs \<and>
      l_matching_vertex ex_em_embedded (vertex_from (l_m ex_em_embedded) 1) = Some (hd vs) \<and>
      l_matching_vertex ex_em_embedded (vertex_to (l_m ex_em_embedded) 1) = Some (last vs)"
    by blast
  from ex_mesh_ok b n ex_chain ex_chain_opposite ex_complete p q0 q1 show ?thesis by blast
qed

section \<open>Symmetry of the labels\<close>

text \<open>
  C10 (as stated): after any sequence of \<^verbatim>\<open>embed_path\<close> and \<^verbatim>\<open>unembed_path\<close> calls the
  labels are opposite-symmetric and therefore a layout halfedge is embedded exactly if
  its opposite is. Embedding the path \<open>2, 0, 3, 1, 3\<close>, which returns to the end
  landmark, and unembedding it leaves the labels of the detour in place: the layout
  halfedge is then not embedded and its opposite is.
\<close>

theorem C10_is_embedded_counterexample:
  "(case embed_path ex_em 0 [Vertex 2, Vertex 0, Vertex 3, Vertex 1, Vertex 3] of
      Inl err \<Rightarrow> False
    | Inr em1 \<Rightarrow>
       (case unembed_path em1 0 of
          Some (Inr em2) \<Rightarrow>
            is_embedded em2 0 = Inr False \<and> is_embedded em2 (opposite 0) = Inr True
        | _ \<Rightarrow> False))"
  by code_simp

text \<open>
  C10 (amended): after any sequence of \<^verbatim>\<open>embed_path\<close> and \<^verbatim>\<open>unembed_path\<close> calls that
  starts from a freshly initialised state, the labels are opposite-symmetric: a target
  halfedge carries the layout halfedge \<open>h\<close> exactly if its opposite carries the opposite
  of \<open>h\<close>. In every state in which the labels of \<open>h\<close> form its chain, both \<open>h\<close> and
  its opposite are embedded.
\<close>

theorem C10_labels_symmetric:
  "(reachable inp em \<longrightarrow> labels_symmetric em) \<and>
   (labelled_chain em h vs \<longrightarrow>
      is_embedded em h = Inr True \<and> is_embedded em (opposite h) = Inr True)"
  using reachable_labels_symmetric labelled_chain_is_embedded by blast

text \<open>The amended statement on the instance.\<close>

theorem C10_labels_symmetric_witness:
  "reachable ex_input ex_em_embedded \<and> labels_symmetric ex_em_embedded \<and>
   labelled_chain ex_em_embedded 0 [2, 4, 3] \<and>
   is_embedded ex_em_embedded 0 = Inr True \<and> is_embedded ex_em_embedded (opposite 0) = Inr True"
proof -
  have "reachable ex_input ex_em_embedded"
    using reachable.embed[OF reachable.init, of ex_input 0 ex_path ex_em_embedded] ex_embed
    by (simp add: ex_em_def)
  then show ?thesis
    using C10_labels_symmetric[of ex_input ex_em_embedded 0 "[2, 4, 3]"] ex_chain by simp
qed

section \<open>Facts about the greedy solver\<close>

lemma path_length_fail_on_empty:
  "(case fail_on_empty fsp em l_he metric of
      Inl err \<Rightarrow> Inl err
    | Inr path \<Rightarrow> (case path_length pnorm em path of Inl err \<Rightarrow> Inl err | Inr c \<Rightarrow> f path c))
   = (case fsp em l_he metric of
      Inl err \<Rightarrow> Inl err
    | Inr path \<Rightarrow> (case path_length pnorm em path of Inl err \<Rightarrow> Inl err | Inr c \<Rightarrow> f path c))"
  by (simp add: fail_on_empty_def path_length_def split: sum.splits)

lemma neighbor_distance_loop_fail_on_empty:
  "neighbor_distance_loop (fail_on_empty fsp) pnorm em l_hes acc
   = neighbor_distance_loop fsp pnorm em l_hes acc"
proof (induction l_hes arbitrary: acc)
  case Nil
  then show ?case by (cases acc) simp
next
  case (Cons l_he l_hes)
  obtain total_distance valence where acc: "acc = (total_distance, valence)" by (cases acc)
  show ?case
    unfolding acc neighbor_distance_loop.simps
    by (subst path_length_fail_on_empty) (simp add: Cons.IH cong: sum.case_cong)
qed

lemma avg_neighbor_distance_loop_fail_on_empty:
  "avg_neighbor_distance_loop (fail_on_empty fsp) pnorm em l_vs l_avg
   = avg_neighbor_distance_loop fsp pnorm em l_vs l_avg"
  by (induction l_vs arbitrary: l_avg)
     (simp_all add: neighbor_distance_loop_fail_on_empty split: sum.splits)

lemma extremal_vertices_fail_on_empty:
  "extremal_vertices (fail_on_empty fsp) pnorm em settings = extremal_vertices fsp pnorm em settings"
  by (simp add: extremal_vertices_def avg_neighbor_distance_loop_fail_on_empty)

lemma greedy_scan_fail_on_empty:
  "greedy_scan (fail_on_empty fsp) swirl pnorm settings ext tree st l_es best
   = greedy_scan fsp swirl pnorm settings ext tree st l_es best"
proof (induction l_es arbitrary: best)
  case Nil
  show ?case by simp
next
  case (Cons l_e l_es)
  show ?case
    unfolding greedy_scan.simps Cons.IH
    by (subst path_length_fail_on_empty) (rule refl)
qed

lemma greedy_round_fail_on_empty:
  "greedy_round (fail_on_empty fsp) swirl pnorm settings ext st
   = greedy_round fsp swirl pnorm settings ext st"
  by (simp add: greedy_round_def greedy_scan_fail_on_empty)

lemma embed_greedy_loop_fail_on_empty:
  "embed_greedy_loop (fail_on_empty fsp) swirl pnorm settings ext n st
   = embed_greedy_loop fsp swirl pnorm settings ext n st"
proof (induction fsp swirl pnorm settings ext n st rule: embed_greedy_loop.induct)
  case (1 fsp swirl pnorm settings ext n st)
  show ?case
  proof (cases "l_num_embedded_edges st < n")
    case True
    show ?thesis
    proof (cases "greedy_round fsp swirl pnorm settings ext st")
      case (Inl err)
      with True show ?thesis
        by (subst (1 2) embed_greedy_loop.simps) (simp add: greedy_round_fail_on_empty)
    next
      case (Inr st')
      with True "1.IH"[OF True Inr] show ?thesis
        by (subst (1 2) embed_greedy_loop.simps) (simp add: greedy_round_fail_on_empty)
    qed
  next
    case False
    then show ?thesis by (subst (1 2) embed_greedy_loop.simps) simp
  qed
qed


lemma greedy_scan_skip:
  assumes "scan_skips ext tree st l_e best"
  shows "greedy_scan fsp swirl pnorm settings ext tree st (l_e # l_es) best
         = greedy_scan fsp swirl pnorm settings ext tree st l_es best"
proof (cases "l_is_embedded st l_e")
  case c1: True
  show ?thesis by (simp only: greedy_scan.simps if_P[OF c1])
next
  case c1: False
  show ?thesis
  proof (cases "incident_to_extremal_vertex (g_em st) ext (best_l_e best) \<and>
                \<not> incident_to_extremal_vertex (g_em st) ext (Some l_e)")
    case c2: True
    show ?thesis by (simp only: greedy_scan.simps if_not_P[OF c1] if_P[OF c2])
  next
    case c2: False
    with c1 assms have c3: "\<not> tree \<and> equivalent (l_v_components st) (vertexA (l_m (g_em st)) l_e)
                            (vertexB (l_m (g_em st)) l_e)"
      unfolding scan_skips_def by blast
    show ?thesis
      by (simp only: greedy_scan.simps if_not_P[OF c1] if_not_P[OF c2] if_P[OF c3])
  qed
qed

lemma greedy_scan_visit:
  assumes "\<not> scan_skips ext tree st l_e best"
  shows "greedy_scan fsp swirl pnorm settings ext tree st (l_e # l_es) best =
     (case fsp (g_em st) (halfedgeA l_e)
                (if use_vertex_repulsive_tracing settings then VertexRepulsive else Geodesic) of
           Inl err \<Rightarrow> Inl err
         | Inr path \<Rightarrow>
             (case path_length pnorm (g_em st) path of
                Inl err \<Rightarrow> Inl err
              | Inr path_cost \<Rightarrow>
                  if insertion_order settings = Arbitrary
                  then Inr \<lparr>best_path = path, best_path_cost = Fin path_cost, best_l_e = Some l_e\<rparr>
                  else
                    (let path_cost' =
                           (if use_swirl_detection settings \<and>
                               d_less (Fin path_cost) (best_path_cost best) \<and>
                               swirl (g_em st) (halfedgeA l_e) path
                            then path_cost * swirl_penalty_factor settings else path_cost);
                         extremal_priority =
                           1 - of_bool (incident_to_extremal_vertex (g_em st) ext (Some l_e));
                         best_extremal_priority =
                           1 - of_bool (incident_to_extremal_vertex (g_em st) ext (best_l_e best))
                     in if tie_less (extremal_priority, Fin path_cost')
                                    (best_extremal_priority, best_path_cost best)
                        then greedy_scan fsp swirl pnorm settings ext tree st l_es
                               \<lparr>best_path = path, best_path_cost = Fin path_cost', best_l_e = Some l_e\<rparr>
                        else greedy_scan fsp swirl pnorm settings ext tree st l_es
                               best)))"
proof -
  have c1: "\<not> l_is_embedded st l_e"
    and c2: "\<not> (incident_to_extremal_vertex (g_em st) ext (best_l_e best) \<and>
                 \<not> incident_to_extremal_vertex (g_em st) ext (Some l_e))"
    and c3: "\<not> (\<not> tree \<and> equivalent (l_v_components st) (vertexA (l_m (g_em st)) l_e)
                                (vertexB (l_m (g_em st)) l_e))"
    using assms unfolding scan_skips_def by blast+
  show ?thesis
    by (simp only: greedy_scan.simps if_not_P[OF c1] if_not_P[OF c2] if_not_P[OF c3])
qed

lemma greedy_scan_step_cases:
  assumes "greedy_scan fsp swirl pnorm settings ext tree st (l_e # l_es) best = Inr best'"
  obtains (skip) "greedy_scan fsp swirl pnorm settings ext tree st l_es best = Inr best'"
    | (take) path c where "\<not> scan_skips ext tree st l_e best"
        "greedy_scan fsp swirl pnorm settings ext tree st l_es
           \<lparr>best_path = path, best_path_cost = Fin c, best_l_e = Some l_e\<rparr> = Inr best'"
    | (brk) path c where "\<not> scan_skips ext tree st l_e best"
        "best' = \<lparr>best_path = path, best_path_cost = Fin c, best_l_e = Some l_e\<rparr>"
proof (cases "scan_skips ext tree st l_e best")
  case True
  with assms show ?thesis using skip by (simp only: greedy_scan_skip)
next
  case False
  define metric where "metric = (if use_vertex_repulsive_tracing settings then VertexRepulsive else Geodesic)"
  note eq = assms[unfolded greedy_scan_visit[OF False], folded metric_def]
  from eq obtain path where p: "fsp (g_em st) (halfedgeA l_e) metric = Inr path"
    by (cases "fsp (g_em st) (halfedgeA l_e) metric") simp_all
  from eq p obtain c where c: "path_length pnorm (g_em st) path = Inr c"
    by (cases "path_length pnorm (g_em st) path") simp_all
  note eq2 = eq[unfolded p c sum.case]
  show ?thesis
  proof (cases "insertion_order settings = Arbitrary")
    case True
    with eq2 have "best' = \<lparr>best_path = path, best_path_cost = Fin c, best_l_e = Some l_e\<rparr>"
      by simp
    with False show ?thesis by (rule brk)
  next
    case na: False
    define c' where "c' = (if use_swirl_detection settings \<and> d_less (Fin c) (best_path_cost best) \<and>
                               swirl (g_em st) (halfedgeA l_e) path
                            then c * swirl_penalty_factor settings else c)"
    note eq3 = eq2[unfolded if_not_P[OF na] Let_def, folded c'_def]
    show ?thesis
    proof (cases "tie_less (1 - of_bool (incident_to_extremal_vertex (g_em st) ext (Some l_e)), Fin c')
                     (1 - of_bool (incident_to_extremal_vertex (g_em st) ext (best_l_e best)), best_path_cost best)")
      case True
      from eq3[unfolded if_P[OF True]] False show ?thesis by (rule take[rotated])
    next
      case nt: False
      from eq3[unfolded if_not_P[OF nt]] show ?thesis by (rule skip)
    qed
  qed
qed

lemma greedy_scan_unmerged:
  "greedy_scan fsp swirl pnorm settings ext False st l_es best = Inr best' \<Longrightarrow>
   (\<forall>e. best_l_e best = Some e \<longrightarrow> e \<in> S) \<Longrightarrow>
   (\<forall>e \<in> set l_es.
       \<not> equivalent (l_v_components st) (vertexA (l_m (g_em st)) e) (vertexB (l_m (g_em st)) e)
       \<longrightarrow> e \<in> S) \<Longrightarrow>
   (\<forall>e. best_l_e best' = Some e \<longrightarrow> e \<in> S)"
proof (induction l_es arbitrary: best)
  case Nil
  then show ?case by simp
next
  case (Cons l_e l_es)
  have rest: "\<forall>e \<in> set l_es.
       \<not> equivalent (l_v_components st) (vertexA (l_m (g_em st)) e) (vertexB (l_m (g_em st)) e)
       \<longrightarrow> e \<in> S"
    using Cons.prems(3) by simp
  from Cons.prems(1) show ?case
  proof (cases rule: greedy_scan_step_cases)
    case skip
    show ?thesis by (rule Cons.IH[OF skip Cons.prems(2) rest])
  next
    case (take path c)
    have "l_e \<in> S" using Cons.prems(3) take(1) by (simp add: scan_skips_def)
    then have b: "\<forall>e. best_l_e \<lparr>best_path = path, best_path_cost = Fin c, best_l_e = Some l_e\<rparr> = Some e
                 \<longrightarrow> e \<in> S"
      by simp
    show ?thesis by (rule Cons.IH[OF take(2) b rest])
  next
    case (brk path c)
    have "l_e \<in> S" using Cons.prems(3) brk(1) by (simp add: scan_skips_def)
    with brk(2) show ?thesis by simp
  qed
qed

lemma greedy_round_InrE:
  assumes "greedy_round fsp swirl pnorm settings ext st = Inr st'"
  obtains best l_e em' where
    "greedy_scan fsp swirl pnorm settings ext
       (int (n_vertices (l_m (g_em st))) - 1 \<le> l_num_embedded_edges st) st
       [0..<n_edges (l_m (g_em st))] best_choice_init = Inr best"
    "best_l_e best = Some l_e"
    "embed_path (g_em st) (halfedgeA l_e) (best_path best) = Inr em'"
    "st' = \<lparr>g_em = em',
            g_result = \<lparr>insertion_sequence = insertion_sequence (g_result st) @ [Some l_e]\<rparr>,
            l_is_embedded = (l_is_embedded st)(l_e := True),
            l_num_embedded_edges = l_num_embedded_edges st + 1,
            l_v_components = merge (l_v_components st) (vertexA (l_m (g_em st)) l_e)
                                (vertexB (l_m (g_em st)) l_e)\<rparr>"
  using assms unfolding greedy_round_def
  by (auto split: sum.splits option.splits)

lemma greedy_round_selects_unmerged:
  assumes "greedy_round fsp swirl pnorm settings ext st = Inr st'"
    and "l_num_embedded_edges st < int (n_vertices (l_m (g_em st))) - 1"
  shows "\<exists>l_e. l_e < n_edges (l_m (g_em st)) \<and>
           insertion_sequence (g_result st') = insertion_sequence (g_result st) @ [Some l_e] \<and>
           l_v_components st' = merge (l_v_components st) (vertexA (l_m (g_em st)) l_e)
                                (vertexB (l_m (g_em st)) l_e) \<and>
           \<not> equivalent (l_v_components st) (vertexA (l_m (g_em st)) l_e)
                         (vertexB (l_m (g_em st)) l_e)"
proof -
  from assms(1) obtain best l_e em' where
    r: "greedy_scan fsp swirl pnorm settings ext
       (int (n_vertices (l_m (g_em st))) - 1 \<le> l_num_embedded_edges st) st
       [0..<n_edges (l_m (g_em st))] best_choice_init = Inr best"
    "best_l_e best = Some l_e"
    "st' = \<lparr>g_em = em',
            g_result = \<lparr>insertion_sequence = insertion_sequence (g_result st) @ [Some l_e]\<rparr>,
            l_is_embedded = (l_is_embedded st)(l_e := True),
            l_num_embedded_edges = l_num_embedded_edges st + 1,
            l_v_components = merge (l_v_components st) (vertexA (l_m (g_em st)) l_e)
                                (vertexB (l_m (g_em st)) l_e)\<rparr>"
    by (rule greedy_round_InrE)
  from assms(2) have f: "(int (n_vertices (l_m (g_em st))) - 1 \<le> l_num_embedded_edges st) = False"
    by simp
  let ?S = "{e. e < n_edges (l_m (g_em st)) \<and>
                \<not> equivalent (l_v_components st) (vertexA (l_m (g_em st)) e)
                         (vertexB (l_m (g_em st)) e)}"
  have "\<forall>e. best_l_e best = Some e \<longrightarrow> e \<in> ?S"
    by (rule greedy_scan_unmerged[OF r(1)[unfolded f]]) (simp_all add: best_choice_init_def)
  with r(2) have "l_e \<in> ?S" by blast
  with r(3) show ?thesis by auto
qed

lemma equivalent_merge:
  "equivalent (merge uf a b) x y \<longleftrightarrow>
     equivalent uf x y \<or> (equivalent uf x a \<and> equivalent uf b y) \<or>
     (equivalent uf x b \<and> equivalent uf a y)"
  by (auto simp: equivalent_def merge_def)

lemma equivalent_equiv:
  "equivalent uf x x" "equivalent uf x y \<Longrightarrow> equivalent uf y x"
  "equivalent uf x y \<Longrightarrow> equivalent uf y z \<Longrightarrow> equivalent uf x z"
  by (simp_all add: equivalent_def)

lemma layout_edge_rel_snoc:
  "layout_edge_rel m (es @ [e]) =
     insert (vertexA m e, vertexB m e) (insert (vertexB m e, vertexA m e) (layout_edge_rel m es))"
  by (auto simp: layout_edge_rel_def)

lemma joined_snoc:
  "joined m (es @ [e]) x y \<longleftrightarrow>
     joined m es x y \<or>
     (joined m es x (vertexB m e) \<and> joined m es (vertexA m e) y) \<or>
     ((joined m es x (vertexA m e) \<or> joined m es x (vertexB m e)) \<and>
      (joined m es (vertexB m e) y \<or> joined m es (vertexA m e) y))"
  unfolding joined_def layout_edge_rel_snoc
  by (simp add: rtrancl_insert)

lemma joined_Nil: "joined m [] x y \<longleftrightarrow> x = y"
  by (simp add: joined_def layout_edge_rel_def)

lemma embed_path_l_m:
  assumes "embed_path em h p = Inr em'"
  shows "l_m em' = l_m em"
proof -
  from assms obtain em1 vp where "split_path em p = Inr (em1, vp)" "mark_path em1 h vp = Inr em'"
    by (rule embed_path_InrE)
  then show ?thesis using split_path_frame[of em p em1 vp] mark_path_frame[of em1 h vp em'] by simp
qed

lemma greedy_inv_init: "greedy_inv em (greedy_state_init em)"
  unfolding greedy_inv_def
  by (auto simp: greedy_state_init_def UnionFind_init_def equivalent_def joined_Nil cycle_free_def
           intro!: exI[of _ "[]"])

lemma greedy_inv_round:
  assumes inv: "greedy_inv em st"
    and r: "greedy_round fsp swirl pnorm settings ext st = Inr st'"
  shows "greedy_inv em st'"
proof -
  let ?m = "l_m em"
  from inv obtain es where lm: "l_m (g_em st) = ?m"
    and seq: "insertion_sequence (g_result st) = map Some es"
    and cnt: "l_num_embedded_edges st = int (length es)"
    and eqv: "\<And>a b. equivalent (l_v_components st) a b \<longleftrightarrow> joined ?m es a b"
    and cf: "cycle_free ?m (take (n_vertices ?m - 1) es)"
    unfolding greedy_inv_def by blast
  from r obtain best l_e em' where
    sc: "greedy_scan fsp swirl pnorm settings ext
       (int (n_vertices (l_m (g_em st))) - 1 \<le> l_num_embedded_edges st) st
       [0..<n_edges (l_m (g_em st))] best_choice_init = Inr best"
    and bl: "best_l_e best = Some l_e"
    and e: "embed_path (g_em st) (halfedgeA l_e) (best_path best) = Inr em'"
    and st': "st' = \<lparr>g_em = em',
            g_result = \<lparr>insertion_sequence = insertion_sequence (g_result st) @ [Some l_e]\<rparr>,
            l_is_embedded = (l_is_embedded st)(l_e := True),
            l_num_embedded_edges = l_num_embedded_edges st + 1,
            l_v_components = merge (l_v_components st) (vertexA (l_m (g_em st)) l_e)
                                (vertexB (l_m (g_em st)) l_e)\<rparr>"
    by (rule greedy_round_InrE)
  let ?a = "vertexA ?m l_e" and ?b = "vertexB ?m l_e"
  have lm': "l_m (g_em st') = ?m" using embed_path_l_m[OF e] lm st' by simp
  have seq': "insertion_sequence (g_result st') = map Some (es @ [l_e])" using seq st' by simp
  have cnt': "l_num_embedded_edges st' = int (length (es @ [l_e]))" using cnt st' by simp
  have eqv': "equivalent (l_v_components st') x y \<longleftrightarrow> joined ?m (es @ [l_e]) x y" for x y
  proof -
    have t1: "joined ?m es x ?a \<Longrightarrow> joined ?m es ?a y \<Longrightarrow> joined ?m es x y"
      and t2: "joined ?m es x ?b \<Longrightarrow> joined ?m es ?b y \<Longrightarrow> joined ?m es x y"
      using equivalent_equiv(3)[of "l_v_components st"] unfolding eqv by blast+
    have "equivalent (l_v_components st') x y \<longleftrightarrow>
            equivalent (l_v_components st) x y \<or>
            (equivalent (l_v_components st) x ?a \<and> equivalent (l_v_components st) ?b y) \<or>
            (equivalent (l_v_components st) x ?b \<and> equivalent (l_v_components st) ?a y)"
      unfolding st' by (simp add: equivalent_merge lm)
    also have "\<dots> \<longleftrightarrow> joined ?m es x y \<or> (joined ?m es x ?a \<and> joined ?m es ?b y) \<or>
            (joined ?m es x ?b \<and> joined ?m es ?a y)"
      unfolding eqv ..
    also have "\<dots> \<longleftrightarrow> joined ?m (es @ [l_e]) x y"
      unfolding joined_snoc using t1 t2 by blast
    finally show ?thesis .
  qed
  have cf': "cycle_free ?m (take (n_vertices ?m - 1) (es @ [l_e]))"
  proof (cases "l_num_embedded_edges st < int (n_vertices (l_m (g_em st))) - 1")
    case True
    from greedy_round_selects_unmerged[OF r True] seq st' lm
    have ne: "\<not> equivalent (l_v_components st) ?a ?b" by auto
    from True cnt lm have len: "length es < n_vertices ?m - 1" by simp
    then have t: "take (n_vertices ?m - 1) (es @ [l_e]) = es @ [l_e]"
      "take (n_vertices ?m - 1) es = es" by simp_all
    show ?thesis
      unfolding t cycle_free_def
    proof (intro allI impI)
      fix i assume i: "i < length (es @ [l_e])"
      show "\<not> joined ?m (take i (es @ [l_e])) (vertexA ?m ((es @ [l_e]) ! i)) (vertexB ?m ((es @ [l_e]) ! i))"
      proof (cases "i < length es")
        case True
        with cf[unfolded t cycle_free_def] show ?thesis by (simp add: nth_append)
      next
        case False
        with i have "i = length es" by simp
        with ne eqv show ?thesis by simp
      qed
    qed
  next
    case False
    with cnt lm have "n_vertices ?m - 1 \<le> length es" by simp
    then have "take (n_vertices ?m - 1) (es @ [l_e]) = take (n_vertices ?m - 1) es" by simp
    with cf show ?thesis by simp
  qed
  show ?thesis unfolding greedy_inv_def using lm' seq' cnt' eqv' cf' by blast
qed

lemma greedy_run_inv: "greedy_run fsp swirl pnorm settings ext em st \<Longrightarrow> greedy_inv em st"
  by (induction rule: greedy_run.induct) (auto intro: greedy_inv_init greedy_inv_round)

lemma greedy_run_l_m: "greedy_run fsp swirl pnorm settings ext em st \<Longrightarrow> l_m (g_em st) = l_m em"
  using greedy_run_inv[of fsp swirl pnorm settings ext em st] by (simp add: greedy_inv_def)

lemma embed_greedy_loop_run:
  "embed_greedy_loop fsp swirl pnorm settings ext n st = Inr st' \<Longrightarrow>
   n = int (n_edges (l_m em)) \<Longrightarrow>
   greedy_run fsp swirl pnorm settings ext em st \<Longrightarrow>
   greedy_run fsp swirl pnorm settings ext em st'"
proof (induction fsp swirl pnorm settings ext n st rule: embed_greedy_loop.induct)
  case (1 fsp swirl pnorm settings ext n st)
  show ?case
  proof (cases "l_num_embedded_edges st < n")
    case True
    with "1.prems"(1) obtain st1 where
      r: "greedy_round fsp swirl pnorm settings ext st = Inr st1"
      and l: "embed_greedy_loop fsp swirl pnorm settings ext n st1 = Inr st'"
      by (subst (asm) embed_greedy_loop.simps) (auto split: sum.splits)
    have "greedy_run fsp swirl pnorm settings ext em st1"
      using greedy_run.round[OF "1.prems"(3) _ r] True "1.prems"(2) by simp
    from "1.IH"[OF True r l "1.prems"(2) this] show ?thesis .
  next
    case False
    with "1.prems"(1) have "st' = st" by (subst (asm) embed_greedy_loop.simps) simp
    with "1.prems"(3) show ?thesis by simp
  qed
qed

lemma all_settings_flags:
  "map (\<lambda>s. (use_swirl_detection s, use_vertex_repulsive_tracing s, prefer_extremal_vertices s))
       (all_settings settings)
   = [(False, False, False), (False, False, True), (False, True, False), (False, True, True),
      (True, False, False), (True, False, True), (True, True, False), (True, True, True)]"
  by (simp add: all_settings_def)

lemma length_all_settings: "length (all_settings settings) = 8"
  by (simp add: all_settings_def)

lemma run_variants_outcomes:
  "run_variants fsp swirl pnorm em ss = Some (Inr outcomes) \<Longrightarrow>
     length outcomes = length ss \<and>
     (\<forall>i < length ss. \<exists>em_i.
         embed_greedy fsp swirl pnorm (Embedding_copy em) (ss ! i) = Inr (snd (outcomes ! i), em_i) \<and>
         total_embedded_path_length pnorm em_i = Some (Inr (fst (outcomes ! i))))"
proof (induction ss arbitrary: outcomes)
  case Nil
  then show ?case by simp
next
  case (Cons s ss)
  from Cons.prems obtain result em1 cost rest where
    g: "embed_greedy fsp swirl pnorm (Embedding_copy em) s = Inr (result, em1)"
    and c: "total_embedded_path_length pnorm em1 = Some (Inr cost)"
    and r: "run_variants fsp swirl pnorm em ss = Some (Inr rest)"
    and o: "outcomes = (cost, result) # rest"
    by (auto split: sum.splits option.splits)
  from Cons.IH[OF r] have len: "length rest = length ss"
    and ih: "\<And>i. i < length ss \<Longrightarrow> \<exists>em_i.
         embed_greedy fsp swirl pnorm (Embedding_copy em) (ss ! i) = Inr (snd (rest ! i), em_i) \<and>
         total_embedded_path_length pnorm em_i = Some (Inr (fst (rest ! i)))"
    by blast+
  show ?case
  proof (intro conjI allI impI)
    show "length outcomes = length (s # ss)" using o len by simp
  next
    fix i assume i: "i < length (s # ss)"
    show "\<exists>em_i. embed_greedy fsp swirl pnorm (Embedding_copy em) ((s # ss) ! i)
                    = Inr (snd (outcomes ! i), em_i) \<and>
                 total_embedded_path_length pnorm em_i = Some (Inr (fst (outcomes ! i)))"
    proof (cases i)
      case 0
      with g c o show ?thesis by simp
    next
      case (Suc j)
      with i ih[of j] o show ?thesis by simp
    qed
  qed
qed

lemma d_less_Fin_trans: "a < b \<Longrightarrow> d_less (Fin b) c \<Longrightarrow> d_less (Fin a) c"
  by (cases c) simp_all

lemma d_less_Fin_not: "\<not> d_less (Fin c) bc \<Longrightarrow> d_less (Fin a) bc \<Longrightarrow> a < c"
  by (cases bc) simp_all

lemma pick_best_first_least:
  "pick_best xs (bc, bs, br) = res \<Longrightarrow>
     (res = (bc, bs, br) \<and> (\<forall>x \<in> set xs. \<not> d_less (Fin (fst x)) bc)) \<or>
     (\<exists>k < length xs. res = (Fin (fst (xs ! k)), snd (xs ! k)) \<and>
         d_less (Fin (fst (xs ! k))) bc \<and>
         (\<forall>j < length xs. fst (xs ! k) \<le> fst (xs ! j)) \<and>
         (\<forall>j < k. fst (xs ! k) < fst (xs ! j)))"
proof (induction xs arbitrary: bc bs br)
  case Nil
  then show ?case by simp
next
  case (Cons x xs)
  obtain c s r where x: "x = (c, s, r)" by (cases x)
  show ?case
  proof (cases "d_less (Fin c) bc")
    case True
    with Cons.prems x have "pick_best xs (Fin c, s, r) = res" by simp
    from Cons.IH[OF this] show ?thesis
    proof
      assume a: "res = (Fin c, s, r) \<and> (\<forall>x \<in> set xs. \<not> d_less (Fin (fst x)) (Fin c))"
      have "\<forall>j < length (x # xs). fst ((x # xs) ! 0) \<le> fst ((x # xs) ! j)"
      proof (intro allI impI)
        fix j assume "j < length (x # xs)"
        then show "fst ((x # xs) ! 0) \<le> fst ((x # xs) ! j)"
          using a x by (cases j) (auto simp: not_less dest: nth_mem)
      qed
      with a x True show ?thesis by (intro disjI2 exI[of _ 0]) simp
    next
      assume "\<exists>k < length xs. res = (Fin (fst (xs ! k)), snd (xs ! k)) \<and>
         d_less (Fin (fst (xs ! k))) (Fin c) \<and>
         (\<forall>j < length xs. fst (xs ! k) \<le> fst (xs ! j)) \<and>
         (\<forall>j < k. fst (xs ! k) < fst (xs ! j))"
      then obtain k where k: "k < length xs" "res = (Fin (fst (xs ! k)), snd (xs ! k))"
        "fst (xs ! k) < c" "\<forall>j < length xs. fst (xs ! k) \<le> fst (xs ! j)"
        "\<forall>j < k. fst (xs ! k) < fst (xs ! j)" by auto
      have 1: "d_less (Fin (fst (xs ! k))) bc" using d_less_Fin_trans[OF k(3) True] .
      have 2: "\<forall>j < length (x # xs). fst (xs ! k) \<le> fst ((x # xs) ! j)"
      proof (intro allI impI)
        fix j assume "j < length (x # xs)"
        then show "fst (xs ! k) \<le> fst ((x # xs) ! j)"
          using k(3,4) x by (cases j) auto
      qed
      have 3: "\<forall>j < Suc k. fst (xs ! k) < fst ((x # xs) ! j)"
      proof (intro allI impI)
        fix j assume "j < Suc k"
        then show "fst (xs ! k) < fst ((x # xs) ! j)"
          using k(3,5) x by (cases j) auto
      qed
      from k(1,2) 1 2 3 show ?thesis by (intro disjI2 exI[of _ "Suc k"]) simp
    qed
  next
    case False
    with Cons.prems x have "pick_best xs (bc, bs, br) = res" by simp
    from Cons.IH[OF this] show ?thesis
    proof
      assume "res = (bc, bs, br) \<and> (\<forall>x \<in> set xs. \<not> d_less (Fin (fst x)) bc)"
      with False x show ?thesis by simp
    next
      assume "\<exists>k < length xs. res = (Fin (fst (xs ! k)), snd (xs ! k)) \<and>
         d_less (Fin (fst (xs ! k))) bc \<and>
         (\<forall>j < length xs. fst (xs ! k) \<le> fst (xs ! j)) \<and>
         (\<forall>j < k. fst (xs ! k) < fst (xs ! j))"
      then obtain k where k: "k < length xs" "res = (Fin (fst (xs ! k)), snd (xs ! k))"
        "d_less (Fin (fst (xs ! k))) bc" "\<forall>j < length xs. fst (xs ! k) \<le> fst (xs ! j)"
        "\<forall>j < k. fst (xs ! k) < fst (xs ! j)" by auto
      have lt: "fst (xs ! k) < c" using d_less_Fin_not[OF False k(3)] .
      have 2: "\<forall>j < length (x # xs). fst (xs ! k) \<le> fst ((x # xs) ! j)"
      proof (intro allI impI)
        fix j assume "j < length (x # xs)"
        then show "fst (xs ! k) \<le> fst ((x # xs) ! j)"
          using lt k(4) x by (cases j) auto
      qed
      have 3: "\<forall>j < Suc k. fst (xs ! k) < fst ((x # xs) ! j)"
      proof (intro allI impI)
        fix j assume "j < Suc k"
        then show "fst (xs ! k) < fst ((x # xs) ! j)"
          using lt k(5) x by (cases j) auto
      qed
      from k(1,2,3) 2 3 show ?thesis by (intro disjI2 exI[of _ "Suc k"]) simp
    qed
  qed
qed

section \<open>The greedy solver and searches without a result\<close>

lemma greedy_scan_append:
  assumes "greedy_scan fsp swirl pnorm settings ext tree st xs best = Inr b"
    and "insertion_order settings = Arbitrary \<longrightarrow> best_l_e b = None"
  shows "greedy_scan fsp swirl pnorm settings ext tree st (xs @ zs) best
         = greedy_scan fsp swirl pnorm settings ext tree st zs b"
  using assms
proof (induction xs arbitrary: best)
  case Nil
  then show ?case by simp
next
  case (Cons x xs)
  show ?case
  proof (cases "scan_skips ext tree st x best")
    case True
    note sk = greedy_scan_skip[OF True, of fsp swirl pnorm settings]
    from Cons.prems(1) have "greedy_scan fsp swirl pnorm settings ext tree st xs best = Inr b"
      unfolding sk .
    from Cons.IH[OF this Cons.prems(2)] show ?thesis
      unfolding append_Cons sk .
  next
    case False
    note v = greedy_scan_visit[OF False, of fsp swirl pnorm settings]
    from Cons.prems(1) obtain path c where
      p: "fsp (g_em st) (halfedgeA x)
            (if use_vertex_repulsive_tracing settings then VertexRepulsive else Geodesic) = Inr path"
      and c: "path_length pnorm (g_em st) path = Inr c"
      unfolding v[of xs] by (auto split: sum.splits)
    have nar: "insertion_order settings \<noteq> Arbitrary"
    proof
      assume "insertion_order settings = Arbitrary"
      with Cons.prems p c show False unfolding v[of xs] by auto
    qed
    define nb where "nb =
      (let path_cost' =
             (if use_swirl_detection settings \<and> d_less (Fin c) (best_path_cost best) \<and>
                 swirl (g_em st) (halfedgeA x) path
              then c * swirl_penalty_factor settings else c);
           extremal_priority = 1 - of_bool (incident_to_extremal_vertex (g_em st) ext (Some x));
           best_extremal_priority =
             1 - of_bool (incident_to_extremal_vertex (g_em st) ext (best_l_e best))
       in if tie_less (extremal_priority :: int, Fin path_cost') (best_extremal_priority, best_path_cost best)
          then \<lparr>best_path = path, best_path_cost = Fin path_cost', best_l_e = Some x\<rparr>
          else best)"
    have step: "\<And>l_es. greedy_scan fsp swirl pnorm settings ext tree st (x # l_es) best
                 = greedy_scan fsp swirl pnorm settings ext tree st l_es nb"
      unfolding v by (simp add: p c nar nb_def Let_def)
    from Cons.prems(1) have "greedy_scan fsp swirl pnorm settings ext tree st xs nb = Inr b"
      by (simp only: step)
    from Cons.IH[OF this Cons.prems(2)] show ?thesis
      by (simp only: step append_Cons)
  qed
qed

lemma greedy_scan_empty_path:
  assumes "\<not> scan_skips ext tree st l_e best"
    and "fsp (g_em st) (halfedgeA l_e)
           (if use_vertex_repulsive_tracing settings then VertexRepulsive else Geodesic) = Inr []"
  shows "greedy_scan fsp swirl pnorm settings ext tree st (l_e # l_es) best = Inl AssertionFailed"
  unfolding greedy_scan_visit[OF assms(1)] by (simp add: assms(2) path_length_def)

lemma greedy_run_loop:
  assumes "greedy_run fsp swirl pnorm settings ext em st"
  shows "embed_greedy_loop fsp swirl pnorm settings ext (int (n_edges (l_m em))) (greedy_state_init em)
         = embed_greedy_loop fsp swirl pnorm settings ext (int (n_edges (l_m em))) st"
  using assms
proof (induction rule: greedy_run.induct)
  case start
  show ?case by simp
next
  case (round st st')
  have "embed_greedy_loop fsp swirl pnorm settings ext (int (n_edges (l_m em))) st
        = embed_greedy_loop fsp swirl pnorm settings ext (int (n_edges (l_m em))) st'"
    using round.hyps(2,3) by (subst embed_greedy_loop.simps) simp
  with round.IH show ?case by simp
qed

text \<open>
  C5 (as stated): when a search inside the greedy solver returns an empty path, the
  solver detects it and skips the edge or reports failure, and does not abort. On the
  instance, with a search that returns the empty path, the solver stops with a failed
  assertion: the path goes to \<^verbatim>\<open>path_length\<close>, which asserts that it has two
  elements.
\<close>

theorem C5_no_check_counterexample:
  "(case embed_greedy ex_no_path ex_no_swirl 1 ex_em ex_settings of
      Inl err \<Rightarrow> err = AssertionFailed
    | Inr outcome \<Rightarrow> False)"
  by code_simp

text \<open>
  C5 (amended): the greedy solver does not test the result of a search. When, in a
  round that a run enters, the scan comes to a layout edge that it does not pass over
  and the search for this edge returns the empty path, the path goes to
  \<^verbatim>\<open>path_length\<close>, whose assertion fails, and the whole run ends with this failed
  assertion: the edge is not skipped and no failure is reported. On every input the
  solver behaves exactly as it does with a search that fails an assertion instead of
  returning the empty path; this covers the searches of the extremal-vertex block too.
\<close>

theorem C5_empty_path_fails_assertion:
  "(extremal_vertices fsp pnorm em settings = Inr ext \<and>
    greedy_run fsp swirl pnorm settings ext em st \<and>
    l_num_embedded_edges st < int (n_edges (l_m em)) \<and>
    [0..<n_edges (l_m (g_em st))] = xs @ l_e # ys \<and>
    greedy_scan fsp swirl pnorm settings ext
      (int (n_vertices (l_m (g_em st))) - 1 \<le> l_num_embedded_edges st) st xs best_choice_init
      = Inr best \<and>
    (insertion_order settings = Arbitrary \<longrightarrow> best_l_e best = None) \<and>
    \<not> scan_skips ext (int (n_vertices (l_m (g_em st))) - 1 \<le> l_num_embedded_edges st) st l_e best \<and>
    fsp (g_em st) (halfedgeA l_e)
      (if use_vertex_repulsive_tracing settings then VertexRepulsive else Geodesic) = Inr []
    \<longrightarrow> embed_greedy fsp swirl pnorm em settings = Inl AssertionFailed) \<and>
   embed_greedy fsp swirl pnorm em settings = embed_greedy (fail_on_empty fsp) swirl pnorm em settings"
proof (intro conjI impI)
  let ?tree = "int (n_vertices (l_m (g_em st))) - 1 \<le> l_num_embedded_edges st"
  assume a: "extremal_vertices fsp pnorm em settings = Inr ext \<and>
    greedy_run fsp swirl pnorm settings ext em st \<and>
    l_num_embedded_edges st < int (n_edges (l_m em)) \<and>
    [0..<n_edges (l_m (g_em st))] = xs @ l_e # ys \<and>
    greedy_scan fsp swirl pnorm settings ext ?tree st xs best_choice_init = Inr best \<and>
    (insertion_order settings = Arbitrary \<longrightarrow> best_l_e best = None) \<and>
    \<not> scan_skips ext ?tree st l_e best \<and>
    fsp (g_em st) (halfedgeA l_e)
      (if use_vertex_repulsive_tracing settings then VertexRepulsive else Geodesic) = Inr []"
  then have sc: "greedy_scan fsp swirl pnorm settings ext ?tree st xs best_choice_init = Inr best"
    and ar: "insertion_order settings = Arbitrary \<longrightarrow> best_l_e best = None"
    and ns: "\<not> scan_skips ext ?tree st l_e best"
    and em: "fsp (g_em st) (halfedgeA l_e)
      (if use_vertex_repulsive_tracing settings then VertexRepulsive else Geodesic) = Inr []"
    by blast+
  have "greedy_scan fsp swirl pnorm settings ext ?tree st (xs @ l_e # ys) best_choice_init
        = greedy_scan fsp swirl pnorm settings ext ?tree st (l_e # ys) best"
    using sc ar by (rule greedy_scan_append)
  also have "\<dots> = Inl AssertionFailed" using ns em by (rule greedy_scan_empty_path)
  finally have "greedy_round fsp swirl pnorm settings ext st = Inl AssertionFailed"
    using a by (simp add: greedy_round_def)
  with a have "embed_greedy_loop fsp swirl pnorm settings ext (int (n_edges (l_m em))) st
               = Inl AssertionFailed"
    by (subst embed_greedy_loop.simps) simp
  with a greedy_run_loop[of fsp swirl pnorm settings ext em st]
  show "embed_greedy fsp swirl pnorm em settings = Inl AssertionFailed"
    by (simp add: embed_greedy_def)
next
  show "embed_greedy fsp swirl pnorm em settings = embed_greedy (fail_on_empty fsp) swirl pnorm em settings"
    by (simp add: embed_greedy_def extremal_vertices_fail_on_empty embed_greedy_loop_fail_on_empty
           cong: sum.case_cong)
qed

text \<open>
  On the tetrahedron, with a search that finds the direct path for the first three
  layout edges and no path for the fourth: the first round scans three edges, comes to
  the fourth, and the run ends with the failed assertion.
\<close>

theorem C5_empty_path_fails_assertion_witness:
  "extremal_vertices gap_search 1 tet_em ex_settings = Inr (\<lambda>l_v. False) \<and>
   greedy_run gap_search ex_no_swirl 1 ex_settings (\<lambda>l_v. False) tet_em (greedy_state_init tet_em) \<and>
   l_num_embedded_edges (greedy_state_init tet_em) < int (n_edges (l_m tet_em)) \<and>
   [0..<n_edges (l_m (g_em (greedy_state_init tet_em)))] = [0, 1, 2] @ 3 # [] \<and>
   greedy_scan gap_search ex_no_swirl 1 ex_settings (\<lambda>l_v. False)
      (int (n_vertices (l_m (g_em (greedy_state_init tet_em)))) - 1
         \<le> l_num_embedded_edges (greedy_state_init tet_em))
      (greedy_state_init tet_em) [0, 1, 2] best_choice_init
      = Inr \<lparr>best_path = [Vertex 1, Vertex 0], best_path_cost = Fin 1, best_l_e = Some 0\<rparr> \<and>
   gap_search (g_em (greedy_state_init tet_em)) (halfedgeA 3)
      (if use_vertex_repulsive_tracing ex_settings then VertexRepulsive else Geodesic) = Inr [] \<and>
   embed_greedy gap_search ex_no_swirl 1 tet_em ex_settings = Inl AssertionFailed"
proof -
  have t1: "extremal_vertices gap_search 1 tet_em ex_settings = Inr (\<lambda>l_v. False)"
    by (simp add: extremal_vertices_def ex_settings_def)
  have t2: "greedy_scan gap_search ex_no_swirl 1 ex_settings (\<lambda>l_v. False)
      (int (n_vertices (l_m (g_em (greedy_state_init tet_em)))) - 1
         \<le> l_num_embedded_edges (greedy_state_init tet_em))
      (greedy_state_init tet_em) [0, 1, 2] best_choice_init
      = Inr \<lparr>best_path = [Vertex 1, Vertex 0], best_path_cost = Fin 1, best_l_e = Some 0\<rparr>"
    by code_simp
  have t3: "[0..<n_edges (l_m (g_em (greedy_state_init tet_em)))] = [0, 1, 2] @ 3 # []"
    "l_num_embedded_edges (greedy_state_init tet_em) < int (n_edges (l_m tet_em))"
    "insertion_order ex_settings = Arbitrary \<longrightarrow>
       best_l_e \<lparr>best_path = [Vertex 1, Vertex 0], best_path_cost = Fin 1, best_l_e = Some 0\<rparr> = None"
    "\<not> scan_skips (\<lambda>l_v. False) (int (n_vertices (l_m (g_em (greedy_state_init tet_em)))) - 1
         \<le> l_num_embedded_edges (greedy_state_init tet_em)) (greedy_state_init tet_em) 3
       \<lparr>best_path = [Vertex 1, Vertex 0], best_path_cost = Fin 1, best_l_e = Some 0\<rparr>"
    "gap_search (g_em (greedy_state_init tet_em)) (halfedgeA 3)
      (if use_vertex_repulsive_tracing ex_settings then VertexRepulsive else Geodesic) = Inr []"
    by code_simp+
  have run: "greedy_run gap_search ex_no_swirl 1 ex_settings (\<lambda>l_v. False) tet_em (greedy_state_init tet_em)"
    by (rule greedy_run.start)
  note inst = C5_empty_path_fails_assertion[where fsp=gap_search and pnorm=1 and em=tet_em
      and settings=ex_settings and ext="\<lambda>l_v. False" and swirl=ex_no_swirl
      and st="greedy_state_init tet_em" and xs="[0, 1, 2]" and l_e=3 and ys="[]"
      and best="\<lparr>best_path = [Vertex 1, Vertex 0], best_path_cost = Fin 1, best_l_e = Some 0\<rparr>"]
  from inst t1 run t2 t3 have "embed_greedy gap_search ex_no_swirl 1 tet_em ex_settings = Inl AssertionFailed"
    by blast
  with t1 run t2 t3 show ?thesis by blast
qed

section \<open>The greedy solver and the spanning tree\<close>

text \<open>
  C8: in every round that a run of the greedy solver enters while the number of
  embedded layout edges is less than the number of layout vertices minus 1, the edge
  that the round selects has its two endpoints in different components of the
  union-find structure of that round; and the edges that a run selects before the
  spanning tree is complete are cycle-free: each joins two vertices that the edges
  selected before it do not join.
\<close>

theorem C8_no_premature_cycle:
  "(greedy_run fsp swirl pnorm settings ext em st \<and>
    l_num_embedded_edges st < int (n_edges (l_m em)) \<and>
    greedy_round fsp swirl pnorm settings ext st = Inr st' \<and>
    l_num_embedded_edges st < int (n_vertices (l_m em)) - 1 \<longrightarrow>
      (\<exists>l_e. insertion_sequence (g_result st') = insertion_sequence (g_result st) @ [Some l_e] \<and>
             \<not> equivalent (l_v_components st) (vertexA (l_m em) l_e) (vertexB (l_m em) l_e))) \<and>
   (embed_greedy fsp swirl pnorm em settings = Inr (result, em') \<longrightarrow>
      (\<exists>es. insertion_sequence result = map Some es \<and>
            cycle_free (l_m em) (take (n_vertices (l_m em) - 1) es)))"
proof (intro conjI impI)
  assume a: "greedy_run fsp swirl pnorm settings ext em st \<and>
    l_num_embedded_edges st < int (n_edges (l_m em)) \<and>
    greedy_round fsp swirl pnorm settings ext st = Inr st' \<and>
    l_num_embedded_edges st < int (n_vertices (l_m em)) - 1"
  then have lm: "l_m (g_em st) = l_m em" using greedy_run_l_m by blast
  from a greedy_round_selects_unmerged[of fsp swirl pnorm settings ext st st'] lm
  show "\<exists>l_e. insertion_sequence (g_result st') = insertion_sequence (g_result st) @ [Some l_e] \<and>
             \<not> equivalent (l_v_components st) (vertexA (l_m em) l_e) (vertexB (l_m em) l_e)"
    by auto
next
  assume "embed_greedy fsp swirl pnorm em settings = Inr (result, em')"
  then obtain ext' st' where
    l: "embed_greedy_loop fsp swirl pnorm settings ext' (int (n_edges (l_m em))) (greedy_state_init em) = Inr st'"
    and res: "result = g_result st'"
    by (auto simp: embed_greedy_def split: sum.splits)
  have "greedy_run fsp swirl pnorm settings ext' em st'"
    by (rule embed_greedy_loop_run[OF l refl greedy_run.start])
  from greedy_run_inv[OF this] res
  show "\<exists>es. insertion_sequence result = map Some es \<and>
            cycle_free (l_m em) (take (n_vertices (l_m em) - 1) es)"
    unfolding greedy_inv_def by blast
qed

text \<open>
  The statement on the tetrahedron, in the third round. Two edges of the layout
  triangle are embedded, its third edge \<open>2\<close> is not, and the spanning tree is not
  complete: the endpoints of edge \<open>2\<close> are in one component, the scan passes over it,
  and the round selects edge \<open>3\<close>. Edge \<open>2\<close> is selected last, after the spanning tree.
\<close>

theorem C8_no_premature_cycle_witness:
  "greedy_run direct_search ex_no_swirl 1 ex_settings (\<lambda>l_v. False) tet_em tet_round2 \<and>
   l_num_embedded_edges tet_round2 < int (n_edges (l_m tet_em)) \<and>
   greedy_round direct_search ex_no_swirl 1 ex_settings (\<lambda>l_v. False) tet_round2 = Inr tet_round3 \<and>
   l_num_embedded_edges tet_round2 < int (n_vertices (l_m tet_em)) - 1 \<and>
   \<not> l_is_embedded tet_round2 2 \<and>
   equivalent (l_v_components tet_round2) (vertexA (l_m tet_em) 2) (vertexB (l_m tet_em) 2) \<and>
   insertion_sequence (g_result tet_round2) = [Some 0, Some 1] \<and>
   insertion_sequence (g_result tet_round3) = [Some 0, Some 1, Some 3] \<and>
   (\<exists>l_e. insertion_sequence (g_result tet_round3)
            = insertion_sequence (g_result tet_round2) @ [Some l_e] \<and>
          \<not> equivalent (l_v_components tet_round2)
                (vertexA (l_m tet_em) l_e) (vertexB (l_m tet_em) l_e)) \<and>
   embed_greedy direct_search ex_no_swirl 1 tet_em ex_settings = Inr (fst tet_greedy, snd tet_greedy) \<and>
   insertion_sequence (fst tet_greedy) = [Some 0, Some 1, Some 3, Some 2] \<and>
   (\<exists>es. insertion_sequence (fst tet_greedy) = map Some es \<and>
         cycle_free (l_m tet_em) (take (n_vertices (l_m tet_em) - 1) es))"
proof -
  have "case greedy_round direct_search ex_no_swirl 1 ex_settings (\<lambda>l_v. False) (greedy_state_init tet_em) of
          Inr st \<Rightarrow> True | Inl err \<Rightarrow> False"
    by code_simp
  then have r1: "greedy_round direct_search ex_no_swirl 1 ex_settings (\<lambda>l_v. False) (greedy_state_init tet_em)
                  = Inr tet_round1"
    by (simp add: tet_round1_def split: sum.splits)
  have "case greedy_round direct_search ex_no_swirl 1 ex_settings (\<lambda>l_v. False) tet_round1 of
          Inr st \<Rightarrow> True | Inl err \<Rightarrow> False"
    by code_simp
  then have r2: "greedy_round direct_search ex_no_swirl 1 ex_settings (\<lambda>l_v. False) tet_round1 = Inr tet_round2"
    by (simp add: tet_round2_def split: sum.splits)
  have "case greedy_round direct_search ex_no_swirl 1 ex_settings (\<lambda>l_v. False) tet_round2 of
          Inr st \<Rightarrow> True | Inl err \<Rightarrow> False"
    by code_simp
  then have r3: "greedy_round direct_search ex_no_swirl 1 ex_settings (\<lambda>l_v. False) tet_round2 = Inr tet_round3"
    by (simp add: tet_round3_def split: sum.splits)
  have n0: "l_num_embedded_edges (greedy_state_init tet_em) < int (n_edges (l_m tet_em))"
    and n1: "l_num_embedded_edges tet_round1 < int (n_edges (l_m tet_em))"
    and n2: "l_num_embedded_edges tet_round2 < int (n_edges (l_m tet_em))"
    and t2: "l_num_embedded_edges tet_round2 < int (n_vertices (l_m tet_em)) - 1"
    by code_simp+
  have run1: "greedy_run direct_search ex_no_swirl 1 ex_settings (\<lambda>l_v. False) tet_em tet_round1"
    using greedy_run.start n0 r1 by (rule greedy_run.round)
  have run2: "greedy_run direct_search ex_no_swirl 1 ex_settings (\<lambda>l_v. False) tet_em tet_round2"
    using run1 n1 r2 by (rule greedy_run.round)
  have skip: "\<not> l_is_embedded tet_round2 2 \<and>
      equivalent (l_v_components tet_round2) (vertexA (l_m tet_em) 2) (vertexB (l_m tet_em) 2) \<and>
      insertion_sequence (g_result tet_round2) = [Some 0, Some 1] \<and>
      insertion_sequence (g_result tet_round3) = [Some 0, Some 1, Some 3]"
    by code_simp
  have "case embed_greedy direct_search ex_no_swirl 1 tet_em ex_settings of
          Inr outcome \<Rightarrow> insertion_sequence (fst outcome) = [Some 0, Some 1, Some 3, Some 2]
        | Inl err \<Rightarrow> False"
    by code_simp
  then have g: "embed_greedy direct_search ex_no_swirl 1 tet_em ex_settings = Inr (fst tet_greedy, snd tet_greedy)"
    and gs: "insertion_sequence (fst tet_greedy) = [Some 0, Some 1, Some 3, Some 2]"
    by (auto simp: tet_greedy_def split: sum.splits)
  note inst = C8_no_premature_cycle[of direct_search ex_no_swirl 1 ex_settings "\<lambda>l_v. False" tet_em
      tet_round2 tet_round3 "fst tet_greedy" "snd tet_greedy"]
  from inst run2 n2 r3 t2 have a: "\<exists>l_e. insertion_sequence (g_result tet_round3)
            = insertion_sequence (g_result tet_round2) @ [Some l_e] \<and>
          \<not> equivalent (l_v_components tet_round2)
                (vertexA (l_m tet_em) l_e) (vertexB (l_m tet_em) l_e)"
    by blast
  from inst g have b: "\<exists>es. insertion_sequence (fst tet_greedy) = map Some es \<and>
         cycle_free (l_m tet_em) (take (n_vertices (l_m tet_em) - 1) es)"
    by blast
  from run2 n2 r3 t2 skip a g gs b show ?thesis by blast
qed

section \<open>The brute-force solver\<close>

text \<open>
  C9 (as stated): \<^verbatim>\<open>embed_greedy_brute_force\<close> runs the solver exactly once for each of
  the eight settings, each run on a copy of the embedding. On the instance the layout
  edge is not embedded in the embedding handed to the call and is embedded in the same
  embedding after the call: the solver also ran on the embedding of the caller.
\<close>

theorem C9_caller_state_counterexample:
  "is_embedded ex_em 0 = Inr False \<and>
   (case embed_greedy_brute_force ex_search ex_no_swirl 1 ex_em ex_settings of
      Some (Inr (result, em')) \<Rightarrow> is_embedded em' 0 = Inr True
    | _ \<Rightarrow> False)"
  by code_simp

text \<open>
  C9 (amended): when \<^verbatim>\<open>embed_greedy_brute_force\<close> returns, it has run the solver once
  for each of the eight combinations of the three boolean settings, every run on its
  own copy of the embedding it was given, and it returns the result of the first
  variant whose total embedded path length is least; then it has run the solver once
  more, with the settings of that variant, on the embedding of the caller, which is
  left as this ninth run leaves it.
\<close>

theorem C9_brute_force_variants:
  assumes "embed_greedy_brute_force fsp swirl pnorm em settings = Some (Inr (result, em'))"
  shows "\<exists>outcomes k result'.
           run_variants fsp swirl pnorm em (all_settings settings) = Some (Inr outcomes) \<and>
           length outcomes = 8 \<and>
           (\<forall>i < 8. \<exists>em_i.
              embed_greedy fsp swirl pnorm (Embedding_copy em) (all_settings settings ! i)
                = Inr (snd (outcomes ! i), em_i) \<and>
              total_embedded_path_length pnorm em_i = Some (Inr (fst (outcomes ! i)))) \<and>
           k < 8 \<and> result = snd (outcomes ! k) \<and>
           (\<forall>j < 8. fst (outcomes ! k) \<le> fst (outcomes ! j)) \<and>
           (\<forall>j < k. fst (outcomes ! k) < fst (outcomes ! j)) \<and>
           embed_greedy fsp swirl pnorm em (all_settings settings ! k) = Inr (result', em')"
proof -
  let ?ss = "all_settings settings"
  from assms obtain outcomes best_cost best_settings best_result result' where
    rv: "run_variants fsp swirl pnorm em ?ss = Some (Inr outcomes)"
    and pb: "pick_best (zip (map fst outcomes) (zip ?ss (map snd outcomes)))
               (PInf, settings, \<lparr>insertion_sequence = []\<rparr>) = (best_cost, best_settings, best_result)"
    and g: "embed_greedy fsp swirl pnorm em best_settings = Inr (result', em')"
    and res: "result = best_result"
    unfolding embed_greedy_brute_force_def
    by (auto split: sum.splits option.splits prod.splits)
  from run_variants_outcomes[OF rv] have len: "length outcomes = 8"
    and each: "\<forall>i < 8. \<exists>em_i.
              embed_greedy fsp swirl pnorm (Embedding_copy em) (?ss ! i) = Inr (snd (outcomes ! i), em_i) \<and>
              total_embedded_path_length pnorm em_i = Some (Inr (fst (outcomes ! i)))"
    by (simp_all add: length_all_settings)
  let ?xs = "zip (map fst outcomes) (zip ?ss (map snd outcomes))"
  have lxs: "length ?xs = 8" using len by (simp add: length_all_settings)
  have nth: "\<And>i. i < 8 \<Longrightarrow> ?xs ! i = (fst (outcomes ! i), ?ss ! i, snd (outcomes ! i))"
    using len by (simp add: length_all_settings)
  have "?xs ! 0 \<in> set ?xs" using lxs by (intro nth_mem) simp
  moreover have "d_less (Fin (fst (?xs ! 0))) PInf" by simp
  ultimately have "\<not> (\<forall>x \<in> set ?xs. \<not> d_less (Fin (fst x)) PInf)" by blast
  with pick_best_first_least[OF pb] obtain k where
    k: "k < length ?xs" "(best_cost, best_settings, best_result) = (Fin (fst (?xs ! k)), snd (?xs ! k))"
       "\<forall>j < length ?xs. fst (?xs ! k) \<le> fst (?xs ! j)" "\<forall>j < k. fst (?xs ! k) < fst (?xs ! j)"
    by blast
  from k(1) len have k8: "k < 8" by simp
  from k(2) nth[OF k8] have bs: "best_settings = ?ss ! k" and br: "best_result = snd (outcomes ! k)"
    by simp_all
  have le: "\<forall>j < 8. fst (outcomes ! k) \<le> fst (outcomes ! j)"
    using k(3) len nth k8 by (simp add: length_all_settings)
  have lt: "\<forall>j < k. fst (outcomes ! k) < fst (outcomes ! j)"
    using k(4) nth k8 by simp
  from rv len each k8 res br le lt g bs show ?thesis by blast
qed

text \<open>The amended statement on the instance.\<close>

theorem C9_brute_force_variants_witness:
  "embed_greedy_brute_force ex_search ex_no_swirl 1 ex_em ex_settings
     = Some (Inr (fst ex_brute_force, snd ex_brute_force)) \<and>
   (\<exists>outcomes k result'.
      run_variants ex_search ex_no_swirl 1 ex_em (all_settings ex_settings) = Some (Inr outcomes) \<and>
      length outcomes = 8 \<and>
      (\<forall>i < 8. \<exists>em_i.
         embed_greedy ex_search ex_no_swirl 1 (Embedding_copy ex_em) (all_settings ex_settings ! i)
           = Inr (snd (outcomes ! i), em_i) \<and>
         total_embedded_path_length 1 em_i = Some (Inr (fst (outcomes ! i)))) \<and>
      k < 8 \<and> fst ex_brute_force = snd (outcomes ! k) \<and>
      (\<forall>j < 8. fst (outcomes ! k) \<le> fst (outcomes ! j)) \<and>
      (\<forall>j < k. fst (outcomes ! k) < fst (outcomes ! j)) \<and>
      embed_greedy ex_search ex_no_swirl 1 ex_em (all_settings ex_settings ! k)
        = Inr (result', snd ex_brute_force))"
proof -
  have "case embed_greedy_brute_force ex_search ex_no_swirl 1 ex_em ex_settings of
          Some (Inr outcome) \<Rightarrow> True | _ \<Rightarrow> False"
    by code_simp
  then have b: "embed_greedy_brute_force ex_search ex_no_swirl 1 ex_em ex_settings
                  = Some (Inr (fst ex_brute_force, snd ex_brute_force))"
    by (simp add: ex_brute_force_def split: option.splits sum.splits)
  from C9_brute_force_variants[OF b] b show ?thesis by blast
qed

section \<open>Termination and result of the shortest-path search\<close>

lemma tg_distance_nonneg: "0 \<le> tg_distance p q"
  by (cases p; cases q) simp

lemma walk_length_nonneg: "0 \<le> walk_length em W"
  by (induction em W rule: walk_length.induct) (simp_all add: tg_distance_nonneg)

lemma walk_length_snoc:
  "W \<noteq> [] \<Longrightarrow> walk_length em (W @ [x]) = walk_length em W + tg_distance (vv_pos em (last W)) (vv_pos em x)"
  by (induction em W rule: walk_length.induct) simp_all

lemma d_less_Fin_PInf_iff: "d_less (Fin a) x = (case x of Fin b \<Rightarrow> a < b | PInf \<Rightarrow> True)"
  by (cases x) simp_all

lemma d_less_trans: "d_less a b \<Longrightarrow> d_less b c \<Longrightarrow> d_less a c"
  by (cases a; cases b; cases c) simp_all

lemma d_le_less_trans: "\<not> d_less b a \<Longrightarrow> d_less b c \<Longrightarrow> d_less a c"
  by (cases a; cases b; cases c) simp_all

lemma d_less_le_trans: "d_less a b \<Longrightarrow> \<not> d_less c b \<Longrightarrow> d_less a c"
  by (cases a; cases b; cases c) simp_all

lemma d_le_trans: "\<not> d_less b a \<Longrightarrow> \<not> d_less c b \<Longrightarrow> \<not> d_less c a"
  by (cases a; cases b; cases c) simp_all

lemma d_less_irrefl: "\<not> d_less a a"
  by (cases a) simp_all

lemma finite_vv_valid: "finite {vv. vv_valid em vv}"
proof -
  have "{vv. vv_valid em vv} \<subseteq> Vertex ` {..<n_vertices (t_m em)} \<union> Edge ` {..<n_edges (t_m em)}"
  proof
    fix x assume "x \<in> {vv. vv_valid em vv}"
    then show "x \<in> Vertex ` {..<n_vertices (t_m em)} \<union> Edge ` {..<n_edges (t_m em)}"
      by (cases x) (simp_all add: vv_valid_def)
  qed
  then show ?thesis by (rule finite_subset) simp
qed

lemma finite_short_walks: "finite (short_walks sf d)"
proof -
  have "short_walks sf d \<subseteq> {W. set W \<subseteq> {vv. vv_valid (sf_em sf) vv} \<and> distinct W}"
    by (auto simp: short_walks_def list_all_iff)
  moreover have "finite {W. set W \<subseteq> {vv. vv_valid (sf_em sf) vv} \<and> distinct W}"
    using finite_vv_valid by (rule finite_subset_distinct)
  ultimately show ?thesis by (rule finite_subset)
qed

lemma element_pos_valid: "vv_valid em vv \<Longrightarrow> element_pos em vv = Inr (vv_pos em vv)"
  by (cases vv) (simp_all add: vv_valid_def vv_pos_def)

lemma is_blocked_edge_valid: "t_e < n_edges (t_m em) \<Longrightarrow> \<exists>b. is_blocked_edge em t_e = Inr b"
  by (simp add: is_blocked_edge_def)

lemma any_edge_blocked_valid:
  "list_all (\<lambda>t_e. t_e < n_edges (t_m em)) t_es \<Longrightarrow> \<exists>b. any_edge_blocked em t_es = Inr b"
  by (induction t_es) (auto simp: is_blocked_edge_def)

lemma is_blocked_valid: "vv_valid em vv \<Longrightarrow> \<exists>b. is_blocked em vv = Inr b"
proof (cases vv)
  case (Vertex t_v)
  assume "vv_valid em vv"
  have "list_all (\<lambda>t_e. t_e < n_edges (t_m em)) (vertex_edges (t_m em) t_v)"
    by (simp add: vertex_edges_def list_all_iff)
  from any_edge_blocked_valid[OF this] \<open>vv_valid em vv\<close> show ?thesis
    by (auto simp: Vertex vv_valid_def is_blocked_vertex_def)
next
  case (Edge t_e)
  assume "vv_valid em vv"
  then show ?thesis by (simp add: Edge vv_valid_def is_blocked_edge_def)
qed

lemma legal_step_valid: "vv_valid (sf_em sf) vv \<Longrightarrow> \<exists>b. legal_step sf vv_from vv = Inr b"
  using is_blocked_valid[of "sf_em sf" vv] by (auto simp: legal_step_def)

lemma q_min_in: "q_min c q \<in> set (c # q)"
  by (induction q arbitrary: c) (auto split: if_splits)

lemma q_top_in: "q \<noteq> [] \<Longrightarrow> q_top q \<in> set q"
  using q_min_in[of "hd q" "tl q"] by (cases q) (simp_all add: q_top_def)

lemma length_q_pop: "q \<noteq> [] \<Longrightarrow> length (q_pop q) < length q"
proof -
  assume "q \<noteq> []"
  then have "q_top q \<in> set q" by (rule q_top_in)
  then have "length (q_pop q) = length q - 1" by (simp add: q_pop_def length_remove1)
  with \<open>q \<noteq> []\<close> show ?thesis by (cases q) simp_all
qed

lemma set_q_pop: "set (q_pop q) \<subseteq> set q"
  by (simp add: q_pop_def set_remove1_subset)

lemma visit_vv_cases:
  assumes "vv_valid (sf_em sf) vv"
  shows "visit_vv sf st c vv = Inr st \<or>
         (Distance_less (relaxed_dist sf c vv) (ss_distance st vv) \<and>
          visit_vv sf st c vv = Inr (relaxed_state sf st c vv))"
proof -
  from legal_step_valid[OF assms] obtain b where b: "legal_step sf (cand_vv c) vv = Inr b"
    by blast
  show ?thesis
    by (simp add: visit_vv_def b element_pos_valid[OF assms] Let_def relaxed_dist_def
        relaxed_state_def)
qed

lemma relaxed_less:
  assumes dok: "dist_ok sf d prev_vv"
    and g: "geodesic (cand_dist c) = Fin g" and g0: "0 \<le> g"
    and less: "Distance_less (relaxed_dist sf c vv) (d vv)"
  shows "vv \<noteq> Vertex (sf_start sf) \<and>
         geodesic (relaxed_dist sf c vv) = Fin (g + tg_distance (cand_p c) (vv_pos (sf_em sf) vv)) \<and>
         d_less (geodesic (relaxed_dist sf c vv)) (geodesic (d vv))"
proof -
  let ?w = "tg_distance (cand_p c) (vv_pos (sf_em sf) vv)"
  let ?h = "tg_distance (vv_pos (sf_em sf) vv) (t_pos (sf_em sf) (sf_end sf))"
  have w0: "0 \<le> ?w" and h0: "0 \<le> ?h" by (rule tg_distance_nonneg)+
  have geo: "geodesic (relaxed_dist sf c vv) = Fin (g + ?w)"
    by (simp add: relaxed_dist_def g)
  have heu: "remaining_distance_heuristic (relaxed_dist sf c vv) = Fin ?h"
    by (simp add: relaxed_dist_def)
  have ne: "vv \<noteq> Vertex (sf_start sf)"
  proof
    assume "vv = Vertex (sf_start sf)"
    with dok have "d vv = Distance_default\<lparr>edges_crossed := 0, geodesic := Fin 0\<rparr>"
      by (simp add: dist_ok_def)
    with less geo heu g0 w0 h0 show False
      by (simp add: Distance_less_def Distance_default_def)
  qed
  have "d_less (Fin (g + ?w)) (geodesic (d vv))"
  proof (cases "geodesic (d vv)")
    case PInf
    then show ?thesis by simp
  next
    case (Fin gv)
    with dok ne have "remaining_distance_heuristic (d vv) = Fin ?h"
      by (simp add: dist_ok_def)
    with less geo heu Fin show ?thesis
      by (simp add: Distance_less_def)
  qed
  with ne geo show ?thesis by simp
qed

lemma walk_length_take: "walk_length em (take k W) \<le> walk_length em W"
proof (induction em W arbitrary: k rule: walk_length.induct)
  case (1 em a b W)
  show ?case
  proof (cases k)
    case 0
    then show ?thesis using walk_length_nonneg[of em "a # b # W"] by simp
  next
    case (Suc k')
    show ?thesis
    proof (cases k')
      case 0
      with Suc show ?thesis using walk_length_nonneg[of em "a # b # W"] by simp
    next
      case (Suc k'')
      with \<open>k = Suc k'\<close> 1[of k'] show ?thesis by simp
    qed
  qed
qed (simp_all add: take_Cons')

lemma cand_ok_mono:
  assumes le: "\<And>x. \<not> d_less (geodesic (d x)) (geodesic (d' x))"
    and ok: "cand_ok sf d c"
  shows "cand_ok sf d' c"
proof -
  from ok obtain W where W: "W \<noteq> []" "distinct W" "list_all (vv_valid (sf_em sf)) W"
      "last W = cand_vv c" "geodesic (cand_dist c) = Fin (walk_length (sf_em sf) W)"
      "cand_p c = vv_pos (sf_em sf) (cand_vv c)"
    and pre: "\<forall>k<length W. \<not> d_less (Fin (walk_length (sf_em sf) (take (Suc k) W))) (geodesic (d (W ! k)))"
    unfolding cand_ok_def by blast
  have "\<forall>k<length W. \<not> d_less (Fin (walk_length (sf_em sf) (take (Suc k) W))) (geodesic (d' (W ! k)))"
  proof (intro allI impI)
    fix k assume "k < length W"
    with pre have "\<not> d_less (Fin (walk_length (sf_em sf) (take (Suc k) W))) (geodesic (d (W ! k)))"
      by blast
    with le[of "W ! k"] show "\<not> d_less (Fin (walk_length (sf_em sf) (take (Suc k) W))) (geodesic (d' (W ! k)))"
      by (rule d_le_trans)
  qed
  with W show ?thesis unfolding cand_ok_def by blast
qed

lemma short_walks_mono:
  assumes le: "\<And>x. \<not> d_less (geodesic (d x)) (geodesic (d' x))"
  shows "short_walks sf d' \<subseteq> short_walks sf d"
proof
  fix W assume "W \<in> short_walks sf d'"
  then have W: "W \<noteq> []" "distinct W" "list_all (vv_valid (sf_em sf)) W"
    and l: "d_less (Fin (walk_length (sf_em sf) W)) (geodesic (d' (last W)))"
    by (simp_all add: short_walks_def)
  from l le[of "last W"] have "d_less (Fin (walk_length (sf_em sf) W)) (geodesic (d (last W)))"
    by (rule d_less_le_trans)
  with W show "W \<in> short_walks sf d" by (simp add: short_walks_def)
qed

lemma cand_ok_finite:
  assumes "cand_ok sf d c"
  shows "\<exists>g. geodesic (cand_dist c) = Fin g \<and> 0 \<le> g \<and> \<not> d_less (Fin g) (geodesic (d (cand_vv c))) \<and>
             vv_valid (sf_em sf) (cand_vv c)"
proof -
  from assms obtain W where W: "W \<noteq> []" "list_all (vv_valid (sf_em sf)) W"
      "last W = cand_vv c" "geodesic (cand_dist c) = Fin (walk_length (sf_em sf) W)"
    and pre: "\<forall>k<length W. \<not> d_less (Fin (walk_length (sf_em sf) (take (Suc k) W))) (geodesic (d (W ! k)))"
    unfolding cand_ok_def by blast
  from W(1) have k: "length W - 1 < length W" by simp
  from W(1) have "Suc (length W - 1) = length W" by simp
  with pre k have "\<not> d_less (Fin (walk_length (sf_em sf) (take (length W) W))) (geodesic (d (W ! (length W - 1))))"
    by metis
  with W(1,3) have "\<not> d_less (Fin (walk_length (sf_em sf) W)) (geodesic (d (cand_vv c)))"
    by (simp add: last_conv_nth)
  moreover from W(1,2,3) have "vv_valid (sf_em sf) (cand_vv c)"
    using last_in_set[of W] by (auto simp: list_all_iff)
  ultimately show ?thesis using W(4) walk_length_nonneg by blast
qed

lemma d_less_asym: "d_less a b \<Longrightarrow> \<not> d_less b a"
  by (cases a; cases b) simp_all

lemma d_less_finite: "d_less a b \<Longrightarrow> a \<noteq> PInf"
  by (cases a) simp_all

lemma upd_le:
  assumes "d_less (geodesic nd) (geodesic (d vv))"
  shows "\<not> d_less (geodesic (d x)) (geodesic ((d(vv := nd)) x))"
  using assms by (simp add: d_less_asym d_less_irrefl)

lemma relaxed_walk:
  assumes ok: "cand_ok sf d c"
    and valid: "vv_valid (sf_em sf) vv"
    and less: "d_less (geodesic (relaxed_dist sf c vv)) (geodesic (d vv))"
  shows "\<exists>W. W \<noteq> [] \<and> distinct W \<and> list_all (vv_valid (sf_em sf)) W \<and> last W = vv \<and>
             geodesic (relaxed_dist sf c vv) = Fin (walk_length (sf_em sf) W) \<and>
             (\<forall>k<length W. \<not> d_less (Fin (walk_length (sf_em sf) (take (Suc k) W)))
                                     (geodesic ((d(vv := relaxed_dist sf c vv)) (W ! k))))"
proof -
  let ?em = "sf_em sf"
  let ?nd = "relaxed_dist sf c vv"
  from ok obtain W where W: "W \<noteq> []" "distinct W" "list_all (vv_valid ?em) W"
      "last W = cand_vv c" "geodesic (cand_dist c) = Fin (walk_length ?em W)"
      "cand_p c = vv_pos ?em (cand_vv c)"
    and pre: "\<forall>k<length W. \<not> d_less (Fin (walk_length ?em (take (Suc k) W))) (geodesic (d (W ! k)))"
    unfolding cand_ok_def by blast
  let ?W = "W @ [vv]"
  have len: "walk_length ?em ?W = walk_length ?em W + tg_distance (cand_p c) (vv_pos ?em vv)"
    using W(1,4,6) by (simp add: walk_length_snoc)
  have geo: "geodesic ?nd = Fin (walk_length ?em ?W)"
    by (simp add: relaxed_dist_def W(5) len)
  have notin: "vv \<notin> set W"
  proof
    assume "vv \<in> set W"
    then obtain k where k: "k < length W" "W ! k = vv" by (auto simp: in_set_conv_nth)
    with pre have n: "\<not> d_less (Fin (walk_length ?em (take (Suc k) W))) (geodesic (d vv))"
      by blast
    have "walk_length ?em (take (Suc k) W) \<le> walk_length ?em W" by (rule walk_length_take)
    also have "\<dots> \<le> walk_length ?em ?W" using len tg_distance_nonneg[of "cand_p c" "vv_pos ?em vv"] by simp
    finally have "\<not> d_less (Fin (walk_length ?em ?W)) (Fin (walk_length ?em (take (Suc k) W)))"
      by simp
    from this less[unfolded geo] have "d_less (Fin (walk_length ?em (take (Suc k) W))) (geodesic (d vv))"
      by (rule d_le_less_trans)
    with n show False by blast
  qed
  have pre': "\<forall>k<length ?W. \<not> d_less (Fin (walk_length ?em (take (Suc k) ?W)))
                                     (geodesic ((d(vv := ?nd)) (?W ! k)))"
  proof (intro allI impI)
    fix k assume k: "k < length ?W"
    show "\<not> d_less (Fin (walk_length ?em (take (Suc k) ?W))) (geodesic ((d(vv := ?nd)) (?W ! k)))"
    proof (cases "k < length W")
      case True
      with pre have "\<not> d_less (Fin (walk_length ?em (take (Suc k) W))) (geodesic (d (W ! k)))"
        by blast
      with upd_le[where d=d and vv=vv and nd="?nd" and x="W ! k", OF less]
      have "\<not> d_less (Fin (walk_length ?em (take (Suc k) W))) (geodesic ((d(vv := ?nd)) (W ! k)))"
        by (rule d_le_trans)
      with True show ?thesis by (simp add: nth_append)
    next
      case False
      with k have "k = length W" by simp
      then show ?thesis by (simp add: geo d_less_irrefl)
    qed
  qed
  from W(1,2,3) notin valid geo pre' show ?thesis
    by (intro exI[of _ ?W]) simp
qed

lemma relaxed_short_walks:
  assumes ok: "cand_ok sf d c"
    and valid: "vv_valid (sf_em sf) vv"
    and less: "d_less (geodesic (relaxed_dist sf c vv)) (geodesic (d vv))"
  shows "short_walks sf (d(vv := relaxed_dist sf c vv)) \<subset> short_walks sf d"
proof -
  let ?nd = "relaxed_dist sf c vv"
  from relaxed_walk[OF ok valid less] obtain W where W: "W \<noteq> []" "distinct W"
      "list_all (vv_valid (sf_em sf)) W" "last W = vv"
      "geodesic ?nd = Fin (walk_length (sf_em sf) W)"
    by blast
  have sub: "short_walks sf (d(vv := ?nd)) \<subseteq> short_walks sf d"
    by (rule short_walks_mono) (rule upd_le[where d=d and vv=vv and nd="?nd", OF less])
  from W less have "W \<in> short_walks sf d" by (simp add: short_walks_def)
  moreover from W have "W \<notin> short_walks sf (d(vv := ?nd))"
    by (simp add: short_walks_def d_less_irrefl)
  ultimately show ?thesis using sub by blast
qed

lemma relaxed_cand_ok:
  assumes ok: "cand_ok sf d c"
    and valid: "vv_valid (sf_em sf) vv"
    and less: "d_less (geodesic (relaxed_dist sf c vv)) (geodesic (d vv))"
  shows "cand_ok sf (d(vv := relaxed_dist sf c vv))
           \<lparr>cand_vv = vv, cand_p = vv_pos (sf_em sf) vv, cand_dist = relaxed_dist sf c vv\<rparr>"
  using relaxed_walk[OF ok valid less] unfolding cand_ok_def by simp


lemma reaches_upd_below:
  assumes mono: "\<forall>x x'. x \<noteq> s \<longrightarrow> geodesic (d x) \<noteq> PInf \<longrightarrow> prev_vv x = Some x' \<longrightarrow>
                   \<not> d_less (geodesic (d x)) (geodesic (d x'))"
    and r: "reaches prev_vv s x"
    and below: "d_less (geodesic (d x)) (geodesic (d vv))"
  shows "reaches (prev_vv(vv := p)) s x"
  using r below
proof (induction rule: reaches.induct)
  case reaches_start
  show ?case by (rule reaches.reaches_start)
next
  case (reaches_prev x x')
  from reaches_prev.prems have fin: "geodesic (d x) \<noteq> PInf" by (rule d_less_finite)
  from reaches_prev.prems have ne: "x \<noteq> vv" using d_less_irrefl by blast
  from mono reaches_prev.hyps(1,2) fin have "\<not> d_less (geodesic (d x)) (geodesic (d x'))"
    by blast
  from this reaches_prev.prems have "d_less (geodesic (d x')) (geodesic (d vv))"
    by (rule d_le_less_trans)
  then have r': "reaches (prev_vv(vv := p)) s x'" by (rule reaches_prev.IH)
  from reaches_prev.hyps(2) ne have "(prev_vv(vv := p)) x = Some x'" by simp
  with reaches_prev.hyps(1) show ?case using r' by (rule reaches.reaches_prev)
qed


lemma reaches_upd:
  assumes r: "reaches prev_vv s x"
    and p: "reaches (prev_vv(vv := Some p)) s p"
  shows "reaches (prev_vv(vv := Some p)) s x"
  using r
proof (induction rule: reaches.induct)
  case reaches_start
  show ?case by (rule reaches.reaches_start)
next
  case (reaches_prev x x')
  show ?case
  proof (cases "x = vv")
    case True
    then have "(prev_vv(vv := Some p)) x = Some p" by simp
    with reaches_prev.hyps(1) show ?thesis using p by (rule reaches.reaches_prev)
  next
    case False
    with reaches_prev.hyps(2) have "(prev_vv(vv := Some p)) x = Some x'" by simp
    with reaches_prev.hyps(1) show ?thesis using reaches_prev.IH by (rule reaches.reaches_prev)
  qed
qed

lemma relaxed_dist_ok:
  assumes dok: "dist_ok sf d prev_vv"
    and ok: "cand_ok sf d c"
    and ne: "vv \<noteq> Vertex (sf_start sf)"
    and less: "d_less (geodesic (relaxed_dist sf c vv)) (geodesic (d vv))"
  shows "dist_ok sf (d(vv := relaxed_dist sf c vv)) (prev_vv(vv := Some (cand_vv c)))"
proof -
  let ?s = "Vertex (sf_start sf)"
  let ?nd = "relaxed_dist sf c vv"
  let ?cv = "cand_vv c"
  let ?d' = "d(vv := ?nd)"
  let ?p' = "prev_vv(vv := Some ?cv)"
  from dok have start: "d ?s = Distance_default\<lparr>edges_crossed := 0, geodesic := Fin 0\<rparr>"
    and heu: "\<forall>x. x \<noteq> ?s \<longrightarrow> geodesic (d x) \<noteq> PInf \<longrightarrow>
            remaining_distance_heuristic (d x) =
              Fin (tg_distance (vv_pos (sf_em sf) x) (t_pos (sf_em sf) (sf_end sf)))"
    and rea: "\<forall>x. geodesic (d x) \<noteq> PInf \<longrightarrow> reaches prev_vv ?s x"
    and mono: "\<forall>x x'. x \<noteq> ?s \<longrightarrow> geodesic (d x) \<noteq> PInf \<longrightarrow> prev_vv x = Some x' \<longrightarrow>
            \<not> d_less (geodesic (d x)) (geodesic (d x'))"
    unfolding dist_ok_def by blast+
  from cand_ok_finite[OF ok] obtain g where g: "geodesic (cand_dist c) = Fin g" "0 \<le> g"
      "\<not> d_less (Fin g) (geodesic (d ?cv))"
    by blast
  have geo: "geodesic ?nd = Fin (g + tg_distance (cand_p c) (vv_pos (sf_em sf) vv))"
    by (simp add: relaxed_dist_def g(1))
  have "\<not> d_less (geodesic ?nd) (Fin g)"
    using tg_distance_nonneg[of "cand_p c" "vv_pos (sf_em sf) vv"] by (simp add: geo)
  with g(3) have cv_le: "\<not> d_less (geodesic ?nd) (geodesic (d ?cv))"
    by (rule d_le_trans)
  from this less have below: "d_less (geodesic (d ?cv)) (geodesic (d vv))"
    by (rule d_le_less_trans)
  then have fin_cv: "geodesic (d ?cv) \<noteq> PInf" by (rule d_less_finite)
  from below have cv_ne: "?cv \<noteq> vv" using d_less_irrefl by metis
  from rea fin_cv have "reaches prev_vv ?s ?cv" by blast
  with mono have rcv: "reaches ?p' ?s ?cv" using below by (rule reaches_upd_below)
  have le: "\<And>x. \<not> d_less (geodesic (d x)) (geodesic (?d' x))"
    by (rule upd_le[where d=d and vv=vv and nd="?nd", OF less])
  have c1: "?d' ?s = Distance_default\<lparr>edges_crossed := 0, geodesic := Fin 0\<rparr>"
    using ne start by simp
  have c2: "\<forall>x. x \<noteq> ?s \<longrightarrow> geodesic (?d' x) \<noteq> PInf \<longrightarrow>
            remaining_distance_heuristic (?d' x) =
              Fin (tg_distance (vv_pos (sf_em sf) x) (t_pos (sf_em sf) (sf_end sf)))"
  proof (intro allI impI)
    fix x assume x: "x \<noteq> ?s" "geodesic (?d' x) \<noteq> PInf"
    show "remaining_distance_heuristic (?d' x) =
              Fin (tg_distance (vv_pos (sf_em sf) x) (t_pos (sf_em sf) (sf_end sf)))"
    proof (cases "x = vv")
      case True
      then show ?thesis by (simp add: relaxed_dist_def)
    next
      case False
      with x heu show ?thesis by simp
    qed
  qed
  have c3: "\<forall>x. geodesic (?d' x) \<noteq> PInf \<longrightarrow> reaches ?p' ?s x"
  proof (intro allI impI)
    fix x assume x: "geodesic (?d' x) \<noteq> PInf"
    show "reaches ?p' ?s x"
    proof (cases "x = vv")
      case True
      have "?p' vv = Some ?cv" by simp
      with ne have "reaches ?p' ?s vv" using rcv by (rule reaches.reaches_prev)
      with True show ?thesis by simp
    next
      case False
      with x rea have "reaches prev_vv ?s x" by simp
      then show ?thesis using rcv by (rule reaches_upd)
    qed
  qed
  have c4: "\<forall>x x'. x \<noteq> ?s \<longrightarrow> geodesic (?d' x) \<noteq> PInf \<longrightarrow> ?p' x = Some x' \<longrightarrow>
            \<not> d_less (geodesic (?d' x)) (geodesic (?d' x'))"
  proof (intro allI impI)
    fix x x' assume x: "x \<noteq> ?s" "geodesic (?d' x) \<noteq> PInf" "?p' x = Some x'"
    show "\<not> d_less (geodesic (?d' x)) (geodesic (?d' x'))"
    proof (cases "x = vv")
      case True
      with x(3) have "x' = ?cv" by simp
      with True cv_ne cv_le show ?thesis by simp
    next
      case False
      with x have "geodesic (d x) \<noteq> PInf" "prev_vv x = Some x'" by simp_all
      with mono x(1) have "\<not> d_less (geodesic (d x)) (geodesic (d x'))" by blast
      with le[of x'] have "\<not> d_less (geodesic (d x)) (geodesic (?d' x'))" by (rule d_le_trans)
      with False show ?thesis by simp
    qed
  qed
  from c1 c2 c3 c4 show ?thesis unfolding dist_ok_def by blast
qed

lemma visit_vv_inv:
  assumes inv: "search_inv sf st"
    and ok: "cand_ok sf (ss_distance st) c"
    and valid: "vv_valid (sf_em sf) vv"
  shows "\<exists>st'. visit_vv sf st c vv = Inr st' \<and> search_inv sf st' \<and>
               cand_ok sf (ss_distance st') c \<and>
               (st' = st \<or> short_walks sf (ss_distance st') \<subset> short_walks sf (ss_distance st))"
proof -
  let ?d = "ss_distance st"
  let ?nd = "relaxed_dist sf c vv"
  let ?st' = "relaxed_state sf st c vv"
  from inv have dok: "dist_ok sf ?d (ss_prev st)" and qok: "list_all (cand_ok sf ?d) (ss_q st)"
    by (simp_all add: search_inv_def)
  from visit_vv_cases[OF valid, of st c]
  show ?thesis
  proof
    assume "visit_vv sf st c vv = Inr st"
    with inv ok show ?thesis by simp
  next
    assume "Distance_less ?nd (?d vv) \<and> visit_vv sf st c vv = Inr ?st'"
    then have dl: "Distance_less ?nd (?d vv)" and v: "visit_vv sf st c vv = Inr ?st'"
      by simp_all
    from cand_ok_finite[OF ok] obtain g where g: "geodesic (cand_dist c) = Fin g" "0 \<le> g"
      by blast
    from relaxed_less[OF dok g dl] have ne: "vv \<noteq> Vertex (sf_start sf)"
      and less: "d_less (geodesic ?nd) (geodesic (?d vv))"
      by blast+
    have d': "ss_distance ?st' = ?d(vv := ?nd)" and p': "ss_prev ?st' = (ss_prev st)(vv := Some (cand_vv c))"
      and q': "ss_q ?st' = ss_q st @ [\<lparr>cand_vv = vv, cand_p = vv_pos (sf_em sf) vv, cand_dist = ?nd\<rparr>]"
      by (simp_all add: relaxed_state_def)
    have le: "\<And>x. \<not> d_less (geodesic (?d x)) (geodesic ((?d(vv := ?nd)) x))"
      by (rule upd_le[where d="?d" and vv=vv and nd="?nd", OF less])
    have dok': "dist_ok sf (ss_distance ?st') (ss_prev ?st')"
      unfolding d' p' using dok ok ne less by (rule relaxed_dist_ok)
    have ok': "cand_ok sf (ss_distance ?st') c"
      unfolding d' using le ok by (rule cand_ok_mono)
    have "list_all (cand_ok sf (?d(vv := ?nd))) (ss_q st)"
      using qok cand_ok_mono[where d="?d" and d'="?d(vv := ?nd)" and sf=sf, OF le]
      unfolding list_all_iff by blast
    moreover have "cand_ok sf (?d(vv := ?nd)) \<lparr>cand_vv = vv, cand_p = vv_pos (sf_em sf) vv, cand_dist = ?nd\<rparr>"
      using ok valid less by (rule relaxed_cand_ok)
    ultimately have qok': "list_all (cand_ok sf (ss_distance ?st')) (ss_q ?st')"
      unfolding d' q' by simp
    have "short_walks sf (ss_distance ?st') \<subset> short_walks sf ?d"
      unfolding d' using ok valid less by (rule relaxed_short_walks)
    with v dok' qok' ok' show ?thesis
      unfolding search_inv_def by blast
  qed
qed

lemma visit_all_inv:
  assumes "search_inv sf st"
    and "cand_ok sf (ss_distance st) c"
    and "list_all (vv_valid (sf_em sf)) vvs"
  shows "\<exists>st'. visit_all sf st c vvs = Inr st' \<and> search_inv sf st' \<and>
               (st' = st \<or> short_walks sf (ss_distance st') \<subset> short_walks sf (ss_distance st))"
  using assms
proof (induction vvs arbitrary: st)
  case Nil
  then show ?case by simp
next
  case (Cons vv vvs)
  from Cons.prems(3) have valid: "vv_valid (sf_em sf) vv" and rest: "list_all (vv_valid (sf_em sf)) vvs"
    by simp_all
  from visit_vv_inv[OF Cons.prems(1,2) valid] obtain st1 where
    v: "visit_vv sf st c vv = Inr st1" and inv1: "search_inv sf st1"
    and ok1: "cand_ok sf (ss_distance st1) c"
    and p1: "st1 = st \<or> short_walks sf (ss_distance st1) \<subset> short_walks sf (ss_distance st)"
    by blast
  from Cons.IH[OF inv1 ok1 rest] obtain st2 where
    a: "visit_all sf st1 c vvs = Inr st2" and inv2: "search_inv sf st2"
    and p2: "st2 = st1 \<or> short_walks sf (ss_distance st2) \<subset> short_walks sf (ss_distance st1)"
    by blast
  have "visit_all sf st c (vv # vvs) = Inr st2" by (simp add: v a)
  moreover from p1 p2 have "st2 = st \<or> short_walks sf (ss_distance st2) \<subset> short_walks sf (ss_distance st)"
    by auto
  ultimately show ?case using inv2 by blast
qed

lemma wf_search_measure:
  "wf (inv_image (less_than <*lex*> less_than)
         (\<lambda>st. (card (short_walks sf (ss_distance st)), length (ss_q st))))"
  by (intro wf_inv_image wf_lex_prod wf_less_than)

lemma expand_closedD:
  assumes "expand_closed em" and "vv_valid em vv"
  shows "\<exists>vvs. expand em vv = Inr vvs \<and> list_all (vv_valid em) vvs"
proof -
  from assms(2) have "vv \<in> set (map Vertex [0..<n_vertices (t_m em)] @ map Edge [0..<n_edges (t_m em)])"
    by (cases vv) (simp_all add: vv_valid_def)
  with assms(1) have "case expand em vv of Inl err \<Rightarrow> False | Inr vvs \<Rightarrow> list_all (vv_valid em) vvs"
    unfolding expand_closed_def list_all_iff by blast
  then show ?thesis by (cases "expand em vv") simp_all
qed

lemma search_loop_terminates:
  assumes closed: "expand_closed (sf_em sf)"
    and inv: "search_inv sf st"
  shows "\<exists>st'. search_loop sf st = Some (Inr st') \<and>
               dist_ok sf (ss_distance st') (ss_prev st')"
  using inv
proof (induction st rule: wf_induct_rule[OF wf_search_measure[of sf]])
  case (1 st)
  note inv = \<open>search_inv sf st\<close>
  then have dok: "dist_ok sf (ss_distance st) (ss_prev st)"
    and qok: "list_all (cand_ok sf (ss_distance st)) (ss_q st)"
    by (simp_all add: search_inv_def)
  show ?case
  proof (cases "ss_q st = []")
    case True
    then have "search_loop sf st = Some (Inr st)"
      by (subst search_loop.simps) simp
    with dok show ?thesis by blast
  next
    case False
    let ?u = "q_top (ss_q st)"
    let ?st1 = "st\<lparr>ss_q := q_pop (ss_q st)\<rparr>"
    from False have uin: "?u \<in> set (ss_q st)" by (rule q_top_in)
    with qok have uok: "cand_ok sf (ss_distance st) ?u" by (simp add: list_all_iff)
    from qok set_q_pop[of "ss_q st"] have "list_all (cand_ok sf (ss_distance st)) (q_pop (ss_q st))"
      unfolding list_all_iff by blast
    with dok have inv1: "search_inv sf ?st1" by (simp add: search_inv_def)
    show ?thesis
    proof (cases "cand_vv ?u = Vertex (sf_end sf)")
      case True
      with False have "search_loop sf st = Some (Inr ?st1)"
        by (subst search_loop.simps) (simp add: Let_def)
      with dok show ?thesis by (intro exI[of _ ?st1]) simp
    next
      case notend: False
      from cand_ok_finite[OF uok] have "vv_valid (sf_em sf) (cand_vv ?u)" by blast
      from expand_closedD[OF closed this] obtain vvs where
        ex: "expand (sf_em sf) (cand_vv ?u) = Inr vvs"
        and nb: "list_all (vv_valid (sf_em sf)) vvs"
        by blast
      from uok have uok1: "cand_ok sf (ss_distance ?st1) ?u" by simp
      from visit_all_inv[OF inv1 uok1 nb] obtain st2 where
        a: "visit_all sf ?st1 ?u vvs = Inr st2"
        and inv2: "search_inv sf st2"
        and p: "st2 = ?st1 \<or> short_walks sf (ss_distance st2) \<subset> short_walks sf (ss_distance ?st1)"
        by blast
      have "(st2, st) \<in> inv_image (less_than <*lex*> less_than)
               (\<lambda>st. (card (short_walks sf (ss_distance st)), length (ss_q st)))"
      proof -
        from p show ?thesis
        proof
          assume "st2 = ?st1"
          with length_q_pop[OF False] show ?thesis by simp
        next
          assume "short_walks sf (ss_distance st2) \<subset> short_walks sf (ss_distance ?st1)"
          then have "short_walks sf (ss_distance st2) \<subset> short_walks sf (ss_distance st)" by simp
          with finite_short_walks[of sf "ss_distance st"]
          have "card (short_walks sf (ss_distance st2)) < card (short_walks sf (ss_distance st))"
            by (simp add: psubset_card_mono)
          then show ?thesis by simp
        qed
      qed
      from "1.IH"[OF this inv2] obtain st' where
        r: "search_loop sf st2 = Some (Inr st')"
        and d: "dist_ok sf (ss_distance st') (ss_prev st')"
        by blast
      from False notend ex a r have "search_loop sf st = Some (Inr st')"
        by (subst search_loop.simps) (simp add: Let_def)
      with d show ?thesis by blast
    qed
  qed
qed

lemma backtrack_reaches:
  assumes "reaches prev_vv vv_start vv"
  shows "\<exists>bt. backtrack prev_vv vv_start vv path = Some (Inr (path @ bt)) \<and> bt \<noteq> [] \<and>
              hd bt = vv \<and> last bt = vv_start \<and>
              (\<forall>i. Suc i < length bt \<longrightarrow> prev_vv (bt ! i) = Some (bt ! Suc i))"
  using assms
proof (induction arbitrary: path rule: reaches.induct)
  case reaches_start
  have "backtrack prev_vv vv_start vv_start path = Some (Inr (path @ [vv_start]))"
    by (subst backtrack.simps) simp
  then show ?case by simp
next
  case (reaches_prev vv vv')
  from reaches_prev.IH[of "path @ [vv]"] obtain bt where
    bt: "backtrack prev_vv vv_start vv' (path @ [vv]) = Some (Inr ((path @ [vv]) @ bt))"
    "bt \<noteq> []" "hd bt = vv'" "last bt = vv_start"
    and links: "\<forall>i. Suc i < length bt \<longrightarrow> prev_vv (bt ! i) = Some (bt ! Suc i)"
    by blast
  from reaches_prev.hyps(1,2) bt(1)
  have r: "backtrack prev_vv vv_start vv path = Some (Inr (path @ (vv # bt)))"
    by (subst backtrack.simps) simp
  have "\<forall>i. Suc i < length (vv # bt) \<longrightarrow> prev_vv ((vv # bt) ! i) = Some ((vv # bt) ! Suc i)"
  proof (intro allI impI)
    fix i assume i: "Suc i < length (vv # bt)"
    show "prev_vv ((vv # bt) ! i) = Some ((vv # bt) ! Suc i)"
    proof (cases i)
      case 0
      with bt(2,3) reaches_prev.hyps(2) show ?thesis by (simp add: hd_conv_nth)
    next
      case (Suc j)
      with i links show ?thesis by simp
    qed
  qed
  with r bt(2,4) show ?case by (intro exI[of _ "vv # bt"]) simp
qed

lemma prev_chain_rev:
  assumes "\<forall>i. Suc i < length bt \<longrightarrow> prev_vv (bt ! i) = Some (bt ! Suc i)"
  shows "prev_chain prev_vv (rev bt)"
  unfolding prev_chain_def
proof (intro allI impI)
  fix i assume i: "Suc i < length (rev bt)"
  then have j: "Suc (length bt - Suc (Suc i)) < length bt" by simp
  from i have "rev bt ! Suc i = bt ! (length bt - Suc (Suc i))"
    and "rev bt ! i = bt ! Suc (length bt - Suc (Suc i))"
    by (simp_all add: rev_nth Suc_diff_Suc)
  with assms j show "prev_vv (rev bt ! Suc i) = Some (rev bt ! i)" by simp
qed

lemma search_inv_init:
  assumes "sf_start sf < n_vertices (t_m (sf_em sf))"
  shows "search_inv sf (search_state_init sf)"
proof -
  let ?s = "Vertex (sf_start sf)"
  let ?d = "ss_distance (search_state_init sf)"
  from assms have valid: "vv_valid (sf_em sf) ?s" by (simp add: vv_valid_def)
  have d: "?d = (\<lambda>vv. Distance_default)(?s := Distance_default\<lparr>edges_crossed := 0, geodesic := Fin 0\<rparr>)"
    by (simp add: search_state_init_def)
  have fin: "\<And>x. geodesic (?d x) \<noteq> PInf \<Longrightarrow> x = ?s"
    by (simp add: d Distance_default_def split: if_splits)
  have "dist_ok sf ?d (ss_prev (search_state_init sf))"
    unfolding dist_ok_def
  proof (intro conjI allI impI)
    show "?d ?s = Distance_default\<lparr>edges_crossed := 0, geodesic := Fin 0\<rparr>" by (simp add: d)
  next
    fix vv assume "vv \<noteq> ?s" "geodesic (?d vv) \<noteq> PInf"
    with fin[of vv] show "remaining_distance_heuristic (?d vv) =
        Fin (tg_distance (vv_pos (sf_em sf) vv) (t_pos (sf_em sf) (sf_end sf)))"
      by blast
  next
    fix vv assume "geodesic (?d vv) \<noteq> PInf"
    with fin[of vv] show "reaches (ss_prev (search_state_init sf)) ?s vv"
      by (simp add: reaches.reaches_start)
  next
    fix vv vv' assume "vv \<noteq> ?s" "geodesic (?d vv) \<noteq> PInf"
    with fin[of vv] show "\<not> d_less (geodesic (?d vv)) (geodesic (?d vv'))" by blast
  qed
  moreover have "cand_ok sf ?d \<lparr>cand_vv = ?s, cand_p = t_pos (sf_em sf) (sf_start sf),
               cand_dist = \<lparr>edges_crossed = 0, geodesic = Fin 0,
                            remaining_distance_heuristic = Fin DBL_MAX\<rparr>\<rparr>"
    unfolding cand_ok_def
    using valid assms by (intro exI[of _ "[?s]"]) (simp add: d vv_pos_def)
  ultimately show ?thesis by (simp add: search_inv_def search_state_init_def)
qed

lemma search_loop_end_popped:
  assumes "ss_q st \<noteq> []" and "cand_vv (q_top (ss_q st)) = Vertex (sf_end sf)"
  shows "search_loop sf st = Some (Inr (st\<lparr>ss_q := q_pop (ss_q st)\<rparr>))"
  using assms by (subst search_loop.simps) (simp add: Let_def)

lemma isinf_iff: "isinf x = (x = PInf)"
  by (cases x) simp_all

lemma oct_closed: "expand_closed oct_em"
  by code_simp

lemma oct_handles:
  "1 < n_halfedges (t_m oct_em)" "9 < n_halfedges (t_m oct_em)"
  "vertex_from (t_m oct_em) 1 = 0" "vertex_from (t_m oct_em) 9 = 1"
  "n_vertices (t_m oct_em) = 6"
  by code_simp+

lemma oct_sectors:
  "get_virtual_vertices_in_sector oct_em 1 =
     Some (Inr [Edge 9, Vertex 3, Edge 10, Vertex 4, Edge 11, Vertex 5, Edge 8, Vertex 2])"
  "get_virtual_vertices_in_sector oct_em 9 =
     Some (Inr [Edge 10, Vertex 5, Edge 9, Vertex 4, Edge 8, Vertex 3, Edge 11, Vertex 2])"
  by code_simp+

lemma oct_find_shortest_path:
  "find_shortest_path oct_em 1 9 = Some (Inr [Vertex 0, Edge 8, Vertex 1])"
  by code_simp

text \<open>
  C4: \<^verbatim>\<open>find_shortest_path\<close> leaves its loop as soon as the candidate it pops is the
  end vertex, whatever the state of the search. Called with two halfedges of a target
  mesh whose connectivity is closed, and for which the two sectors are collected, it
  returns: the loop ends in a state \<open>st\<close>, without a failed assertion; if the distance
  of the end vertex is still infinite there, the result is the empty path; otherwise
  following \<^verbatim>\<open>prev\<close> from the end vertex arrives at the start vertex, and the result is
  that chain reversed: a path that begins at the start vertex, ends at the end vertex,
  and in which the predecessor of every element is the element before it.
\<close>

theorem C4_find_shortest_path:
  assumes closed: "expand_closed em"
    and hs: "t_h_sector_start < n_halfedges (t_m em)"
    and he: "t_h_sector_end < n_halfedges (t_m em)"
    and vs: "vertex_from (t_m em) t_h_sector_start < n_vertices (t_m em)"
    and first: "get_virtual_vertices_in_sector em t_h_sector_start = Some (Inr legal_first_vvs)"
    and last: "get_virtual_vertices_in_sector em t_h_sector_end = Some (Inr legal_last_vvs)"
  shows "(\<forall>st. ss_q st \<noteq> [] \<and>
               cand_vv (q_top (ss_q st)) = Vertex (vertex_from (t_m em) t_h_sector_end) \<longrightarrow>
               search_loop (search_frame_of em t_h_sector_start t_h_sector_end
                              legal_first_vvs legal_last_vvs) st =
                 Some (Inr (st\<lparr>ss_q := q_pop (ss_q st)\<rparr>))) \<and>
         (\<exists>st path.
            search_loop (search_frame_of em t_h_sector_start t_h_sector_end
                           legal_first_vvs legal_last_vvs)
              (search_state_init (search_frame_of em t_h_sector_start t_h_sector_end
                                    legal_first_vvs legal_last_vvs)) =
              Some (Inr st) \<and>
            find_shortest_path em t_h_sector_start t_h_sector_end = Some (Inr path) \<and>
            (if isinf (geodesic (ss_distance st (Vertex (vertex_from (t_m em) t_h_sector_end))))
             then path = []
             else path \<noteq> [] \<and>
                  hd path = Vertex (vertex_from (t_m em) t_h_sector_start) \<and>
                  last path = Vertex (vertex_from (t_m em) t_h_sector_end) \<and>
                  prev_chain (ss_prev st) path \<and>
                  backtrack (ss_prev st) (Vertex (vertex_from (t_m em) t_h_sector_start))
                    (Vertex (vertex_from (t_m em) t_h_sector_end)) [] = Some (Inr (rev path))))"
proof -
  let ?sf = "search_frame_of em t_h_sector_start t_h_sector_end legal_first_vvs legal_last_vvs"
  let ?s = "Vertex (vertex_from (t_m em) t_h_sector_start)"
  let ?e = "Vertex (vertex_from (t_m em) t_h_sector_end)"
  have sf: "sf_em ?sf = em" "sf_start ?sf = vertex_from (t_m em) t_h_sector_start"
    "sf_end ?sf = vertex_from (t_m em) t_h_sector_end"
    by (simp_all add: search_frame_of_def)
  have early: "\<forall>st. ss_q st \<noteq> [] \<and> cand_vv (q_top (ss_q st)) = ?e \<longrightarrow>
      search_loop ?sf st = Some (Inr (st\<lparr>ss_q := q_pop (ss_q st)\<rparr>))"
    using search_loop_end_popped[of _ ?sf] by (simp add: sf)
  from vs have "search_inv ?sf (search_state_init ?sf)"
    by (intro search_inv_init) (simp add: sf)
  with closed obtain st where st: "search_loop ?sf (search_state_init ?sf) = Some (Inr st)"
    and dok: "dist_ok ?sf (ss_distance st) (ss_prev st)"
    using search_loop_terminates[of ?sf "search_state_init ?sf"] by (auto simp: sf)
  show ?thesis
  proof (cases "isinf (geodesic (ss_distance st ?e))")
    case True
    with hs he st first last have "find_shortest_path em t_h_sector_start t_h_sector_end = Some (Inr [])"
      by (simp add: find_shortest_path_def Let_def sf)
    with early st True show ?thesis by simp
  next
    case False
    then have "geodesic (ss_distance st ?e) \<noteq> PInf" by (simp add: isinf_iff)
    with dok have "reaches (ss_prev st) ?s ?e" by (simp add: dist_ok_def sf)
    from backtrack_reaches[OF this, of "[]"] obtain bt where
      bt: "backtrack (ss_prev st) ?s ?e [] = Some (Inr bt)" "bt \<noteq> []" "hd bt = ?e" "last bt = ?s"
      and links: "\<forall>i. Suc i < length bt \<longrightarrow> ss_prev st (bt ! i) = Some (bt ! Suc i)"
      by auto
    from hs he st False bt(1) first last
    have "find_shortest_path em t_h_sector_start t_h_sector_end = Some (Inr (rev bt))"
      by (simp add: find_shortest_path_def Let_def sf)
    moreover from bt(2,3,4) have "rev bt \<noteq> []" "hd (rev bt) = ?s" "last (rev bt) = ?e"
      by (simp_all add: hd_rev last_rev)
    moreover have "prev_chain (ss_prev st) (rev bt)" using links by (rule prev_chain_rev)
    ultimately show ?thesis using early st False bt(1) by simp
  qed
qed

text \<open>
  On the octahedron, from the halfedge \<open>1\<close> that leaves one pole to the halfedge \<open>9\<close>
  that leaves the other: the poles are not adjacent, and the search returns the path
  across the midpoint of the equator edge \<open>8\<close>.
\<close>

theorem C4_find_shortest_path_witness:
  "expand_closed oct_em \<and>
   1 < n_halfedges (t_m oct_em) \<and> 9 < n_halfedges (t_m oct_em) \<and>
   vertex_from (t_m oct_em) 1 < n_vertices (t_m oct_em) \<and>
   get_virtual_vertices_in_sector oct_em 1 =
     Some (Inr [Edge 9, Vertex 3, Edge 10, Vertex 4, Edge 11, Vertex 5, Edge 8, Vertex 2]) \<and>
   get_virtual_vertices_in_sector oct_em 9 =
     Some (Inr [Edge 10, Vertex 5, Edge 9, Vertex 4, Edge 8, Vertex 3, Edge 11, Vertex 2]) \<and>
   find_shortest_path oct_em 1 9 = Some (Inr [Vertex 0, Edge 8, Vertex 1]) \<and>
   (\<exists>st. search_loop
           (search_frame_of oct_em 1 9
              [Edge 9, Vertex 3, Edge 10, Vertex 4, Edge 11, Vertex 5, Edge 8, Vertex 2]
              [Edge 10, Vertex 5, Edge 9, Vertex 4, Edge 8, Vertex 3, Edge 11, Vertex 2])
           (search_state_init
              (search_frame_of oct_em 1 9
                 [Edge 9, Vertex 3, Edge 10, Vertex 4, Edge 11, Vertex 5, Edge 8, Vertex 2]
                 [Edge 10, Vertex 5, Edge 9, Vertex 4, Edge 8, Vertex 3, Edge 11, Vertex 2]))
           = Some (Inr st) \<and>
         \<not> isinf (geodesic (ss_distance st (Vertex 1))) \<and>
         prev_chain (ss_prev st) [Vertex 0, Edge 8, Vertex 1] \<and>
         backtrack (ss_prev st) (Vertex 0) (Vertex 1) [] = Some (Inr [Vertex 1, Edge 8, Vertex 0]))"
proof -
  note h = oct_handles
  let ?sf = "search_frame_of oct_em 1 9
              [Edge 9, Vertex 3, Edge 10, Vertex 4, Edge 11, Vertex 5, Edge 8, Vertex 2]
              [Edge 10, Vertex 5, Edge 9, Vertex 4, Edge 8, Vertex 3, Edge 11, Vertex 2]"
  have vs: "vertex_from (t_m oct_em) 1 < n_vertices (t_m oct_em)"
    unfolding h(3) h(5) by simp
  from C4_find_shortest_path[OF oct_closed h(1) h(2) vs oct_sectors]
  obtain st path where
    st: "search_loop ?sf (search_state_init ?sf) = Some (Inr st)"
    and p: "find_shortest_path oct_em 1 9 = Some (Inr path)"
    and r: "if isinf (geodesic (ss_distance st (Vertex 1))) then path = []
            else path \<noteq> [] \<and> hd path = Vertex 0 \<and> last path = Vertex 1 \<and>
                 prev_chain (ss_prev st) path \<and>
                 backtrack (ss_prev st) (Vertex 0) (Vertex 1) [] = Some (Inr (rev path))"
    unfolding h(3) h(4) by blast
  from p have path: "path = [Vertex 0, Edge 8, Vertex 1]" unfolding oct_find_shortest_path by simp
  with r have ninf: "\<not> isinf (geodesic (ss_distance st (Vertex 1)))" by (auto split: if_splits)
  with r path have "prev_chain (ss_prev st) [Vertex 0, Edge 8, Vertex 1]"
    "backtrack (ss_prev st) (Vertex 0) (Vertex 1) [] = Some (Inr [Vertex 1, Edge 8, Vertex 0])"
    by simp_all
  with st ninf oct_closed h(1,2) vs oct_sectors oct_find_shortest_path show ?thesis by blast
qed

end
